(* ===== verification/Prelude.thy ===== *)
theory Prelude
  imports Main "HOL-Library.Word" "HOL-Library.Signed_Division" "HOL-Library.Multiset"
begin

text \<open>
  What the component theories share: the collections of rewrite rules, Go's 64-bit signed
  integers written out over \<^typ>\<open>int\<close> (wrap-around, saturation, truncating division), and
  generic lemmas on lists and counting.
\<close>

section \<open>Collections\<close>

named_theorems go_arith \<open>unfolding rules for Go's operations on times and durations\<close>
named_theorems sys_defs \<open>definitions of the operations of the concurrent runner\<close>

section \<open>Signed 64-bit integers\<close>

text \<open>
  A Go \<open>int64\<close> (and so a \<open>time.Duration\<close>) is an \<^typ>\<open>int\<close> in the range from
  \<open>min64\<close> to \<open>max64\<close>. \<open>wrap64\<close> is what an overflowing addition or
  multiplication gives, \<open>sat64\<close> what \<open>time.Time.Sub\<close> gives, and \<open>sdiv\<close>
  (from HOL-Library) is Go's division, which truncates toward zero.
\<close>

definition min64 :: int where "min64 = - (2 ^ 63)"
definition max64 :: int where "max64 = 2 ^ 63 - 1"

definition wrap64 :: "int \<Rightarrow> int" where
  "wrap64 x = (x + 2 ^ 63) mod 2 ^ 64 - 2 ^ 63"

definition sat64 :: "int \<Rightarrow> int" where
  "sat64 x = max min64 (min max64 x)"

lemmas int64_defs = min64_def max64_def wrap64_def sat64_def

lemma wrap64_id: "min64 \<le> x \<Longrightarrow> x \<le> max64 \<Longrightarrow> wrap64 x = x"
  by (simp add: int64_defs)

lemma wrap64_range: "min64 \<le> wrap64 x" "wrap64 x \<le> max64"
proof -
  have "0 \<le> (x + 2 ^ 63) mod 2 ^ 64" "(x + 2 ^ 63) mod 2 ^ 64 < 2 ^ 64"
    by (rule pos_mod_sign, simp) (rule pos_mod_bound, simp)
  then show "min64 \<le> wrap64 x" "wrap64 x \<le> max64"
    by (simp_all add: int64_defs)
qed

text \<open>An overflow of less than one full turn comes out negative.\<close>

lemma wrap64_eq_iff: "wrap64 x = wrap64 y \<longleftrightarrow> 2 ^ 64 dvd x - y"
  by (auto simp: wrap64_def mod_eq_dvd_iff)

lemma wrap64_dvd: "2 ^ 64 dvd wrap64 x - x"
proof -
  have "(x + 2 ^ 63) mod 2 ^ 64 - (x + 2 ^ 63) = - (2 ^ 64 * ((x + 2 ^ 63) div 2 ^ 64))"
    by (simp only: minus_mult_div_eq_mod [symmetric])
  then have "wrap64 x - x = 2 ^ 64 * (- ((x + 2 ^ 63) div 2 ^ 64))" by (simp add: wrap64_def)
  then show ?thesis by (metis dvd_triv_left)
qed

lemma wrap64_Suc: "wrap64 (wrap64 x + 1) = wrap64 (x + 1)"
  using wrap64_dvd [of x] by (simp add: wrap64_eq_iff)

lemma wrap64_overflow:
  assumes "max64 < x" "x < 2 ^ 64"
  shows "wrap64 x < 0"
proof -
  have "(x + 2 ^ 63) mod 2 ^ 64 = (x + 2 ^ 63 - 2 ^ 64) mod 2 ^ 64"
    by (rule minus_mod_self2 [symmetric])
  also have "\<dots> = x + 2 ^ 63 - 2 ^ 64"
    using assms by (intro mod_pos_pos_trivial) (simp_all add: max64_def)
  finally show ?thesis using assms by (simp add: wrap64_def)
qed

lemma sat64_id: "min64 \<le> x \<Longrightarrow> x \<le> max64 \<Longrightarrow> sat64 x = x"
  by (simp add: sat64_def)

lemma sat64_ge: "max64 \<le> x \<Longrightarrow> sat64 x = max64"
  by (simp add: int64_defs)

lemma sat64_pos_iff: "0 < sat64 x \<longleftrightarrow> 0 < x"
  by (auto simp: int64_defs)

lemma sat64_gt_iff:
  assumes "0 \<le> c" "c < max64"
  shows "c < sat64 x \<longleftrightarrow> c < x"
  using assms by (auto simp: int64_defs)

lemma sdiv_nonneg: "0 \<le> (a :: int) \<Longrightarrow> 0 < b \<Longrightarrow> a sdiv b = a div b"
  by (cases "a = 0") (simp_all add: signed_divide_int_def)

section \<open>Lists\<close>

lemma nth_swap_mset:
  assumes "i < length xs" "j < length xs"
  shows "mset (xs[i := xs ! j, j := xs ! i]) = mset xs"
  using assms mset_swap [of j xs i] by simp

lemma count_list_le_one:
  assumes "distinct xs"
  shows "count_list xs x \<le> 1"
  using assms by (induction xs) (auto simp: count_list_0_iff)

lemma length_le_of_count:
  assumes "\<forall>x \<in> set xs. x < n" "\<And>x. count_list xs x \<le> 1"
  shows "length xs \<le> n"
proof -
  have "distinct xs"
  proof (rule ccontr)
    assume "\<not> distinct xs"
    then obtain as x bs cs where "xs = as @ [x] @ bs @ [x] @ cs"
      using not_distinct_decomp by blast
    then have "2 \<le> count_list xs x" by simp
    with assms(2) [of x] show False by simp
  qed
  then have "length xs = card (set xs)" by (simp add: distinct_card)
  also have "\<dots> \<le> card {..<n}" using assms(1) by (intro card_mono) auto
  finally show ?thesis by simp
qed

lemma list_all2_upd:
  assumes "\<And>x. P x x" "i < length xs \<Longrightarrow> P (xs ! i) y"
  shows "list_all2 P xs (xs[i := y])"
  using assms by (cases "i < length xs") (auto simp: list_all2_conv_all_nth nth_list_update)

lemma list_all_upd: "list_all P xs \<Longrightarrow> (i < length xs \<Longrightarrow> P y) \<Longrightarrow> list_all P (xs[i := y])"
  by (cases "i < length xs") (auto simp: list_all_length nth_list_update)

lemma map_upd_same: "i < length xs \<Longrightarrow> f y = f (xs ! i) \<Longrightarrow> map f (xs[i := y]) = map f xs"
  by (simp add: map_update list_update_same_conv)

end
