(* ===== verification/GoTime.thy ===== *)
theory GoTime
  imports Prelude
begin

text \<open>
  What the program uses of Go's package time. A \<open>time.Time\<close> is the \<^typ>\<open>int\<close> of
  nanoseconds since Go's zero time (the start of year 1), the instant
  \<open>Time.Truncate\<close> rounds against; the zero \<open>time.Time\<close> is 0. A
  \<open>time.Duration\<close> is an int64 of nanoseconds, an \<^typ>\<open>int\<close> kept in range by
  \<open>wrap64\<close> and \<open>sat64\<close>. The seconds counter inside a Go \<open>Time\<close> covers
  about 292 thousand million years and is taken not to overflow.
\<close>

type_synonym duration = int
type_synonym time = int

definition Nanosecond :: duration where "Nanosecond = 1"
definition Millisecond :: duration where "Millisecond = 1000000"
definition Second :: duration where "Second = 1000000000"

text \<open>\<open>Time.Truncate\<close>: round down to a multiple of \<open>d\<close> since the zero time.\<close>

definition truncate_time :: "time \<Rightarrow> duration \<Rightarrow> time" where
  "truncate_time t d = (if d \<le> 0 then t else t - t mod d)"

text \<open>\<open>Time.Add\<close>, \<open>Time.Sub\<close> (saturating), \<open>Time.After\<close>, \<open>Time.IsZero\<close>.\<close>

definition time_add :: "time \<Rightarrow> duration \<Rightarrow> time" where
  "time_add t d = t + d"

definition time_sub :: "time \<Rightarrow> time \<Rightarrow> duration" where
  "time_sub t u = sat64 (t - u)"

definition time_after :: "time \<Rightarrow> time \<Rightarrow> bool" where
  "time_after t u \<longleftrightarrow> u < t"

definition time_is_zero :: "time \<Rightarrow> bool" where
  "time_is_zero t \<longleftrightarrow> t = 0"

lemmas time_defs [go_arith] = time_add_def time_after_def time_is_zero_def

end
