(* ===== verification/GoStrings.thy ===== *)
theory GoStrings
  imports Prelude
begin

text \<open>
  What the program uses of Go's strings: a Go string is a list of bytes, a HOL \<^typ>\<open>string\<close>
  (a HOL \<^typ>\<open>char\<close> is a byte). The operations of package strings with a one-byte separator,
  prefix and substring tests, and Go's error values with \<open>errors.Is\<close>.
\<close>

section \<open>Bytes\<close>

definition byte_of :: "char \<Rightarrow> int" where "byte_of c = of_char c"

lemma byte_of_inject [simp]: "byte_of c = byte_of d \<longleftrightarrow> c = d"
  by (simp add: byte_of_def)

definition is_digit :: "char \<Rightarrow> bool" where
  "is_digit c \<longleftrightarrow> 48 \<le> byte_of c \<and> byte_of c \<le> 57"

definition is_upper :: "char \<Rightarrow> bool" where
  "is_upper c \<longleftrightarrow> 65 \<le> byte_of c \<and> byte_of c \<le> 90"

definition is_lower :: "char \<Rightarrow> bool" where
  "is_lower c \<longleftrightarrow> 97 \<le> byte_of c \<and> byte_of c \<le> 122"

definition is_alpha :: "char \<Rightarrow> bool" where
  "is_alpha c \<longleftrightarrow> is_lower c \<or> is_upper c"

text \<open>\<open>strings.ToLower\<close> on ASCII letters; other bytes are left alone.\<close>

definition lower_char :: "char \<Rightarrow> char" where
  "lower_char c = (if is_upper c then char_of (byte_of c + 32) else c)"

definition to_lower :: "string \<Rightarrow> string" where
  "to_lower s = map lower_char s"

section \<open>Package strings\<close>

text \<open>
  \<open>strings.Cut\<close> at the first separator byte: what stands before it (all of the string
  when there is none) and after it.
\<close>

definition before :: "char \<Rightarrow> string \<Rightarrow> string" where
  "before c s = takeWhile (\<lambda>x. x \<noteq> c) s"

definition after :: "char \<Rightarrow> string \<Rightarrow> string" where
  "after c s = tl (dropWhile (\<lambda>x. x \<noteq> c) s)"

text \<open>The same at the last separator (\<open>strings.LastIndex\<close>).\<close>

definition before_last :: "char \<Rightarrow> string \<Rightarrow> string" where
  "before_last c s = rev (after c (rev s))"

definition after_last :: "char \<Rightarrow> string \<Rightarrow> string" where
  "after_last c s = rev (before c (rev s))"

definition has_prefix :: "string \<Rightarrow> string \<Rightarrow> bool" where
  "has_prefix p s \<longleftrightarrow> take (length p) s = p"

definition has_suffix :: "string \<Rightarrow> string \<Rightarrow> bool" where
  "has_suffix p s \<longleftrightarrow> has_prefix (rev p) (rev s)"

fun contains_str :: "string \<Rightarrow> string \<Rightarrow> bool" where
  "contains_str [] p = (p = [])"
| "contains_str (c # s) p = (has_prefix p (c # s) \<or> contains_str s p)"

fun split_on :: "char \<Rightarrow> string \<Rightarrow> string list" where
  "split_on c [] = [[]]"
| "split_on c (x # s) =
     (if x = c then [] # split_on c s
      else case split_on c s of [] \<Rightarrow> [[x]] | w # ws \<Rightarrow> (x # w) # ws)"

definition join_with :: "string \<Rightarrow> string list \<Rightarrow> string" where
  "join_with sep ws = (case ws of [] \<Rightarrow> [] | w # vs \<Rightarrow> w @ concat (map (\<lambda>v. sep @ v) vs))"

section \<open>Lemmas on Cut\<close>

lemma before_no_sep [simp]: "c \<notin> set s \<Longrightarrow> before c s = s"
  by (auto simp: before_def takeWhile_eq_all_conv)

lemma after_no_sep [simp]: "c \<notin> set s \<Longrightarrow> after c s = []"
  by (induction s) (auto simp: after_def)

lemma before_append [simp]: "c \<notin> set s \<Longrightarrow> before c (s @ c # r) = s"
  by (induction s) (auto simp: before_def)

lemma after_append [simp]: "c \<notin> set s \<Longrightarrow> after c (s @ c # r) = r"
  by (induction s) (auto simp: after_def)

lemma sep_notin_before [simp]: "c \<notin> set (before c s)"
  by (auto simp: before_def dest: set_takeWhileD)

lemma set_before: "set (before c s) \<subseteq> set s"
  by (auto simp: before_def dest: set_takeWhileD)

lemma set_after: "set (after c s) \<subseteq> set s"
proof -
  have "set (tl xs) \<subseteq> set xs" for xs :: string by (cases xs) auto
  then show ?thesis unfolding after_def using set_dropWhileD by fastforce
qed

lemma cut_eq: "c \<in> set s \<Longrightarrow> s = before c s @ c # after c s"
proof (induction s)
  case (Cons x s)
  then show ?case by (cases "x = c") (auto simp: before_def after_def)
qed simp

lemma before_pre: "c \<notin> set p \<Longrightarrow> before c (p @ r) = p @ before c r"
  by (induction p) (auto simp: before_def)

lemma after_pre: "c \<notin> set p \<Longrightarrow> after c (p @ r) = after c r"
  by (induction p) (auto simp: after_def)

lemma before_stop: "c \<in> set p \<Longrightarrow> before c (p @ r) = before c p"
  by (induction p) (auto simp: before_def)

lemma before_last_append [simp]: "c \<notin> set r \<Longrightarrow> before_last c (s @ c # r) = s"
  by (simp add: before_last_def)

lemma after_last_append [simp]: "c \<notin> set r \<Longrightarrow> after_last c (s @ c # r) = r"
  by (simp add: after_last_def)

lemma cut_last_eq:
  assumes "c \<in> set s"
  shows "s = before_last c s @ c # after_last c s"
proof -
  have "rev s = before c (rev s) @ c # after c (rev s)" using assms by (intro cut_eq) simp
  then have "rev (rev s) = rev (before c (rev s) @ c # after c (rev s))" by (rule arg_cong)
  then show ?thesis by (simp add: before_last_def after_last_def)
qed

lemma sep_notin_after_last [simp]: "c \<notin> set (after_last c s)"
  using sep_notin_before [of c "rev s"] by (simp add: after_last_def)

lemma has_prefix_iff: "has_prefix p s \<longleftrightarrow> (\<exists>r. s = p @ r)"
  by (auto simp: has_prefix_def) (metis append_take_drop_id)

lemma has_prefix_append [simp]: "has_prefix p (p @ r)"
  by (simp add: has_prefix_def)

lemma last_neq: "c \<notin> set p \<Longrightarrow> p \<noteq> [] \<Longrightarrow> last p \<noteq> c"
  using last_in_set [of p] by blast

lemma has_suffix_single: "has_suffix [c] s \<longleftrightarrow> s \<noteq> [] \<and> last s = c"
  by (cases s rule: rev_cases) (auto simp: has_suffix_def has_prefix_def)

lemma contains_single [simp]: "contains_str s [c] \<longleftrightarrow> c \<in> set s"
  by (induction s) (auto simp: has_prefix_def)

section \<open>Error values\<close>

text \<open>
  A package-level sentinel is identified by its name; \<open>fmt.Errorf\<close> with \<open>%w\<close> and
  \<open>errors.Join\<close> give an error that wraps others. \<open>errors.Is\<close> searches the tree.
\<close>

datatype goerr = Sentinel string | Errorf string "goerr list"

fun errors_is :: "goerr \<Rightarrow> goerr \<Rightarrow> bool" where
  "errors_is (Sentinel s) t = (Sentinel s = t)"
| "errors_is (Errorf m ws) t = (Errorf m ws = t \<or> list_ex (\<lambda>w. errors_is w t) ws)"

definition errors_Join :: "goerr list \<Rightarrow> goerr" where
  "errors_Join es = Errorf ''join'' es"

definition context_Canceled :: goerr where "context_Canceled = Sentinel ''context.Canceled''"
definition context_DeadlineExceeded :: goerr where
  "context_DeadlineExceeded = Sentinel ''context.DeadlineExceeded''"

lemma errors_is_refl [simp]: "errors_is e e"
  by (cases e) simp_all

end
