(* ===== verification/NetIp.thy ===== *)
theory NetIp
  imports GoStrings
begin

text \<open>
  What the program uses of Go's package net/netip: addresses, their parser and the
  classification predicates. An IPv4 address is a \<^typ>\<open>32 word\<close>, an IPv6 address a
  \<^typ>\<open>128 word\<close> with its zone (the empty string for none), as in \<open>netip.Addr\<close>.
\<close>

section \<open>Addresses\<close>

datatype addr = V4 "32 word" | V6 "128 word" string

fun is4 :: "addr \<Rightarrow> bool" where
  "is4 (V4 w) = True"
| "is4 (V6 w z) = False"

text \<open>\<open>Addr.Unmap\<close>: an IPv4-mapped IPv6 address (and its zone) becomes IPv4.\<close>

fun unmap :: "addr \<Rightarrow> addr" where
  "unmap (V4 w) = V4 w"
| "unmap (V6 w z) = (if drop_bit 32 w = 0xffff then V4 (ucast w) else V6 w z)"

fun is_loopback :: "addr \<Rightarrow> bool" where
  "is_loopback (V4 w) = (drop_bit 24 w = 127)"
| "is_loopback (V6 w z) = (w = 1)"

fun is_private :: "addr \<Rightarrow> bool" where
  "is_private (V4 w) = (drop_bit 24 w = 10 \<or> drop_bit 20 w = 0xac1 \<or> drop_bit 16 w = 0xc0a8)"
| "is_private (V6 w z) = (drop_bit 121 w = 0x7e)"

fun is_link_local_unicast :: "addr \<Rightarrow> bool" where
  "is_link_local_unicast (V4 w) = (drop_bit 16 w = 0xa9fe)"
| "is_link_local_unicast (V6 w z) = (drop_bit 118 w = 0x3fa)"

fun is_link_local_multicast :: "addr \<Rightarrow> bool" where
  "is_link_local_multicast (V4 w) = (drop_bit 8 w = 0xe00000)"
| "is_link_local_multicast (V6 w z) = (drop_bit 120 w = 0xff \<and> take_bit 4 (drop_bit 112 w) = 2)"

fun is_multicast :: "addr \<Rightarrow> bool" where
  "is_multicast (V4 w) = (drop_bit 28 w = 0xe)"
| "is_multicast (V6 w z) = (drop_bit 120 w = 0xff)"

text \<open>
  \<open>Addr.IsUnspecified\<close> compares with the two zone-less constants, so an unspecified IPv6
  address with a zone is not unspecified.
\<close>

definition is_unspecified :: "addr \<Rightarrow> bool" where
  "is_unspecified ip \<longleftrightarrow> ip = V4 0 \<or> ip = V6 0 []"

text \<open>\<open>Prefix.Contains\<close> for an IPv4 prefix: never true of an IPv6 address.\<close>

datatype prefix4 = Prefix4 "32 word" nat

fun prefix_contains :: "prefix4 \<Rightarrow> addr \<Rightarrow> bool" where
  "prefix_contains (Prefix4 p bits) (V4 w) = (drop_bit (32 - bits) w = drop_bit (32 - bits) p)"
| "prefix_contains (Prefix4 p bits) (V6 w z) = False"

section \<open>Parsing\<close>

definition v4_of :: "int \<Rightarrow> int \<Rightarrow> int \<Rightarrow> int \<Rightarrow> 32 word" where
  "v4_of a b c d = word_of_int (((a * 256 + b) * 256 + c) * 256 + d)"

text \<open>
  One octet: \<open>val\<close> digit by digit, refusing a leading zero and a value over 255.
\<close>

fun octet_loop :: "int \<Rightarrow> nat \<Rightarrow> string \<Rightarrow> int option" where
  "octet_loop val digLen [] = (if digLen = 0 then None else Some val)"
| "octet_loop val digLen (c # s) =
     (if \<not> is_digit c then None
      else if digLen = 1 \<and> val = 0 then None
      else let val' = val * 10 + (byte_of c - 48)
           in if 255 < val' then None else octet_loop val' (digLen + 1) s)"

definition parse_octet :: "string \<Rightarrow> int option" where
  "parse_octet s = octet_loop 0 0 s"

text \<open>\<open>parseIPv4Fields\<close>: exactly four octets, each with at least one digit.\<close>

definition parse_ipv4_fields :: "string \<Rightarrow> (int \<times> int \<times> int \<times> int) option" where
  "parse_ipv4_fields s =
     (case map parse_octet (split_on CHR ''.'' s) of
        [Some a, Some b, Some c, Some d] \<Rightarrow> Some (a, b, c, d)
      | _ \<Rightarrow> None)"

definition parse_ipv4 :: "string \<Rightarrow> addr option" where
  "parse_ipv4 s = (case parse_ipv4_fields s of None \<Rightarrow> None | Some (a, b, c, d) \<Rightarrow> Some (V4 (v4_of a b c d)))"

definition hex_val :: "char \<Rightarrow> int option" where
  "hex_val c =
     (let n = byte_of c
      in if 48 \<le> n \<and> n \<le> 57 then Some (n - 48)
         else if 97 \<le> n \<and> n \<le> 102 then Some (n - 87)
         else if 65 \<le> n \<and> n \<le> 70 then Some (n - 55)
         else None)"

text \<open>The hex digits at the front, their value, and the rest; more than four is an error.\<close>

definition hex_group :: "string \<Rightarrow> (nat \<times> int \<times> string) option" where
  "hex_group s =
     (let ds = takeWhile (\<lambda>c. hex_val c \<noteq> None) s
      in if 4 < length ds then None
         else Some (length ds, foldl (\<lambda>acc c. acc * 16 + the (hex_val c)) 0 ds, drop (length ds) s))"

text \<open>
  The loop of \<open>parseIPv6\<close> over the 16 bytes: \<open>ip\<close> holds the 16-bit groups read so
  far, \<open>ell\<close> the position (in groups) of the ellipsis. The result is the final groups,
  ellipsis and the unread rest.
\<close>

function ipv6_loop :: "int list \<Rightarrow> nat option \<Rightarrow> string \<Rightarrow> (int list \<times> nat option \<times> string) option" where
  "ipv6_loop ip ell s =
     (if 8 \<le> length ip then Some (ip, ell, s)
      else case hex_group s of None \<Rightarrow> None
      | Some (off, acc, r) \<Rightarrow>
          if off = 0 then None
          else (case r of
              [] \<Rightarrow> Some (ip @ [acc], ell, [])
            | c # r1 \<Rightarrow>
                if c = CHR ''.'' then
                  if ell = None \<and> length ip \<noteq> 6 then None
                  else if 8 < length ip + 2 then None
                  else (case parse_ipv4_fields s of None \<Rightarrow> None
                        | Some (a, b, d, e) \<Rightarrow> Some (ip @ [a * 256 + b, d * 256 + e], ell, []))
                else if c \<noteq> CHR '':'' \<or> r1 = [] then None
                else if hd r1 = CHR '':'' then
                  if ell \<noteq> None then None
                  else if tl r1 = [] then Some (ip @ [acc], Some (length ip + 1), [])
                  else ipv6_loop (ip @ [acc]) (Some (length ip + 1)) (tl r1)
                else ipv6_loop (ip @ [acc]) ell r1))"
  by pat_completeness auto
termination
  by (relation "measure (\<lambda>(ip, ell, s). 8 - length ip)") auto

declare ipv6_loop.simps [simp del]

definition v6_of :: "int list \<Rightarrow> 128 word" where
  "v6_of gs = word_of_int (foldl (\<lambda>acc g. acc * 65536 + g) 0 gs)"

definition ipv6_finish :: "string \<Rightarrow> int list \<times> nat option \<times> string \<Rightarrow> addr option" where
  "ipv6_finish zone = (\<lambda>(ip, ell, s).
     if s \<noteq> [] then None
     else if length ip < 8 then
       (case ell of None \<Rightarrow> None
        | Some e \<Rightarrow> Some (V6 (v6_of (take e ip @ replicate (8 - length ip) 0 @ drop e ip)) zone))
     else if ell \<noteq> None then None
     else Some (V6 (v6_of ip) zone))"

definition parse_ipv6 :: "string \<Rightarrow> addr option" where
  "parse_ipv6 str =
     (let s = before CHR ''%'' str; zone = after CHR ''%'' str
      in if CHR ''%'' \<in> set str \<and> zone = [] then None
         else if has_prefix ''::'' s then
           (if drop 2 s = [] then Some (V6 0 zone)
            else Option.bind (ipv6_loop [] (Some 0) (drop 2 s)) (ipv6_finish zone))
         else Option.bind (ipv6_loop [] None s) (ipv6_finish zone))"

text \<open>\<open>ParseAddr\<close> decides by the first of a dot, a colon and a percent sign.\<close>

fun parse_addr_scan :: "string \<Rightarrow> string \<Rightarrow> addr option" where
  "parse_addr_scan str [] = None"
| "parse_addr_scan str (c # s) =
     (if c = CHR ''.'' then parse_ipv4 str
      else if c = CHR '':'' then parse_ipv6 str
      else if c = CHR ''%'' then None
      else parse_addr_scan str s)"

definition ParseAddr :: "string \<Rightarrow> addr option" where
  "ParseAddr s = parse_addr_scan s s"

text \<open>\<open>strconv.ParseUint(s, 10, 16)\<close>: a non-empty run of digits with a value below 65536.\<close>

definition digits_val :: "string \<Rightarrow> int" where
  "digits_val s = foldl (\<lambda>acc c. acc * 10 + (byte_of c - 48)) 0 s"

definition parse_uint16 :: "string \<Rightarrow> int option" where
  "parse_uint16 s = (if s \<noteq> [] \<and> list_all is_digit s \<and> digits_val s < 65536 then Some (digits_val s) else None)"

text \<open>
  \<open>netip.ParseAddrPort\<close>: split at the last colon; brackets exactly around IPv6.
\<close>

definition ParseAddrPort :: "string \<Rightarrow> (addr \<times> int) option" where
  "ParseAddrPort s =
     (if CHR '':'' \<notin> set s then None
      else let ip = before_last CHR '':'' s; port = after_last CHR '':'' s
           in if ip = [] \<or> port = [] then None
              else if hd ip = CHR ''['' then
                (if length ip < 2 \<or> last ip \<noteq> CHR '']'' then None
                 else case (parse_uint16 port, ParseAddr (butlast (tl ip))) of
                     (Some p, Some (V6 w z)) \<Rightarrow> Some (V6 w z, p)
                   | _ \<Rightarrow> None)
              else case (parse_uint16 port, ParseAddr ip) of
                  (Some p, Some (V4 w)) \<Rightarrow> Some (V4 w, p)
                | _ \<Rightarrow> None)"

end
