(* ===== verification/NetUrl.thy ===== *)
theory NetUrl
  imports NetIp
begin

text \<open>
  What the program uses of Go's package net/url: \<open>Parse\<close>, \<open>URL.String\<close>,
  \<open>URL.Redacted\<close>, \<open>URL.Hostname\<close> and \<open>URL.Port\<close>, with the escaping rules of
  its path, host, zone, user and fragment modes. Bytes are percent-decoded and -encoded one at
  a time as in the package. Host syntax follows the Go release of go.mod: only an IPv6 literal
  may stand in brackets, and a host outside brackets has at most one colon.
\<close>

section \<open>URLs\<close>

record url =
  Scheme :: string
  Opaque :: string
  User :: "(string \<times> string option) option"
  Host :: string
  Path :: string
  RawPath :: string
  OmitHost :: bool
  ForceQuery :: bool
  RawQuery :: string
  Fragment :: string
  RawFragment :: string

definition empty_url :: url where
  "empty_url = \<lparr>Scheme = [], Opaque = [], User = None, Host = [], Path = [], RawPath = [],
     OmitHost = False, ForceQuery = False, RawQuery = [], Fragment = [], RawFragment = []\<rparr>"

section \<open>Escaping\<close>

datatype enc_mode = EncPath | EncHost | EncZone | EncUserPassword | EncFragment

definition in_str :: "char \<Rightarrow> string \<Rightarrow> bool" where "in_str c s \<longleftrightarrow> c \<in> set s"

definition is_alnum :: "char \<Rightarrow> bool" where "is_alnum c \<longleftrightarrow> is_alpha c \<or> is_digit c"

text \<open>The characters each mode leaves unescaped, beside letters, digits and \<open>-_.~\<close>.\<close>

fun mode_plain :: "enc_mode \<Rightarrow> string" where
  "mode_plain EncPath = ''$&+,/:;=@''"
| "mode_plain EncHost = ''$&+,:;=!'' @ [CHR 0x27] @ ''()*[]<>'' @ [CHR 0x22]"
| "mode_plain EncZone = ''$&+,:;=!'' @ [CHR 0x27] @ ''()*[]<>'' @ [CHR 0x22]"
| "mode_plain EncUserPassword = ''$&+,;=''"
| "mode_plain EncFragment = ''$&+,/:;=?@!()*''"

definition shouldEscape :: "char \<Rightarrow> enc_mode \<Rightarrow> bool" where
  "shouldEscape c m \<longleftrightarrow> \<not> (is_alnum c \<or> in_str c ''-_.~'' \<or> in_str c (mode_plain m))"

definition upper_hex :: "int \<Rightarrow> char" where
  "upper_hex n = char_of (if n < 10 then 48 + n else 55 + n)"

fun escape :: "enc_mode \<Rightarrow> string \<Rightarrow> string" where
  "escape m [] = []"
| "escape m (c # s) =
     (if shouldEscape c m
      then CHR ''%'' # upper_hex (byte_of c div 16) # upper_hex (byte_of c mod 16) # escape m s
      else c # escape m s)"

definition is_hex :: "char \<Rightarrow> bool" where "is_hex c \<longleftrightarrow> hex_val c \<noteq> None"

text \<open>What \<open>unescape\<close> refuses in an escape sequence, by mode.\<close>

definition bad_escape :: "enc_mode \<Rightarrow> char \<Rightarrow> char \<Rightarrow> bool" where
  "bad_escape m a b \<longleftrightarrow>
     (let v = the (hex_val a) * 16 + the (hex_val b); pct = (a = CHR ''2'' \<and> b = CHR ''5'')
      in m = EncHost \<and> the (hex_val a) < 8 \<and> \<not> pct \<or>
         m = EncZone \<and> \<not> pct \<and> v \<noteq> 32 \<and> shouldEscape (char_of v) EncHost)"

fun unescape :: "enc_mode \<Rightarrow> string \<Rightarrow> string option" where
  "unescape m [] = Some []"
| "unescape m (c # s) =
     (if c = CHR ''%'' then
        (case s of
           a # b # r \<Rightarrow>
             if is_hex a \<and> is_hex b \<and> \<not> bad_escape m a b
             then map_option (Cons (char_of (the (hex_val a) * 16 + the (hex_val b)))) (unescape m r)
             else None
         | _ \<Rightarrow> None)
      else if (m = EncHost \<or> m = EncZone) \<and> byte_of c < 128 \<and> shouldEscape c m then None
      else map_option (Cons c) (unescape m s))"

section \<open>Authority\<close>

definition validOptionalPort :: "string \<Rightarrow> bool" where
  "validOptionalPort p = (case p of [] \<Rightarrow> True | c # ds \<Rightarrow> c = CHR '':'' \<and> list_all is_digit ds)"

definition validUserinfo :: "string \<Rightarrow> bool" where
  "validUserinfo s =
     list_all (\<lambda>c. is_alnum c \<or> in_str c (''-._:~!$&'' @ [CHR 0x27] @ ''()*+,;=%@'')) s"

text \<open>The zone of a bracketed literal starts at the first \<open>%25\<close>.\<close>

fun split_zone :: "string \<Rightarrow> string \<times> string" where
  "split_zone [] = ([], [])"
| "split_zone (c # s) =
     (if has_prefix ''%25'' (c # s) then ([], c # s)
      else let (h, z) = split_zone s in (c # h, z))"

definition parse_bracketed :: "string \<Rightarrow> string \<Rightarrow> string option" where
  "parse_bracketed inner colonPort =
     (if \<not> validOptionalPort colonPort then None
      else let (h, z) = split_zone inner
           in case (unescape EncHost h, unescape EncZone z, unescape EncHost colonPort) of
                (Some h', Some z', Some p') \<Rightarrow>
                  (case ParseAddr (h' @ z') of
                     Some (V6 w zone) \<Rightarrow> Some (CHR ''['' # h' @ z' @ CHR '']'' # p')
                   | _ \<Rightarrow> None)
              | _ \<Rightarrow> None)"

definition parseHost :: "string \<Rightarrow> string option" where
  "parseHost host =
     (if CHR ''['' \<in> set host then
        (if hd host \<noteq> CHR ''['' \<or> CHR ''['' \<in> set (tl host) \<or> CHR '']'' \<notin> set host then None
         else parse_bracketed (tl (before_last CHR '']'' host)) (after_last CHR '']'' host))
      else if CHR '':'' \<in> set host then
        (if CHR '':'' \<in> set (before_last CHR '':'' host) \<or>
            \<not> validOptionalPort (CHR '':'' # after_last CHR '':'' host) then None
         else unescape EncHost host)
      else unescape EncHost host)"

definition parse_userinfo :: "string \<Rightarrow> (string \<times> string option) option" where
  "parse_userinfo ui =
     (if \<not> validUserinfo ui then None
      else if CHR '':'' \<notin> set ui then map_option (\<lambda>u. (u, None)) (unescape EncUserPassword ui)
      else case (unescape EncUserPassword (before CHR '':'' ui),
                 unescape EncUserPassword (after CHR '':'' ui)) of
             (Some u, Some p) \<Rightarrow> Some (u, Some p)
           | _ \<Rightarrow> None)"

text \<open>\<open>parseAuthority\<close>: everything before the last \<open>@\<close> is userinfo.\<close>

definition parseAuthority :: "string \<Rightarrow> ((string \<times> string option) option \<times> string) option" where
  "parseAuthority a =
     (if CHR ''@'' \<notin> set a then map_option (\<lambda>h. (None, h)) (parseHost a)
      else case parseHost (after_last CHR ''@'' a) of
             None \<Rightarrow> None
           | Some h \<Rightarrow> map_option (\<lambda>u. (Some u, h)) (parse_userinfo (before_last CHR ''@'' a)))"

section \<open>Parse\<close>

text \<open>
  \<open>getScheme\<close>: None for an error, otherwise the scheme (empty when there is none) and the
  rest. \<open>acc\<close> holds the bytes read so far.
\<close>

fun getScheme_loop :: "string \<Rightarrow> string \<Rightarrow> string \<Rightarrow> (string \<times> string) option" where
  "getScheme_loop raw acc [] = Some ([], raw)"
| "getScheme_loop raw acc (c # s) =
     (if is_alpha c then getScheme_loop raw (acc @ [c]) s
      else if is_digit c \<or> in_str c ''+-.'' then
        (if acc = [] then Some ([], raw) else getScheme_loop raw (acc @ [c]) s)
      else if c = CHR '':'' then (if acc = [] then None else Some (acc, s))
      else Some ([], raw))"

definition getScheme :: "string \<Rightarrow> (string \<times> string) option" where
  "getScheme raw = getScheme_loop raw [] raw"

definition has_ctl :: "string \<Rightarrow> bool" where
  "has_ctl s \<longleftrightarrow> list_ex (\<lambda>c. byte_of c < 32 \<or> byte_of c = 127) s"

definition setPath :: "url \<Rightarrow> string \<Rightarrow> url option" where
  "setPath u p =
     (case unescape EncPath p of None \<Rightarrow> None
      | Some path \<Rightarrow> Some (u\<lparr>Path := path, RawPath := (if p = escape EncPath path then [] else p)\<rparr>))"

text \<open>The query is cut off first; a lone trailing question mark sets ForceQuery.\<close>

definition split_query :: "url \<Rightarrow> string \<Rightarrow> url \<times> string" where
  "split_query u rest =
     (if has_suffix ''?'' rest \<and> count_list rest CHR ''?'' = 1
      then (u\<lparr>ForceQuery := True\<rparr>, butlast rest)
      else (u\<lparr>RawQuery := after CHR ''?'' rest\<rparr>, before CHR ''?'' rest))"

text \<open>The authority, when the rest starts with two slashes, and then the path.\<close>

definition parse_hier :: "url \<Rightarrow> string \<Rightarrow> url option" where
  "parse_hier u rest =
     (if (Scheme u \<noteq> [] \<or> \<not> has_prefix ''///'' rest) \<and> has_prefix ''//'' rest then
        (let auth = before CHR ''/'' (drop 2 rest); path = drop (length auth) (drop 2 rest)
         in case parseAuthority auth of None \<Rightarrow> None
            | Some (user, host) \<Rightarrow> setPath (u\<lparr>User := user, Host := host\<rparr>) path)
      else if Scheme u \<noteq> [] \<and> has_prefix ''/'' rest then setPath (u\<lparr>OmitHost := True\<rparr>) rest
      else setPath u rest)"

definition parse_nofrag :: "string \<Rightarrow> url option" where
  "parse_nofrag raw =
     (if has_ctl raw then None
      else if raw = ''*'' then Some (empty_url\<lparr>Path := ''*''\<rparr>)
      else case getScheme raw of None \<Rightarrow> None
        | Some (scheme, rest0) \<Rightarrow>
            let (u, rest) = split_query (empty_url\<lparr>Scheme := to_lower scheme\<rparr>) rest0
            in if \<not> has_prefix ''/'' rest \<and> Scheme u \<noteq> [] then Some (u\<lparr>Opaque := rest\<rparr>)
               else if \<not> has_prefix ''/'' rest \<and> CHR '':'' \<in> set (before CHR ''/'' rest) then None
               else parse_hier u rest)"

definition setFragment :: "url \<Rightarrow> string \<Rightarrow> url option" where
  "setFragment u f =
     (case unescape EncFragment f of None \<Rightarrow> None
      | Some frag \<Rightarrow>
          Some (u\<lparr>Fragment := frag, RawFragment := (if f = escape EncFragment frag then [] else f)\<rparr>))"

definition url_Parse :: "string \<Rightarrow> url option" where
  "url_Parse raw =
     (case parse_nofrag (before CHR ''#'' raw) of None \<Rightarrow> None
      | Some u \<Rightarrow> if after CHR ''#'' raw = [] then Some u else setFragment u (after CHR ''#'' raw))"

section \<open>String, Redacted, Hostname, Port\<close>

definition validEncoded :: "enc_mode \<Rightarrow> string \<Rightarrow> bool" where
  "validEncoded m s =
     list_all (\<lambda>c. in_str c (''!$&'' @ [CHR 0x27] @ ''()*+,;=:@[]%'') \<or> \<not> shouldEscape c m) s"

definition EscapedPath :: "url \<Rightarrow> string" where
  "EscapedPath u =
     (if RawPath u \<noteq> [] \<and> validEncoded EncPath (RawPath u) \<and> unescape EncPath (RawPath u) = Some (Path u)
      then RawPath u
      else if Path u = ''*'' then ''*'' else escape EncPath (Path u))"

definition EscapedFragment :: "url \<Rightarrow> string" where
  "EscapedFragment u =
     (if RawFragment u \<noteq> [] \<and> validEncoded EncFragment (RawFragment u) \<and>
         unescape EncFragment (RawFragment u) = Some (Fragment u)
      then RawFragment u else escape EncFragment (Fragment u))"

definition userinfo_String :: "string \<times> string option \<Rightarrow> string" where
  "userinfo_String ui =
     escape EncUserPassword (fst ui) @
     (case snd ui of None \<Rightarrow> [] | Some p \<Rightarrow> '':'' @ escape EncUserPassword p)"

definition url_authority :: "url \<Rightarrow> string" where
  "url_authority u =
     (if Scheme u = [] \<and> Host u = [] \<and> User u = None then []
      else if OmitHost u \<and> Host u = [] \<and> User u = None then []
      else (if Host u \<noteq> [] \<or> Path u \<noteq> [] \<or> User u \<noteq> None then ''//'' else []) @
           (case User u of None \<Rightarrow> [] | Some ui \<Rightarrow> userinfo_String ui @ ''@'') @
           escape EncHost (Host u))"

definition url_String :: "url \<Rightarrow> string" where
  "url_String u =
     (let scheme = (if Scheme u \<noteq> [] then Scheme u @ '':'' else []);
          body =
            (if Opaque u \<noteq> [] then Opaque u
             else let auth = url_authority u; path = EscapedPath u;
                      slash = (if path \<noteq> [] \<and> hd path \<noteq> CHR ''/'' \<and> Host u \<noteq> [] then ''/'' else []);
                      dot = (if scheme @ auth @ slash = [] \<and> CHR '':'' \<in> set (before CHR ''/'' path)
                             then ''./'' else [])
                  in auth @ slash @ dot @ path)
      in scheme @ body @
         (if ForceQuery u \<or> RawQuery u \<noteq> [] then ''?'' @ RawQuery u else []) @
         (if Fragment u \<noteq> [] then ''#'' @ EscapedFragment u else []))"

definition url_Redacted :: "url \<Rightarrow> string" where
  "url_Redacted u =
     (case User u of Some (name, Some pw) \<Rightarrow> url_String (u\<lparr>User := Some (name, Some ''xxxxx'')\<rparr>)
      | _ \<Rightarrow> url_String u)"

text \<open>\<open>splitHostPort\<close>: a valid port after the last colon, and the brackets, come off.\<close>

definition splitHostPort :: "string \<Rightarrow> string \<times> string" where
  "splitHostPort hp =
     (let colon = CHR '':'' \<in> set hp \<and> validOptionalPort (CHR '':'' # after_last CHR '':'' hp);
          host = (if colon then before_last CHR '':'' hp else hp);
          port = (if colon then after_last CHR '':'' hp else [])
      in (if has_prefix ''['' host \<and> has_suffix '']'' host then butlast (tl host) else host, port))"

definition Hostname :: "url \<Rightarrow> string" where "Hostname u = fst (splitHostPort (Host u))"
definition Port :: "url \<Rightarrow> string" where "Port u = snd (splitHostPort (Host u))"

section \<open>Facts about escaping\<close>

lemma byte_of_char_of: "0 \<le> n \<Longrightarrow> n < 256 \<Longrightarrow> byte_of (char_of n) = n"
  by (simp add: byte_of_def)

lemma byte_of_range: "0 \<le> byte_of c" "byte_of c < 256"
proof -
  have m: "of_char c mod 256 = (of_char c :: int)" by simp
  show "0 \<le> byte_of c" "byte_of c < 256"
    using pos_mod_sign [of 256 "of_char c"] pos_mod_bound [of 256 "of_char c"]
    unfolding byte_of_def m by simp_all
qed

lemmas char_class_defs = is_alnum_def is_alpha_def is_lower_def is_upper_def is_digit_def

lemma upper_hex_alnum: "0 \<le> n \<Longrightarrow> n < 16 \<Longrightarrow> is_alnum (upper_hex n)"
  by (auto simp: upper_hex_def char_class_defs byte_of_char_of)

lemma escape_notin:
  assumes "shouldEscape d m" "d \<noteq> CHR ''%''"
  shows "d \<notin> set (escape m s)"
proof (induction s)
  case (Cons c s)
  have "\<not> is_alnum d" using assms(1) by (simp add: shouldEscape_def)
  moreover have "is_alnum (upper_hex (byte_of c div 16))" "is_alnum (upper_hex (byte_of c mod 16))"
    using byte_of_range [of c] by (auto intro: upper_hex_alnum)
  ultimately show ?case using Cons assms by auto
qed simp

lemma should_escape_delims:
  "shouldEscape CHR ''?'' EncHost" "shouldEscape CHR ''#'' EncHost" "shouldEscape CHR ''@'' EncHost"
  "shouldEscape CHR ''/'' EncHost" "shouldEscape CHR ''?'' EncPath" "shouldEscape CHR ''#'' EncPath"
  by code_simp+

section \<open>Facts about Parse\<close>

definition scheme_char :: "char \<Rightarrow> bool" where
  "scheme_char c \<longleftrightarrow> is_alpha c \<or> is_digit c \<or> in_str c ''+-.''"

definition valid_scheme :: "string \<Rightarrow> bool" where
  "valid_scheme s \<longleftrightarrow> s \<noteq> [] \<and> is_alpha (hd s) \<and> list_all scheme_char s"

lemma colon_not_scheme: "\<not> scheme_char CHR '':''" by code_simp

lemma scheme_char_delims:
  "\<not> scheme_char CHR ''?''" "\<not> scheme_char CHR ''#''" "\<not> scheme_char CHR ''@''"
  "\<not> scheme_char CHR ''/''"
  by code_simp+

lemma getScheme_chars:
  "getScheme_loop raw acc s = Some (sch, r) \<Longrightarrow> list_all scheme_char acc \<Longrightarrow> list_all scheme_char sch"
  by (induction raw acc s rule: getScheme_loop.induct) (auto simp: scheme_char_def split: if_splits)

lemma getScheme_set: "getScheme_loop raw acc s = Some (sch, r) \<Longrightarrow> set s \<subseteq> set raw \<Longrightarrow> set r \<subseteq> set raw"
  by (induction raw acc s rule: getScheme_loop.induct) (auto split: if_splits)

lemma getScheme_loop_valid:
  "acc \<noteq> [] \<Longrightarrow> list_all scheme_char s \<Longrightarrow> getScheme_loop raw acc (s @ CHR '':'' # r) = Some (acc @ s, r)"
proof (induction s arbitrary: acc)
  case Nil
  then show ?case using colon_not_scheme by (auto simp: scheme_char_def)
next
  case (Cons c s)
  then show ?case by (auto simp: scheme_char_def)
qed

lemma getScheme_valid:
  assumes "valid_scheme s"
  shows "getScheme (s @ CHR '':'' # r) = Some (s, r)"
proof -
  obtain c s' where s: "s = c # s'" "is_alpha c" "list_all scheme_char s'"
    using assms by (cases s) (auto simp: valid_scheme_def)
  then show ?thesis using getScheme_loop_valid [of "[c]" s' "s @ CHR '':'' # r" r]
    by (simp add: getScheme_def)
qed

lemma lower_scheme_char: "scheme_char c \<Longrightarrow> scheme_char (lower_char c)"
  by (auto simp: lower_char_def scheme_char_def char_class_defs byte_of_char_of)

lemma to_lower_scheme: "list_all scheme_char s \<Longrightarrow> list_all scheme_char (to_lower s)"
  by (auto simp: to_lower_def list_all_iff lower_scheme_char)

text \<open>What the later stages of the parser leave alone.\<close>

lemma setPath_fields:
  assumes "setPath u p = Some v"
  shows "Scheme v = Scheme u" "Host v = Host u" "User v = User u" "Opaque v = Opaque u"
    "Fragment v = Fragment u" "RawQuery v = RawQuery u"
  using assms by (auto simp: setPath_def split: option.splits)

lemma parse_hier_fields:
  assumes "parse_hier u rest = Some v"
  shows "Scheme v = Scheme u" "Opaque v = Opaque u"
  using assms setPath_fields by (auto simp: parse_hier_def Let_def split: if_splits option.splits prod.splits)

lemma split_query_fields:
  "Scheme (fst (split_query u r)) = Scheme u" "Opaque (fst (split_query u r)) = Opaque u"
  "User (fst (split_query u r)) = User u"
  by (simp_all add: split_query_def)

lemma setFragment_fields:
  assumes "setFragment u f = Some v"
  shows "v = u\<lparr>Fragment := Fragment v, RawFragment := RawFragment v\<rparr>"
  using assms by (auto simp: setFragment_def split: option.splits)

end
