(* ===== verification/Check.thy ===== *)
theory Check
  imports GoTime NetUrl
begin

text \<open>
  check/check.go: the enums, \<open>Target\<close>, \<open>Observation\<close> and \<open>RedactURL\<close>. The two
  enums are string types in Go (a custom check can report any string), so they are strings
  here with the package's constants.
\<close>

section \<open>Enums\<close>

type_synonym status = string
definition StatusUp :: status where "StatusUp = ''up''"
definition StatusDown :: status where "StatusDown = ''down''"

type_synonym errorClass = string
definition ErrNone :: errorClass where "ErrNone = []"
definition ErrTimeout :: errorClass where "ErrTimeout = ''timeout''"
definition ErrConnectionRefused :: errorClass where "ErrConnectionRefused = ''connection_refused''"
definition ErrDNSFailure :: errorClass where "ErrDNSFailure = ''dns_failure''"
definition ErrTLSError :: errorClass where "ErrTLSError = ''tls_error''"
definition ErrSSRFBlockedClass :: errorClass where "ErrSSRFBlockedClass = ''ssrf_blocked''"
definition ErrHTTPError :: errorClass where "ErrHTTPError = ''http_error''"
definition ErrUnknown :: errorClass where "ErrUnknown = ''unknown''"

lemmas status_defs = StatusUp_def StatusDown_def
lemmas errorClass_defs = ErrNone_def ErrTimeout_def ErrConnectionRefused_def ErrDNSFailure_def
  ErrTLSError_def ErrSSRFBlockedClass_def ErrHTTPError_def ErrUnknown_def

section \<open>Target and Observation\<close>

text \<open>
  A \<open>map[string]string\<close> is a map; a Go value of type \<open>any\<close> is a string or an opaque
  value known by a number. A nil map reads as the empty map.
\<close>

datatype any = AnyString string | AnyOther nat

record target =
  URL :: string
  Labels :: "string \<rightharpoonup> string"
  Interval :: duration

record observation =
  Status :: status
  LatencyMs :: int
  ErrorClass :: errorClass
  StatusCode :: int
  FinalURL :: string
  TLSExpiry :: "time option"
  ObservedAt :: time
  ObsLabels :: "string \<rightharpoonup> string"
  Extra :: "string \<rightharpoonup> any"

section \<open>RedactURL\<close>

definition unparseable :: string where "unparseable = ''<unparseable>''"

definition RedactURL :: "string \<Rightarrow> string" where
  "RedactURL raw =
     (if raw = unparseable then raw
      else case url_Parse raw of None \<Rightarrow> unparseable
        | Some u \<Rightarrow>
            (case User u of
               Some (name, None) \<Rightarrow>
                 if name \<noteq> [] then url_Redacted (u\<lparr>User := Some (''xxxxx'', None)\<rparr>) else url_Redacted u
             | _ \<Rightarrow> url_Redacted u))"

text \<open>
  Redacting twice is not always redacting once: the zone of this IPv6 host is accepted raw, comes
  out escaped, and is refused on the way back in.
\<close>

lemma RedactURL_twice:
  "RedactURL (''http://[::%25'' @ [CHR 0xEF] @ '']/'') = ''http://[::%25%EF]/''"
  "RedactURL ''http://[::%25%EF]/'' = unparseable"
  by code_simp+

end
