(* ===== verification/Event.thy ===== *)
theory Event
  imports Check
begin

text \<open>
  event/event.go: \<open>NewEncoder\<close>, \<open>Encode\<close> and \<open>ToCloudEvent\<close>. The CloudEvents SDK
  (its events, setters, \<open>Validate\<close> and the JSON data codec) is third-party code: the record
  \<open>sdk\<close> holds the functions of it that the package calls, over an abstract type of SDK
  events and an abstract type of parsed source references. A fresh ULID is an argument. The
  formatting of the certificate expiry (package time) is written out.
\<close>

section \<open>time.Time.UTC().Format(time.RFC3339)\<close>

fun nat_digits :: "nat \<Rightarrow> nat \<Rightarrow> string" where
  "nat_digits 0 n = []"
| "nat_digits (Suc w) n = nat_digits w (n div 10) @ [char_of (48 + n mod 10)]"

fun width10 :: "nat \<Rightarrow> nat" where
  "width10 n = (if n < 10 then 1 else Suc (width10 (n div 10)))"

declare width10.simps [simp del]

text \<open>\<open>appendInt(b, x, width)\<close>: a minus sign, then at least \<open>width\<close> digits.\<close>

definition append_int :: "int \<Rightarrow> nat \<Rightarrow> string" where
  "append_int x w =
     (let n = nat \<bar>x\<bar> in (if x < 0 then ''-'' else []) @ nat_digits (max w (width10 n)) n)"

text \<open>The day of the year (from 0) at which each month of a year starts.\<close>

definition is_leap :: "int \<Rightarrow> bool" where
  "is_leap y \<longleftrightarrow> y mod 4 = 0 \<and> (y mod 100 \<noteq> 0 \<or> y mod 400 = 0)"

definition month_len :: "int \<Rightarrow> int list" where
  "month_len y = [31, if is_leap y then 29 else 28, 31, 30, 31, 30, 31, 31, 30, 31, 30, 31]"

fun month_loop :: "int list \<Rightarrow> int \<Rightarrow> int \<Rightarrow> int \<times> int" where
  "month_loop [] m d = (m, d)"
| "month_loop (l # ls) m d = (if d < l then (m, d) else month_loop ls (m + 1) (d - l))"

text \<open>Year, month and day of a day number counted from 1 January of year 1.\<close>

definition civil :: "int \<Rightarrow> int \<times> int \<times> int" where
  "civil days =
     (let n400 = days div 146097; d = days mod 146097;
          n100 = min 3 (d div 36524); d = d - 36524 * n100;
          n4 = d div 1461; d = d - 1461 * n4;
          n1 = min 3 (d div 365); d = d - 365 * n1;
          y = 400 * n400 + 100 * n100 + 4 * n4 + n1 + 1;
          (m, d) = month_loop (month_len y) 1 d
      in (y, m, d + 1))"

definition format_rfc3339_utc :: "time \<Rightarrow> string" where
  "format_rfc3339_utc t =
     (let sec = t div Second; (y, m, d) = civil (sec div 86400); s = sec mod 86400
      in append_int y 4 @ ''-'' @ append_int m 2 @ ''-'' @ append_int d 2 @ ''T'' @
         append_int (s div 3600) 2 @ '':'' @ append_int (s mod 3600 div 60) 2 @ '':'' @
         append_int (s mod 60) 2 @ ''Z'')"

section \<open>Data\<close>

definition DefaultType :: string where "DefaultType = ''dev.descry.observation.v1''"

record config =
  CfgSource :: string
  CfgType :: string

record payload =
  PStatus :: status
  PStatusCode :: int
  PLatencyMs :: int
  PErrorClass :: errorClass
  PFinalURL :: string
  PTLSExpiry :: "string option"
  PExtra :: "string \<rightharpoonup> any"

text \<open>
  The attributes of an \<open>EventContextV1\<close> that the package sets, and an \<open>Event\<close>; the
  zero Event has no context.
\<close>

record 'u context_v1 =
  CtxID :: string
  CtxSource :: 'u
  CtxType :: string
  CtxSubject :: "string option"
  CtxTime :: "time option"
  CtxDataContentType :: "string option"

record 'u event =
  Context :: "'u context_v1 option"
  DataEncoded :: string
  DataBase64 :: bool
  FieldErrors :: "string \<rightharpoonup> goerr"

definition zero_event :: "'u event" where
  "zero_event = \<lparr>Context = None, DataEncoded = [], DataBase64 = False, FieldErrors = Map.empty\<rparr>"

text \<open>
  The SDK. \<open>'p\<close> is a CloudEvents event under construction (its setters record field errors
  inside it, which \<open>Validate\<close> reports), \<open>'u\<close> a parsed source.
\<close>

record ('p, 'u) sdk =
  sdk_NewEvent :: 'p
  sdk_SetID :: "string \<Rightarrow> 'p \<Rightarrow> 'p"
  sdk_SetSource :: "string \<Rightarrow> 'p \<Rightarrow> 'p"
  sdk_SetType :: "string \<Rightarrow> 'p \<Rightarrow> 'p"
  sdk_SetDataContentType :: "string \<Rightarrow> 'p \<Rightarrow> 'p"
  sdk_Validate :: "'p \<Rightarrow> goerr option"
  sdk_AsV1 :: "'p \<Rightarrow> 'u context_v1"
  sdk_Encode :: "string \<Rightarrow> payload \<Rightarrow> goerr + string"
  sdk_CtxSetSubject :: "string \<Rightarrow> 'u context_v1 \<Rightarrow> 'u context_v1"
  sdk_CtxSetTime :: "time \<Rightarrow> 'u context_v1 \<Rightarrow> 'u context_v1"
  sdk_CtxSetDataContentType :: "string \<Rightarrow> 'u context_v1 \<Rightarrow> 'u context_v1"

definition ApplicationJSON :: string where "ApplicationJSON = ''application/json''"

record 'u encoder =
  enc_source :: 'u
  enc_typ :: string
  enc_ok :: bool

section \<open>Operations\<close>

definition errNotInitialised :: goerr where
  "errNotInitialised = Sentinel ''event: Encoder not initialised; use NewEncoder''"

definition invalid_cloudevent :: "goerr \<Rightarrow> goerr" where
  "invalid_cloudevent err = Errorf ''invalid cloudevent: %w'' [err]"

definition set_data :: "goerr \<Rightarrow> goerr" where
  "set_data err = Errorf ''set data: %w'' [err]"

definition probe_event :: "('p, 'u) sdk \<Rightarrow> config \<Rightarrow> 'p" where
  "probe_event k cfg =
     (let cfg = (if CfgType cfg = [] then cfg\<lparr>CfgType := DefaultType\<rparr> else cfg);
          probe = sdk_NewEvent k;
          probe = sdk_SetID k ''probe'' probe;
          probe = sdk_SetSource k (CfgSource cfg) probe;
          probe = sdk_SetType k (CfgType cfg) probe
      in sdk_SetDataContentType k ApplicationJSON probe)"

definition NewEncoder :: "('p, 'u) sdk \<Rightarrow> config \<Rightarrow> goerr + 'u encoder" where
  "NewEncoder k cfg =
     (let probe = probe_event k cfg
      in case sdk_Validate k probe of
           Some err \<Rightarrow> Inl (invalid_cloudevent err)
         | None \<Rightarrow>
             (let ec = sdk_AsV1 k probe
              in Inr \<lparr>enc_source = CtxSource ec, enc_typ = CtxType ec, enc_ok = True\<rparr>))"

definition payload_of :: "observation \<Rightarrow> payload" where
  "payload_of obs =
     \<lparr>PStatus = Status obs, PStatusCode = StatusCode obs, PLatencyMs = LatencyMs obs,
      PErrorClass = ErrorClass obs, PFinalURL = FinalURL obs,
      PTLSExpiry = map_option format_rfc3339_utc (TLSExpiry obs), PExtra = Extra obs\<rparr>"

definition label_url :: "observation \<Rightarrow> string" where
  "label_url obs = (case ObsLabels obs ''url'' of Some v \<Rightarrow> v | None \<Rightarrow> [])"

text \<open>
  \<open>Encode\<close> on a possibly nil Encoder; \<open>uid\<close> is what \<open>ulid.Make().String()\<close> gives.
\<close>

definition Encode ::
    "('p, 'u) sdk \<Rightarrow> string \<Rightarrow> 'u encoder option \<Rightarrow> observation \<Rightarrow> 'u event \<times> goerr option" where
  "Encode k uid enc obs =
     (case enc of None \<Rightarrow> (zero_event, Some errNotInitialised)
      | Some enc \<Rightarrow>
          if \<not> enc_ok enc then (zero_event, Some errNotInitialised)
          else case sdk_Encode k ApplicationJSON (payload_of obs) of
                 Inl err \<Rightarrow> (zero_event, Some (set_data err))
               | Inr data \<Rightarrow>
                   (let ec = \<lparr>CtxID = uid, CtxSource = enc_source enc, CtxType = enc_typ enc,
                              CtxSubject = None, CtxTime = None, CtxDataContentType = None\<rparr>;
                        ec = sdk_CtxSetSubject k (label_url obs) ec;
                        ec = sdk_CtxSetTime k (ObservedAt obs) ec;
                        ec = sdk_CtxSetDataContentType k ApplicationJSON ec
                    in (\<lparr>Context = Some ec, DataEncoded = data, DataBase64 = False, FieldErrors = Map.empty\<rparr>, None)))"

definition ToCloudEvent ::
    "('p, 'u) sdk \<Rightarrow> string \<Rightarrow> observation \<Rightarrow> config \<Rightarrow> 'u event \<times> goerr option" where
  "ToCloudEvent k uid obs cfg =
     (case NewEncoder k cfg of
        Inl err \<Rightarrow> (zero_event, Some err)
      | Inr enc \<Rightarrow> Encode k uid (Some enc) obs)"

lemmas encode_defs = Encode_def NewEncoder_def ToCloudEvent_def Let_def

section \<open>Branches\<close>

lemma Encode_uninitialised:
  "Encode k uid None obs = (zero_event, Some errNotInitialised)"
  "\<not> enc_ok enc \<Longrightarrow> Encode k uid (Some enc) obs = (zero_event, Some errNotInitialised)"
  by (simp_all add: Encode_def)

lemma Encode_error_zero: "snd (Encode k uid enc obs) = Some err \<Longrightarrow> fst (Encode k uid enc obs) = zero_event"
  by (auto simp: encode_defs split: option.splits sum.splits if_splits)

section \<open>What the SDK documents\<close>

text \<open>
  The functions of the standard library that the SDK's attributes go through, and its error
  values: trimming of white space, parsing and printing a source reference, the error of a content
  type that is no media type, the error of an attribute, and the \<open>ValidationError\<close> made of
  the errors of the attributes.
\<close>

record 'u attributes =
  at_trim :: "string \<Rightarrow> string"
  at_parse :: "string \<Rightarrow> goerr + 'u"
  at_show :: "'u \<Rightarrow> string"
  at_media :: "string \<Rightarrow> goerr option"
  at_msg :: "string \<Rightarrow> goerr"
  at_errors :: "(string \<rightharpoonup> goerr) \<Rightarrow> goerr"

text \<open>The setters of an \<open>Event\<close> that only the reference implementation calls.\<close>

record 'p event_setters =
  ev_SetSubject :: "string \<Rightarrow> 'p \<Rightarrow> 'p"
  ev_SetTime :: "time \<Rightarrow> 'p \<Rightarrow> 'p"
  ev_SetData :: "string \<Rightarrow> payload \<Rightarrow> 'p \<Rightarrow> 'p \<times> goerr option"

text \<open>
  \<open>EventContextV1\<close>: its setters store the trimmed subject and content type, and nil for a
  blank one or a zero time; its \<open>Validate\<close> wants an id, a source and a type that are not
  blank, and of the optional attributes a content type that is a media type and a subject that is
  not blank.
\<close>

definition blank_nil :: "'u attributes \<Rightarrow> string \<Rightarrow> string option" where
  "blank_nil a s = (if at_trim a s = [] then None else Some (at_trim a s))"

definition context_setters :: "'u attributes \<Rightarrow> ('p, 'u) sdk \<Rightarrow> bool" where
  "context_setters a k \<longleftrightarrow>
     (\<forall>s ec. sdk_CtxSetSubject k s ec = ec\<lparr>CtxSubject := blank_nil a s\<rparr>) \<and>
     (\<forall>t ec. sdk_CtxSetTime k t ec = ec\<lparr>CtxTime := if time_is_zero t then None else Some t\<rparr>) \<and>
     (\<forall>s ec. sdk_CtxSetDataContentType k s ec = ec\<lparr>CtxDataContentType := blank_nil a s\<rparr>)"

definition required :: "'u attributes \<Rightarrow> string \<Rightarrow> string \<Rightarrow> goerr option" where
  "required a f v = (if at_trim a v = [] then Some (at_msg a f) else None)"

definition context_errors :: "'u attributes \<Rightarrow> 'u context_v1 \<Rightarrow> string \<rightharpoonup> goerr" where
  "context_errors a ec f =
     (if f = ''id'' then required a f (CtxID ec)
      else if f = ''source'' then required a f (at_show a (CtxSource ec))
      else if f = ''type'' then required a f (CtxType ec)
      else if f = ''subject'' then Option.bind (CtxSubject ec) (required a f)
      else if f = ''datacontenttype''
      then Option.bind (CtxDataContentType ec) (\<lambda>c.
             if at_trim a c = [] then Some (at_msg a f) else at_media a (at_trim a c))
      else None)"

text \<open>\<open>Event.Validate\<close> reports the recorded field errors and those of the context.\<close>

definition event_errors :: "'u attributes \<Rightarrow> 'u event \<Rightarrow> string \<rightharpoonup> goerr" where
  "event_errors a e = FieldErrors e ++
     (case Context e of None \<Rightarrow> [''specversion'' \<mapsto> at_msg a ''specversion''] | Some ec \<Rightarrow> context_errors a ec)"

text \<open>
  A setter of an Event stores the attribute and clears its field error, or records the error.
\<close>

definition stored :: "string \<Rightarrow> ('u context_v1 \<Rightarrow> 'u context_v1) \<Rightarrow> 'u event \<Rightarrow> 'u event" where
  "stored f upd e = e\<lparr>Context := map_option upd (Context e), FieldErrors := (FieldErrors e)(f := None)\<rparr>"

definition refused :: "string \<Rightarrow> goerr \<Rightarrow> 'u event \<Rightarrow> 'u event" where
  "refused f err e = e\<lparr>FieldErrors := (FieldErrors e)(f \<mapsto> err)\<rparr>"

text \<open>Setters of the probe event; \<open>view p\<close> is the \<open>Event\<close> struct that \<open>p\<close> stands for.\<close>

definition event_setter_laws :: "'u attributes \<Rightarrow> ('p \<Rightarrow> 'u event) \<Rightarrow> ('p, 'u) sdk \<Rightarrow> bool" where
  "event_setter_laws a view k \<longleftrightarrow>
     (\<exists>u. view (sdk_NewEvent k) = \<lparr>Context = Some \<lparr>CtxID = [], CtxSource = u, CtxType = [], CtxSubject = None,
        CtxTime = None, CtxDataContentType = None\<rparr>, DataEncoded = [], DataBase64 = False, FieldErrors = Map.empty\<rparr>) \<and>
     (\<forall>s p. view (sdk_SetID k s p) =
        (if at_trim a s = [] then refused ''id'' (at_msg a ''id'') (view p)
         else stored ''id'' (CtxID_update (\<lambda>_. at_trim a s)) (view p))) \<and>
     (\<forall>s p. view (sdk_SetSource k s p) =
        (case at_parse a s of Inl err \<Rightarrow> refused ''source'' err (view p)
         | Inr u \<Rightarrow> stored ''source'' (CtxSource_update (\<lambda>_. u)) (view p))) \<and>
     (\<forall>s p. view (sdk_SetType k s p) = stored ''type'' (CtxType_update (\<lambda>_. at_trim a s)) (view p)) \<and>
     (\<forall>s p. view (sdk_SetDataContentType k s p) =
        stored ''datacontenttype'' (CtxDataContentType_update (\<lambda>_. blank_nil a s)) (view p)) \<and>
     (\<forall>p. sdk_Validate k p =
        (if event_errors a (view p) = Map.empty then None else Some (at_errors a (event_errors a (view p))))) \<and>
     (\<forall>p ec. Context (view p) = Some ec \<longrightarrow> sdk_AsV1 k p = ec)"

text \<open>The other setters; \<open>SetData\<close> sets the content type and runs the same codec.\<close>

definition reference_laws :: "'u attributes \<Rightarrow> ('p \<Rightarrow> 'u event) \<Rightarrow> ('p, 'u) sdk \<Rightarrow> 'p event_setters \<Rightarrow> bool" where
  "reference_laws a view k l \<longleftrightarrow>
     (\<forall>s p. view (ev_SetSubject l s p) = stored ''subject'' (CtxSubject_update (\<lambda>_. blank_nil a s)) (view p)) \<and>
     (\<forall>t p. view (ev_SetTime l t p) =
        stored ''time'' (CtxTime_update (\<lambda>_. if time_is_zero t then None else Some t)) (view p)) \<and>
     (\<forall>d p. case sdk_Encode k ApplicationJSON d of
        Inl err \<Rightarrow> snd (ev_SetData l ApplicationJSON d p) = Some err
      | Inr data \<Rightarrow> snd (ev_SetData l ApplicationJSON d p) = None \<and>
          view (fst (ev_SetData l ApplicationJSON d p)) =
            (view (sdk_SetDataContentType k ApplicationJSON p))\<lparr>DataEncoded := data, DataBase64 := False\<rparr>)"

text \<open>White space is trimmed at the ends only, and JSON has a media type.\<close>

definition graphic :: "char \<Rightarrow> bool" where
  "graphic c \<longleftrightarrow> 33 \<le> (of_char c :: nat) \<and> (of_char c :: nat) \<le> 126"

definition text_laws :: "'u attributes \<Rightarrow> bool" where
  "text_laws a \<longleftrightarrow>
     (\<forall>s. list_all graphic s \<longrightarrow> at_trim a s = s) \<and>
     (\<forall>s. at_trim a (at_trim a s) = at_trim a s) \<and> at_media a ApplicationJSON = None"

text \<open>A ULID is 26 letters and digits.\<close>

definition is_ulid :: "string \<Rightarrow> bool" where
  "is_ulid s \<longleftrightarrow> length s = 26 \<and> list_all (\<lambda>c. c \<in> set ''0123456789ABCDEFGHJKMNPQRSTVWXYZ'') s"

section \<open>The reference implementation\<close>

text \<open>
  event/legacy_test.go: the construction by the SDK's setters with a \<open>Validate\<close> per event.
\<close>

definition legacyToCloudEvent ::
    "('p, 'u) sdk \<Rightarrow> 'p event_setters \<Rightarrow> string \<Rightarrow> observation \<Rightarrow> config \<Rightarrow> 'p \<times> goerr option" where
  "legacyToCloudEvent k l uid obs cfg =
     (let e = sdk_NewEvent k;
          e = sdk_SetID k uid e;
          e = sdk_SetSource k (CfgSource cfg) e;
          cfg = (if CfgType cfg = [] then cfg\<lparr>CfgType := DefaultType\<rparr> else cfg);
          e = sdk_SetType k (CfgType cfg) e;
          e = ev_SetSubject l (label_url obs) e;
          e = ev_SetTime l (ObservedAt obs) e
      in case ev_SetData l ApplicationJSON (payload_of obs) e of
           (e, Some err) \<Rightarrow> (e, Some (set_data err))
         | (e, None) \<Rightarrow>
             (case sdk_Validate k e of
                Some err \<Rightarrow> (e, Some (invalid_cloudevent err))
              | None \<Rightarrow> (e, None)))"

section \<open>The probe and the reference event\<close>

lemma map_clear [simp]:
  "(Map.empty :: string \<rightharpoonup> goerr)(f := None) = Map.empty"
  "f \<noteq> g \<Longrightarrow> [g \<mapsto> err](f := None) = [g \<mapsto> err]"
  by (auto simp: fun_eq_iff)

lemma map_add_empty_iff: "m ++ n = Map.empty \<longleftrightarrow> m = Map.empty \<and> n = Map.empty"
  by (auto simp: fun_eq_iff)

lemma text_lawsD:
  assumes "text_laws a"
  shows "at_trim a (at_trim a s) = at_trim a s" "at_media a ApplicationJSON = None"
    "at_trim a ApplicationJSON = ApplicationJSON" "at_trim a ''probe'' = ''probe''"
    "is_ulid s \<Longrightarrow> at_trim a s = s" "is_ulid s \<Longrightarrow> s \<noteq> []"
proof -
  have g: "list_all graphic s \<Longrightarrow> at_trim a s = s" for s using assms by (simp add: text_laws_def)
  show "at_trim a ApplicationJSON = ApplicationJSON" "at_trim a ''probe'' = ''probe''"
    by (rule g; code_simp)+
  have "list_all graphic ''0123456789ABCDEFGHJKMNPQRSTVWXYZ''" by code_simp
  then show "is_ulid s \<Longrightarrow> at_trim a s = s"
    by (intro g) (auto simp: is_ulid_def list_all_iff simp del: set_simps)
  show "at_trim a (at_trim a s) = at_trim a s" "at_media a ApplicationJSON = None" "is_ulid s \<Longrightarrow> s \<noteq> []"
    using assms by (auto simp: text_laws_def is_ulid_def)
qed

text \<open>The source and type attributes that a config gives, and the field errors that it leaves.\<close>

lemma config_views:
  assumes laws: "event_setter_laws a view k" "reference_laws a view k l" "text_laws a" and id: "is_ulid uid"
  obtains u es where
    "view (probe_event k cfg) = \<lparr>Context = Some \<lparr>CtxID = ''probe'', CtxSource = u,
       CtxType = at_trim a (if CfgType cfg = [] then DefaultType else CfgType cfg), CtxSubject = None, CtxTime = None,
       CtxDataContentType = Some ApplicationJSON\<rparr>, DataEncoded = [], DataBase64 = False, FieldErrors = es\<rparr>"
    "view (ev_SetTime l tm (ev_SetSubject l s (sdk_SetType k (if CfgType cfg = [] then DefaultType else CfgType cfg)
         (sdk_SetSource k (CfgSource cfg) (sdk_SetID k uid (sdk_NewEvent k)))))) =
      \<lparr>Context = Some \<lparr>CtxID = uid, CtxSource = u,
       CtxType = at_trim a (if CfgType cfg = [] then DefaultType else CfgType cfg), CtxSubject = blank_nil a s,
       CtxTime = (if time_is_zero tm then None else Some tm), CtxDataContentType = None\<rparr>,
       DataEncoded = [], DataBase64 = False, FieldErrors = es\<rparr>"
    "es(''datacontenttype'' := None) = es"
proof -
  note t = text_lawsD [OF laws(3)]
  obtain u0 where new: "view (sdk_NewEvent k) = \<lparr>Context = Some \<lparr>CtxID = [], CtxSource = u0, CtxType = [],
      CtxSubject = None, CtxTime = None, CtxDataContentType = None\<rparr>, DataEncoded = [], DataBase64 = False,
      FieldErrors = Map.empty\<rparr>"
    using laws(1) by (auto simp: event_setter_laws_def)
  have set_id: "view (sdk_SetID k s p) = stored ''id'' (CtxID_update (\<lambda>_. s)) (view p)" if "at_trim a s = s" "s \<noteq> []" for s p
    using laws(1) that by (simp add: event_setter_laws_def)
  have set_source: "view (sdk_SetSource k s p) = (case at_parse a s of Inl err \<Rightarrow> refused ''source'' err (view p)
      | Inr u \<Rightarrow> stored ''source'' (CtxSource_update (\<lambda>_. u)) (view p))" for s p
    using laws(1) by (simp add: event_setter_laws_def)
  have set_type: "view (sdk_SetType k s p) = stored ''type'' (CtxType_update (\<lambda>_. at_trim a s)) (view p)"
    and set_ct: "view (sdk_SetDataContentType k s p) =
      stored ''datacontenttype'' (CtxDataContentType_update (\<lambda>_. blank_nil a s)) (view p)" for s p
    using laws(1) by (simp_all add: event_setter_laws_def)
  have set_rest: "view (ev_SetSubject l s p) = stored ''subject'' (CtxSubject_update (\<lambda>_. blank_nil a s)) (view p)"
    "view (ev_SetTime l t p) = stored ''time'' (CtxTime_update (\<lambda>_. if time_is_zero t then None else Some t)) (view p)" for s t p
    using laws(2) by (simp_all add: reference_laws_def)
  have json: "blank_nil a ApplicationJSON = Some ApplicationJSON"
    using t(3) by (simp add: blank_nil_def ApplicationJSON_def)
  note eqs = new set_id [OF t(4)] set_id [OF t(5) [OF id] t(6) [OF id]] set_type set_ct set_rest json stored_def refused_def
  show thesis
  proof (cases "at_parse a (CfgSource cfg)")
    case (Inl err)
    then show thesis by (intro that [of u0 "[''source'' \<mapsto> err]"]) (simp_all add: probe_event_def set_source eqs)
  next
    case (Inr u)
    then show thesis by (intro that [of u Map.empty]) (simp_all add: probe_event_def set_source eqs)
  qed
qed

lemma context_errors_empty:
  "context_errors a ec = Map.empty \<longleftrightarrow>
     required a ''id'' (CtxID ec) = None \<and> required a ''source'' (at_show a (CtxSource ec)) = None \<and>
     required a ''type'' (CtxType ec) = None \<and> Option.bind (CtxSubject ec) (required a ''subject'') = None \<and>
     Option.bind (CtxDataContentType ec) (\<lambda>c. if at_trim a c = [] then Some (at_msg a ''datacontenttype'')
       else at_media a (at_trim a c)) = None"
  (is "?l \<longleftrightarrow> ?r")
proof
  assume ?l
  then have "context_errors a ec f = None" for f by simp
  from this [of "''id''"] this [of "''source''"] this [of "''type''"] this [of "''subject''"]
    this [of "''datacontenttype''"]
  show ?r by (simp add: context_errors_def)
qed (simp add: context_errors_def fun_eq_iff)

text \<open>
  \<open>Validate\<close> reports the same of the probe as of any event with the same source, type and
  field errors that is otherwise in order.
\<close>

lemma event_errors_probe:
  assumes t: "text_laws a" and id: "is_ulid uid"
  shows "event_errors a \<lparr>Context = Some \<lparr>CtxID = uid, CtxSource = u, CtxType = ty, CtxSubject = blank_nil a s,
      CtxTime = tm, CtxDataContentType = Some ApplicationJSON\<rparr>, DataEncoded = d, DataBase64 = b, FieldErrors = es\<rparr> =
    event_errors a \<lparr>Context = Some \<lparr>CtxID = ''probe'', CtxSource = u, CtxType = ty, CtxSubject = None,
      CtxTime = None, CtxDataContentType = Some ApplicationJSON\<rparr>, DataEncoded = d', DataBase64 = b', FieldErrors = es\<rparr>"
proof -
  note t = text_lawsD [OF t]
  have json: "ApplicationJSON \<noteq> []" by (simp add: ApplicationJSON_def)
  have "context_errors a \<lparr>CtxID = uid, CtxSource = u, CtxType = ty, CtxSubject = blank_nil a s,
      CtxTime = tm, CtxDataContentType = Some ApplicationJSON\<rparr> =
    context_errors a \<lparr>CtxID = ''probe'', CtxSource = u, CtxType = ty, CtxSubject = None,
      CtxTime = None, CtxDataContentType = Some ApplicationJSON\<rparr>"
    using t(1,2,3,4) t(5) [OF id] t(6) [OF id] json
    by (intro ext) (simp add: context_errors_def required_def blank_nil_def)
  then show ?thesis by (simp add: event_errors_def)
qed

lemma validate_iff:
  assumes "event_setter_laws a view k"
  shows "sdk_Validate k p =
    (if event_errors a (view p) = Map.empty then None else Some (at_errors a (event_errors a (view p))))"
    "Context (view p) = Some ec \<Longrightarrow> sdk_AsV1 k p = ec"
  using assms by (simp_all add: event_setter_laws_def)

lemma json_kept: "text_laws a \<Longrightarrow> blank_nil a ApplicationJSON = Some ApplicationJSON"
  by (simp add: blank_nil_def text_lawsD(3)) (simp add: ApplicationJSON_def)

text \<open>The three ways the reference implementation can end.\<close>

lemma legacy_cases:
  assumes "event_setter_laws a view k" "reference_laws a view k l" "text_laws a" "is_ulid uid"
  obtains (codec) x where "sdk_Encode k ApplicationJSON (payload_of obs) = Inl x"
      "snd (legacyToCloudEvent k l uid obs cfg) = Some (set_data x)"
  | (config) data err where "sdk_Encode k ApplicationJSON (payload_of obs) = Inr data"
      "sdk_Validate k (probe_event k cfg) = Some err"
      "snd (legacyToCloudEvent k l uid obs cfg) = Some (invalid_cloudevent err)"
  | (event) data p where "sdk_Encode k ApplicationJSON (payload_of obs) = Inr data"
      "sdk_Validate k (probe_event k cfg) = None"
      "legacyToCloudEvent k l uid obs cfg = (p, None)" "event_errors a (view p) = Map.empty"
      "view p = \<lparr>Context = Some \<lparr>CtxID = uid, CtxSource = CtxSource (sdk_AsV1 k (probe_event k cfg)),
         CtxType = CtxType (sdk_AsV1 k (probe_event k cfg)), CtxSubject = blank_nil a (label_url obs),
         CtxTime = (if time_is_zero (ObservedAt obs) then None else Some (ObservedAt obs)),
         CtxDataContentType = Some ApplicationJSON\<rparr>, DataEncoded = data, DataBase64 = False, FieldErrors = Map.empty\<rparr>"
proof -
  let ?ty = "if CfgType cfg = [] then DefaultType else CfgType cfg"
  let ?e = "ev_SetTime l (ObservedAt obs) (ev_SetSubject l (label_url obs) (sdk_SetType k ?ty
    (sdk_SetSource k (CfgSource cfg) (sdk_SetID k uid (sdk_NewEvent k)))))"
  let ?d = "ev_SetData l ApplicationJSON (payload_of obs) ?e"
  obtain u es where
    probe: "view (probe_event k cfg) = \<lparr>Context = Some \<lparr>CtxID = ''probe'', CtxSource = u,
       CtxType = at_trim a ?ty, CtxSubject = None, CtxTime = None,
       CtxDataContentType = Some ApplicationJSON\<rparr>, DataEncoded = [], DataBase64 = False, FieldErrors = es\<rparr>" and
    ref: "view ?e = \<lparr>Context = Some \<lparr>CtxID = uid, CtxSource = u,
       CtxType = at_trim a ?ty, CtxSubject = blank_nil a (label_url obs),
       CtxTime = (if time_is_zero (ObservedAt obs) then None else Some (ObservedAt obs)), CtxDataContentType = None\<rparr>,
       DataEncoded = [], DataBase64 = False, FieldErrors = es\<rparr>" and
    keep: "es(''datacontenttype'' := None) = es"
    by (rule config_views [OF assms, where cfg = cfg and s = "label_url obs" and tm = "ObservedAt obs"])
  have leg: "legacyToCloudEvent k l uid obs cfg = (case ?d of
      (e, Some err) \<Rightarrow> (e, Some (set_data err))
    | (e, None) \<Rightarrow> (case sdk_Validate k e of Some err \<Rightarrow> (e, Some (invalid_cloudevent err)) | None \<Rightarrow> (e, None)))"
    by (simp add: legacyToCloudEvent_def Let_def)
  have as: "sdk_AsV1 k (probe_event k cfg) = \<lparr>CtxID = ''probe'', CtxSource = u, CtxType = at_trim a ?ty,
      CtxSubject = None, CtxTime = None, CtxDataContentType = Some ApplicationJSON\<rparr>"
    by (rule validate_iff(2) [OF assms(1)]) (simp add: probe)
  show thesis
  proof (cases "sdk_Encode k ApplicationJSON (payload_of obs)")
    case (Inl x)
    then have "snd ?d = Some x" using assms(2) by (auto simp: reference_laws_def split: sum.splits)
    then have d: "?d = (fst ?d, Some x)" by (metis prod.collapse)
    show thesis by (rule codec [OF Inl]) (subst leg, subst d, simp)
  next
    case (Inr data)
    let ?v = "\<lparr>Context = Some \<lparr>CtxID = uid, CtxSource = u, CtxType = at_trim a ?ty,
       CtxSubject = blank_nil a (label_url obs), CtxTime = (if time_is_zero (ObservedAt obs) then None else Some (ObservedAt obs)),
       CtxDataContentType = Some ApplicationJSON\<rparr>, DataEncoded = data, DataBase64 = False, FieldErrors = es\<rparr>"
    have "snd ?d = None \<and> view (fst ?d) = (view (sdk_SetDataContentType k ApplicationJSON ?e))
        \<lparr>DataEncoded := data, DataBase64 := False\<rparr>"
      using assms(2) Inr by (auto simp: reference_laws_def split: sum.splits)
    then have d: "?d = (fst ?d, None)" "view (fst ?d) = ?v"
      using assms(1) json_kept [OF assms(3)]
      by (simp_all add: event_setter_laws_def ref keep stored_def prod_eq_iff)
    have same: "event_errors a ?v = event_errors a (view (probe_event k cfg))"
      unfolding probe by (rule event_errors_probe [OF assms(3,4)])
    then have val: "sdk_Validate k (fst ?d) = sdk_Validate k (probe_event k cfg)"
      unfolding validate_iff(1) [OF assms(1)] by (simp add: d(2))
    show thesis
    proof (cases "sdk_Validate k (probe_event k cfg)")
      case None
      then have none: "event_errors a ?v = Map.empty"
        using same by (simp add: validate_iff(1) [OF assms(1)] split: if_splits)
      then have "es = Map.empty" by (simp add: event_errors_def map_add_empty_iff)
      moreover have "legacyToCloudEvent k l uid obs cfg = (fst ?d, None)"
        unfolding leg by (subst d(1)) (simp add: val None)
      ultimately show thesis using event [OF Inr None] none by (simp add: d(2) as)
    next
      case (Some err)
      have "snd (legacyToCloudEvent k l uid obs cfg) = Some (invalid_cloudevent err)"
        unfolding leg by (subst d(1)) (simp add: val Some)
      then show thesis by (rule config [OF Inr Some])
    qed
  qed
qed

section \<open>Property\<close>

text \<open>
  C36: an Encoder does what the reference implementation does, and leaving out the \<open>Validate\<close>
  per event is sound. On an SDK that keeps its documented laws, for every config, observation and
  ULID: if \<open>NewEncoder\<close> rejects the config, \<open>ToCloudEvent\<close> reports its error with a
  zero event, and so does the construction by the SDK's setters, unless the payload has no encoding,
  which it reports first. If it accepts, \<open>Encode\<close> fails exactly when the construction by the
  setters does, with the same error and a zero event; otherwise it gives the same event, field by
  field, and the SDK's \<open>Validate\<close> finds no error in it.
\<close>

theorem Encode_events_valid:
  assumes "context_setters a k" "event_setter_laws a view k" "reference_laws a view k l" "text_laws a"
    and "is_ulid uid"
  shows "case legacyToCloudEvent k l uid obs cfg of (p, lerr) \<Rightarrow>
    (case NewEncoder k cfg of
       Inl err \<Rightarrow> ToCloudEvent k uid obs cfg = (zero_event, Some err) \<and>
         lerr = (case sdk_Encode k ApplicationJSON (payload_of obs) of Inl x \<Rightarrow> Some (set_data x) | Inr _ \<Rightarrow> Some err)
     | Inr en \<Rightarrow> (case Encode k uid (Some en) obs of (e, err) \<Rightarrow>
         ToCloudEvent k uid obs cfg = (e, err) \<and> err = lerr \<and>
         (if err = None then e = view p \<and> event_errors a e = Map.empty else e = zero_event)))"
  using assms(2,3,4,5)
proof (cases rule: legacy_cases [where obs = obs and cfg = cfg])
  case (codec x)
  then show ?thesis by (auto simp: encode_defs split: option.split)
next
  case (config data err)
  then show ?thesis by (auto simp: encode_defs)
next
  case (event data p)
  then show ?thesis using assms(1) json_kept [OF assms(4)] by (simp add: encode_defs context_setters_def)
qed

text \<open>An SDK that keeps the laws; its events are a context, the data, and whether the id was blank.\<close>

definition blank :: "char \<Rightarrow> bool" where "blank c \<longleftrightarrow> (of_char c :: nat) \<in> {9, 10, 11, 12, 13, 32}"

definition strip :: "string \<Rightarrow> string" where
  "strip s = rev (dropWhile blank (rev (dropWhile blank s)))"

type_synonym demo_event = "string context_v1 \<times> string \<times> bool"

definition demo_sdk :: "(demo_event, string) sdk" where
  "demo_sdk =
     \<lparr>sdk_NewEvent = (\<lparr>CtxID = [], CtxSource = [], CtxType = [], CtxSubject = None, CtxTime = None,
        CtxDataContentType = None\<rparr>, [], False),
      sdk_SetID = (\<lambda>s (ec, d, b). if strip s = [] then (ec, d, True) else (ec\<lparr>CtxID := strip s\<rparr>, d, False)),
      sdk_SetSource = (\<lambda>s (ec, d, b). (ec\<lparr>CtxSource := s\<rparr>, d, b)),
      sdk_SetType = (\<lambda>s (ec, d, b). (ec\<lparr>CtxType := strip s\<rparr>, d, b)),
      sdk_SetDataContentType = (\<lambda>s (ec, d, b). (ec\<lparr>CtxDataContentType := if strip s = [] then None else Some (strip s)\<rparr>, d, b)),
      sdk_Validate = (\<lambda>(ec, d, b).
        if b \<or> strip (CtxID ec) = [] \<or> strip (CtxSource ec) = [] \<or> strip (CtxType ec) = [] \<or>
          map_option strip (CtxSubject ec) = Some [] \<or> map_option strip (CtxDataContentType ec) = Some []
        then Some (Sentinel ''invalid'') else None),
      sdk_AsV1 = (\<lambda>(ec, d, b). ec),
      sdk_Encode = (\<lambda>_ p. Inr (''{status:'' @ PStatus p @ ''}'')),
      sdk_CtxSetSubject = (\<lambda>s ec. ec\<lparr>CtxSubject := if strip s = [] then None else Some (strip s)\<rparr>),
      sdk_CtxSetTime = (\<lambda>t ec. ec\<lparr>CtxTime := if time_is_zero t then None else Some t\<rparr>),
      sdk_CtxSetDataContentType = (\<lambda>s ec. ec\<lparr>CtxDataContentType := if strip s = [] then None else Some (strip s)\<rparr>)\<rparr>"

definition demo_attributes :: "string attributes" where
  "demo_attributes = \<lparr>at_trim = strip, at_parse = Inr, at_show = (\<lambda>s. s), at_media = (\<lambda>_. None),
     at_msg = (\<lambda>f. Sentinel f), at_errors = (\<lambda>_. Sentinel ''invalid'')\<rparr>"

definition demo_view :: "demo_event \<Rightarrow> string event" where
  "demo_view = (\<lambda>(ec, d, b). \<lparr>Context = Some ec, DataEncoded = d, DataBase64 = False,
     FieldErrors = (if b then [''id'' \<mapsto> Sentinel ''id''] else Map.empty)\<rparr>)"

definition demo_event_setters :: "demo_event event_setters" where
  "demo_event_setters =
     \<lparr>ev_SetSubject = (\<lambda>s (ec, d, b). (ec\<lparr>CtxSubject := if strip s = [] then None else Some (strip s)\<rparr>, d, b)),
      ev_SetTime = (\<lambda>t (ec, d, b). (ec\<lparr>CtxTime := if time_is_zero t then None else Some t\<rparr>, d, b)),
      ev_SetData = (\<lambda>ct p (ec, d, b). ((ec\<lparr>CtxDataContentType := if strip ct = [] then None else Some (strip ct)\<rparr>,
        ''{status:'' @ PStatus p @ ''}'', b), None))\<rparr>"

lemma strip_graphic: "list_all graphic s \<Longrightarrow> strip s = s"
proof -
  have "list_all graphic t \<Longrightarrow> dropWhile blank t = t" for t
    by (cases t) (auto simp: graphic_def blank_def)
  moreover assume "list_all graphic s"
  ultimately show ?thesis by (simp add: strip_def list_all_iff)
qed

lemma strip_idem: "strip (strip s) = strip s"
proof -
  let ?y = "dropWhile blank s"
  let ?z = "rev (dropWhile blank (rev ?y))"
  obtain t where t: "?y = ?z @ t" by (metis rev_append rev_rev_ident takeWhile_dropWhile_id)
  have "dropWhile blank ?z = ?z"
  proof (cases ?z)
    case (Cons c cs)
    have y: "?y = c # cs @ t" using t unfolding Cons by simp
    show ?thesis unfolding Cons using hd_dropWhile [of blank s] unfolding y by simp
  next
    case Nil
    show ?thesis unfolding Nil by simp
  qed
  then show ?thesis by (simp add: strip_def dropWhile_idem)
qed

lemma demo_laws:
  "context_setters demo_attributes demo_sdk" "event_setter_laws demo_attributes demo_view demo_sdk"
  "reference_laws demo_attributes demo_view demo_sdk demo_event_setters" "text_laws demo_attributes"
proof -
  note defs = demo_attributes_def demo_sdk_def demo_view_def demo_event_setters_def blank_nil_def stored_def refused_def
  show "context_setters demo_attributes demo_sdk" by (simp add: context_setters_def defs)
  show "text_laws demo_attributes" by (simp add: text_laws_def defs strip_graphic strip_idem)
  show "reference_laws demo_attributes demo_view demo_sdk demo_event_setters"
    by (simp add: reference_laws_def defs split: prod.split)
  have e: "event_errors demo_attributes (demo_view (ec, d, b)) = Map.empty \<longleftrightarrow>
      \<not> (b \<or> strip (CtxID ec) = [] \<or> strip (CtxSource ec) = [] \<or> strip (CtxType ec) = [] \<or>
        map_option strip (CtxSubject ec) = Some [] \<or> map_option strip (CtxDataContentType ec) = Some [])" for ec d b
    by (cases "CtxSubject ec"; cases "CtxDataContentType ec")
      (auto simp: event_errors_def map_add_empty_iff context_errors_empty required_def defs)
  have v: "sdk_Validate demo_sdk p = (if event_errors demo_attributes (demo_view p) = Map.empty then None
      else Some (at_errors demo_attributes (event_errors demo_attributes (demo_view p))))" for p
    by (cases p) (simp add: e, simp add: defs)
  show "event_setter_laws demo_attributes demo_view demo_sdk"
    unfolding event_setter_laws_def using v by (simp add: defs fun_eq_iff split: prod.split)
qed

definition demo_obs :: observation where
  "demo_obs = \<lparr>Status = StatusUp, LatencyMs = 12, ErrorClass = ErrNone, StatusCode = 200,
     FinalURL = ''https://x/'', TLSExpiry = None, ObservedAt = 7,
     ObsLabels = [''url'' \<mapsto> ''https://x/''], Extra = Map.empty\<rparr>"

theorem Encode_events_valid_witness:
  "case Encode demo_sdk ''01ARZ3NDEKTSV4RRFFQ69G5FAV'' (Some \<lparr>enc_source = ''s'', enc_typ = ''t'', enc_ok = True\<rparr>) demo_obs of
     (e, err) \<Rightarrow> err = None \<and> Context e \<noteq> None \<and> event_errors demo_attributes e = Map.empty \<and>
       (\<exists>p. legacyToCloudEvent demo_sdk demo_event_setters ''01ARZ3NDEKTSV4RRFFQ69G5FAV'' demo_obs
          \<lparr>CfgSource = ''s'', CfgType = ''  t''\<rparr> = (p, None) \<and> demo_view p = e)"
proof -
  let ?en = "\<lparr>enc_source = ''s'', enc_typ = ''t'', enc_ok = True\<rparr>" and ?id = "''01ARZ3NDEKTSV4RRFFQ69G5FAV''"
  have n: "NewEncoder demo_sdk \<lparr>CfgSource = ''s'', CfgType = ''  t''\<rparr> = Inr ?en" by code_simp
  have id: "is_ulid ?id" by code_simp
  have "snd (Encode demo_sdk ?id (Some ?en) demo_obs) = None" by (simp add: Encode_def demo_sdk_def Let_def)
  moreover have "Context (fst (Encode demo_sdk ?id (Some ?en) demo_obs)) \<noteq> None"
    by (simp add: Encode_def demo_sdk_def Let_def)
  ultimately show ?thesis
    using Encode_events_valid [OF demo_laws id, of demo_obs "\<lparr>CfgSource = ''s'', CfgType = ''  t''\<rparr>"]
    by (auto simp: n split: prod.splits)
qed

end
