(* ===== verification/Schedule.thy ===== *)
theory Schedule
  imports GoTime
begin

text \<open>
  The slot arithmetic of runner/runner.go: the FNV-1a phase of a target, \<open>slotAfter\<close>,
  and the whole-interval advance at the end of the scheduler's lap, with int64 wrap-around
  and the saturation of \<open>Time.Sub\<close> written out.
\<close>

unbundle bit_operations_syntax

section \<open>Phase\<close>

text \<open>\<open>hash/fnv.New64a\<close>: one byte is xor-ed in, then the hash is multiplied by the prime.\<close>

definition fnv_offset64 :: "64 word" where "fnv_offset64 = 14695981039346656037"
definition fnv_prime64 :: "64 word" where "fnv_prime64 = 1099511628211"

fun fnv1a_write :: "64 word \<Rightarrow> string \<Rightarrow> 64 word" where
  "fnv1a_write h [] = h"
| "fnv1a_write h (c # cs) = fnv1a_write ((h XOR of_char c) * fnv_prime64) cs"

definition fnv1a64 :: "string \<Rightarrow> 64 word" where
  "fnv1a64 s = fnv1a_write fnv_offset64 s"

text \<open>
  \<open>phaseOf\<close> divides by \<open>uint64(interval)\<close>, which panics at zero: the result is None
  there. The result is converted back to a Duration, an int64.
\<close>

definition phaseOf :: "string \<Rightarrow> duration \<Rightarrow> duration option" where
  "phaseOf url interval =
     (if interval mod 2 ^ 64 = 0 then None
      else Some (wrap64 (uint (fnv1a64 url) mod (interval mod 2 ^ 64))))"

section \<open>Slots\<close>

definition slotAfter :: "time \<Rightarrow> duration \<Rightarrow> duration \<Rightarrow> time" where
  "slotAfter now interval phase =
     (let next = time_add (truncate_time now interval) phase
      in if \<not> time_after next now then time_add next interval else next)"

text \<open>
  The advance at the end of a lap: \<open>k := now.Sub(e.next)/e.interval + 1\<close>, then
  \<open>e.next.Add(k*e.interval)\<close>, re-derived from the epoch when that is not in the future.
\<close>

definition advance_next :: "time \<Rightarrow> time \<Rightarrow> duration \<Rightarrow> duration \<Rightarrow> time" where
  "advance_next now next interval phase =
     (let k = wrap64 (time_sub now next sdiv interval + 1);
          next' = time_add next (wrap64 (k * interval))
      in if \<not> time_after next' now then slotAfter now interval phase else next')"

text \<open>The slots of a target: the instants congruent to its phase.\<close>

definition on_grid :: "duration \<Rightarrow> duration \<Rightarrow> time \<Rightarrow> bool" where
  "on_grid interval phase t \<longleftrightarrow> (t - phase) mod interval = 0"

section \<open>The contract of a slot function\<close>

text \<open>
  What the scheduler relies on: the next slot is in the future, at most one interval away
  and on the target's grid. Everything the runner promises about cadence follows from these
  three laws.
\<close>

locale slot_rule =
  fixes slot :: "time \<Rightarrow> duration \<Rightarrow> duration \<Rightarrow> time"
  assumes slot_future: "0 < iv \<Longrightarrow> 0 \<le> ph \<Longrightarrow> ph < iv \<Longrightarrow> now < slot now iv ph"
    and slot_near: "0 < iv \<Longrightarrow> 0 \<le> ph \<Longrightarrow> ph < iv \<Longrightarrow> slot now iv ph \<le> now + iv"
    and slot_grid: "0 < iv \<Longrightarrow> 0 \<le> ph \<Longrightarrow> ph < iv \<Longrightarrow> on_grid iv ph (slot now iv ph)"
begin

lemma grid_gap:
  assumes "0 < iv" "on_grid iv ph s" "on_grid iv ph t" "s < t"
  shows "s + iv \<le> t"
proof -
  have "iv dvd (s - ph)" "iv dvd (t - ph)"
    using assms(2,3) by (auto simp: on_grid_def mod_eq_0_iff_dvd)
  then have "iv dvd (t - ph) - (s - ph)" by (rule dvd_diff [rotated])
  then have "iv dvd t - s" by simp
  then show ?thesis using assms(4) zdvd_imp_le [of iv "t - s"] by simp
qed

text \<open>The slot is the first instant of the grid after now.\<close>

lemma slot_first:
  assumes "0 < iv" "0 \<le> ph" "ph < iv" "on_grid iv ph t" "now < t"
  shows "slot now iv ph \<le> t"
proof (rule ccontr)
  assume "\<not> slot now iv ph \<le> t"
  then have "t + iv \<le> slot now iv ph"
    using grid_gap [OF assms(1,4) slot_grid [OF assms(1,2,3)]] by simp
  then show False using slot_near [OF assms(1,2,3), of now] assms(5) by simp
qed

text \<open>A restart before the slot leaves the target on the slot it had.\<close>

lemma slot_stable:
  assumes "0 < iv" "0 \<le> ph" "ph < iv" "now \<le> later" "later < slot now iv ph"
  shows "slot later iv ph = slot now iv ph"
proof (rule antisym)
  show "slot later iv ph \<le> slot now iv ph"
    using assms slot_grid by (intro slot_first) auto
  show "slot now iv ph \<le> slot later iv ph"
    using assms slot_grid slot_future [of iv ph later] by (intro slot_first) auto
qed

text \<open>Two slot functions that keep the contract are the same function.\<close>

lemma slot_unique:
  assumes "0 < iv" "0 \<le> ph" "ph < iv" "now < t" "t \<le> now + iv" "on_grid iv ph t"
  shows "t = slot now iv ph"
proof (rule ccontr)
  assume "t \<noteq> slot now iv ph"
  moreover have "slot now iv ph \<le> t" using assms by (intro slot_first)
  ultimately have "slot now iv ph + iv \<le> t"
    using grid_gap [OF assms(1) slot_grid [OF assms(1,2,3)] assms(6)] by simp
  then show False using slot_future [OF assms(1,2,3), of now] assms(5) by simp
qed

end

section \<open>slotAfter keeps the contract\<close>

lemma slotAfter_bounds:
  assumes "0 < iv" "0 \<le> ph" "ph < iv"
  shows "now < slotAfter now iv ph" "slotAfter now iv ph \<le> now + iv"
proof -
  define m where "m = now mod iv"
  have "0 \<le> m" "m < iv" using assms(1) by (simp_all add: m_def)
  then show "now < slotAfter now iv ph" "slotAfter now iv ph \<le> now + iv"
    using assms by (auto simp: slotAfter_def truncate_time_def go_arith Let_def m_def [symmetric])
qed

lemma slotAfter_on_grid:
  assumes "0 < iv"
  shows "on_grid iv ph (slotAfter now iv ph)"
proof -
  have "iv dvd now - now mod iv" by (simp add: minus_mod_eq_mult_div)
  moreover from this have "iv dvd now - now mod iv + iv" by simp
  ultimately show ?thesis using assms
    by (auto simp: slotAfter_def on_grid_def truncate_time_def go_arith Let_def mod_eq_0_iff_dvd
        algebra_simps)
qed

interpretation slots: slot_rule slotAfter
  by unfold_locales (simp_all add: slotAfter_bounds slotAfter_on_grid)

section \<open>The advance of the scheduler's lap\<close>

lemma advance_small:
  assumes iv: "0 < iv" and le: "next \<le> now"
    and d: "d = now - next" "d \<le> max64" and ov: "(d div iv + 1) * iv \<le> max64"
  shows "advance_next now next iv ph = next + (d div iv + 1) * iv"
proof -
  have d0: "0 \<le> d" using le d(1) by simp
  have q: "0 \<le> d div iv" using d0 iv by (simp add: pos_imp_zdiv_nonneg_iff)
  have "d div iv + 1 \<le> (d div iv + 1) * iv"
    using q iv mult_left_mono [of 1 iv "d div iv + 1"] by simp
  then have "d div iv + 1 \<le> max64" and pos: "0 < (d div iv + 1) * iv" using q ov by linarith+
  then have k: "wrap64 (d div iv + 1) = d div iv + 1"
    using q by (intro wrap64_id) (simp_all add: min64_def)
  have kiv: "wrap64 ((d div iv + 1) * iv) = (d div iv + 1) * iv"
    using pos ov by (intro wrap64_id) (simp_all add: min64_def)
  have s: "time_sub now next = d"
    using d0 d by (simp add: time_sub_def sat64_id min64_def)
  have "d mod iv < iv" using iv by simp
  then have "now < next + (d div iv + 1) * iv"
    using minus_mod_eq_div_mult [of d iv] d(1) by (simp add: distrib_right)
  then show ?thesis
    using iv d0 by (simp add: advance_next_def s sdiv_nonneg k kiv go_arith Let_def)
qed

lemma quot_step_bounds:
  assumes "0 < iv" "iv \<le> max64" "0 \<le> d" "d \<le> max64"
  shows "d < (d div iv + 1) * iv" "(d div iv + 1) * iv \<le> d + iv" "(d div iv + 1) * iv < 2 ^ 64"
proof -
  have m: "0 \<le> d mod iv" "d mod iv < iv" using assms(1) by simp_all
  have e: "(d div iv + 1) * iv = d - d mod iv + iv"
    by (simp add: distrib_right minus_mod_eq_div_mult)
  show "d < (d div iv + 1) * iv" "(d div iv + 1) * iv \<le> d + iv"
    using m by (simp_all add: e)
  then show "(d div iv + 1) * iv < 2 ^ 64" using assms(2,4) by (simp add: max64_def)
qed

text \<open>
  An overflow in \<open>k*interval\<close> always lands in the past, so the epoch slot is taken.
\<close>

lemma advance_overflow:
  assumes iv: "0 < iv" "iv \<le> max64" and le: "next \<le> now"
    and s: "time_sub now next = d" and ov: "max64 < (d div iv + 1) * iv"
  shows "advance_next now next iv ph = slotAfter now iv ph"
proof -
  have d: "0 \<le> d" "d \<le> max64"
    using le s by (auto simp: time_sub_def int64_defs)
  note b = quot_step_bounds [OF iv d]
  have neg: "wrap64 (wrap64 (d div iv + 1) * iv) < 0"
  proof (cases "d div iv + 1 \<le> max64")
    case True
    have "0 \<le> d div iv" using d(1) iv(1) by (simp add: pos_imp_zdiv_nonneg_iff)
    then have "wrap64 (d div iv + 1) = d div iv + 1"
      using True by (intro wrap64_id) (simp_all add: min64_def)
    then show ?thesis using wrap64_overflow [OF ov b(3)] by simp
  next
    case False
    have "d div iv \<le> d" using d(1) iv(1) zdiv_mono2 [of d 1 iv] by simp
    with False d have q: "d div iv = max64" "d = max64" by linarith+
    have "iv = 1"
    proof (rule ccontr)
      assume "iv \<noteq> 1"
      then have "1 < iv" using iv(1) by simp
      then have "max64 div iv < max64" by (intro int_div_less_self) (simp_all add: max64_def)
      with q show False by simp
    qed
    with q show ?thesis by (simp add: max64_def wrap64_def)
  qed
  show ?thesis
    using le iv(1) d(1) neg by (simp add: advance_next_def s sdiv_nonneg go_arith Let_def)
qed

lemma advance_saturated:
  assumes "0 < iv" "iv \<le> max64" "max64 \<le> now - next"
  shows "advance_next now next iv ph = slotAfter now iv ph"
proof -
  have s: "time_sub now next = max64" using assms(3) by (simp add: time_sub_def sat64_ge)
  have "0 \<le> max64" by (simp add: max64_def)
  then show ?thesis
    using advance_overflow [OF assms(1,2) _ s] quot_step_bounds [OF assms(1,2), of max64] assms(3)
    by simp
qed

lemma advance_in_range:
  assumes iv: "0 < iv" "iv \<le> max64" and ph: "0 \<le> ph" "ph < iv"
    and grid: "on_grid iv ph next" and le: "next \<le> now" and d: "now - next \<le> max64"
  shows "advance_next now next iv ph = slotAfter now iv ph"
proof (cases "((now - next) div iv + 1) * iv \<le> max64")
  case True
  let ?k = "(now - next) div iv + 1"
  have adv: "advance_next now next iv ph = next + ?k * iv"
    using advance_small [OF iv(1) le refl d True] .
  have "0 \<le> now - next" using le by simp
  note b = quot_step_bounds [OF iv this d]
  have "on_grid iv ph (next + ?k * iv)"
  proof -
    have "iv dvd (next - ph) + ?k * iv"
      using grid by (intro dvd_add) (simp_all add: on_grid_def mod_eq_0_iff_dvd)
    moreover have "next + ?k * iv - ph = (next - ph) + ?k * iv" by simp
    ultimately show ?thesis by (simp only: on_grid_def mod_eq_0_iff_dvd)
  qed
  then show ?thesis
    unfolding adv using b by (intro slots.slot_unique [OF iv(1) ph]) simp_all
next
  case False
  have "time_sub now next = now - next"
    using le d by (simp add: time_sub_def sat64_id min64_def)
  with False show ?thesis by (intro advance_overflow [OF iv le]) (simp_all only: not_le)
qed

lemma phaseOf_positive:
  assumes "0 < iv" "iv \<le> max64"
  shows "phaseOf url iv = Some (uint (fnv1a64 url) mod iv)"
proof -
  have m: "iv mod 2 ^ 64 = iv"
    using assms by (intro mod_pos_pos_trivial) (simp_all add: max64_def)
  have "0 \<le> uint (fnv1a64 url) mod iv" "uint (fnv1a64 url) mod iv < iv"
    using assms(1) by simp_all
  then have "wrap64 (uint (fnv1a64 url) mod iv) = uint (fnv1a64 url) mod iv"
    using assms(2) by (intro wrap64_id) (simp_all add: min64_def)
  then show ?thesis using assms(1) unfolding phaseOf_def m by simp
qed

lemma advance_is_slot:
  assumes "0 < iv" "iv \<le> max64" "0 \<le> ph" "ph < iv" "on_grid iv ph next" "next \<le> now"
  shows "advance_next now next iv ph = slotAfter now iv ph"
proof (cases "now - next \<le> max64")
  case True
  with assms show ?thesis by (intro advance_in_range)
next
  case False
  with assms show ?thesis by (intro advance_saturated) simp_all
qed

section \<open>Properties\<close>

text \<open>
  C28: the optimised advance of the scheduler's lap, for any due entry (next at or before now)
  on its grid and any positive int64 interval, gives exactly the slot that \<open>slotAfter\<close>
  derives from the epoch: also where now-next saturates or k*interval overflows. So one
  reschedule of any length keeps the phase.
\<close>

theorem advance_next_eq_slotAfter:
  assumes "0 < iv" "iv \<le> max64" "0 \<le> ph" "ph < iv" "on_grid iv ph next" "next \<le> now"
  shows "advance_next now next iv ph = slotAfter now iv ph"
  using assms by (rule advance_is_slot)

theorem advance_next_eq_slotAfter_witness:
  "advance_next 1000 37 30 7 = 1027 \<and> advance_next (2 ^ 64) 37 30 7 = slotAfter (2 ^ 64) 30 7"
proof -
  have "advance_next 1000 37 30 7 = slotAfter 1000 30 7"
    by (rule advance_next_eq_slotAfter) (simp_all add: max64_def on_grid_def)
  moreover have "advance_next (2 ^ 64) 37 30 7 = slotAfter (2 ^ 64) 30 7"
    by (rule advance_next_eq_slotAfter) (simp_all add: max64_def on_grid_def)
  ultimately show ?thesis by (simp add: slotAfter_def truncate_time_def go_arith)
qed

text \<open>
  C17: \<open>slotAfter\<close> returns the first instant after now that is congruent to the phase
  modulo the interval (the specification of a target's next slot): it is on the grid, in the
  future, at most one interval away, and no grid instant lies between now and it.
\<close>

theorem slotAfter_is_first_slot:
  assumes "0 < iv" "0 \<le> ph" "ph < iv"
  shows "on_grid iv ph (slotAfter now iv ph) \<and> now < slotAfter now iv ph \<and>
    slotAfter now iv ph \<le> now + iv \<and> (\<forall>t. on_grid iv ph t \<and> now < t \<longrightarrow> slotAfter now iv ph \<le> t)"
  using assms slots.slot_first slots.slot_grid slots.slot_future slots.slot_near by blast

theorem slotAfter_is_first_slot_witness:
  "slotAfter 1000 30 7 = 1027 \<and> on_grid 30 7 1027"
proof -
  have "slotAfter 1000 30 7 = 1027" by (simp add: slotAfter_def truncate_time_def go_arith)
  then show ?thesis using slotAfter_is_first_slot [of 30 7 1000] by simp
qed

text \<open>
  A restart keeps the slot. For any instant from now up to (and excluding) the target's
  next slot, \<open>slotAfter\<close> gives that same slot; and a restart at any later instant, with
  less than one interval since now, is at most two intervals from now.
\<close>

theorem slotAfter_restart:
  assumes "0 < iv" "0 \<le> ph" "ph < iv" "now \<le> later"
  shows "(later < slotAfter now iv ph \<longrightarrow> slotAfter later iv ph = slotAfter now iv ph) \<and>
    (later < now + iv \<longrightarrow> slotAfter later iv ph < now + 2 * iv)"
  using slots.slot_stable [OF assms] slots.slot_near [OF assms(1,2,3), of later] by auto

theorem slotAfter_restart_witness:
  "slotAfter 1020 30 7 = slotAfter 1000 30 7 \<and> slotAfter 1029 30 7 < 1060"
  using slotAfter_restart [of 30 7 1000 1020] slotAfter_restart [of 30 7 1000 1029]
  by (simp add: slotAfter_def truncate_time_def go_arith)

text \<open>
  For every positive int64 interval \<open>phaseOf\<close> does not panic and returns the FNV-1a
  hash of the URL modulo the interval: a stable offset that lies inside the interval.
\<close>

theorem phaseOf_in_interval:
  assumes "0 < iv" "iv \<le> max64"
  shows "\<exists>p. phaseOf url iv = Some p \<and> 0 \<le> p \<and> p < iv \<and> p = uint (fnv1a64 url) mod iv"
  using assms by (simp add: phaseOf_positive)

theorem phaseOf_in_interval_witness:
  "\<exists>p. phaseOf ''a'' 1000 = Some p \<and> p = 996"
proof -
  have "uint (fnv1a64 ''a'') mod 1000 = 996" by (simp add: fnv1a64_def fnv_offset64_def fnv_prime64_def)
  then show ?thesis using phaseOf_in_interval [of 1000 "''a''"] by (simp add: max64_def)
qed

end
