(* ===== verification/Heap.thy ===== *)
theory Heap
  imports Prelude
begin

text \<open>
  The scheduler's min-heap: \<open>container/heap\<close> over \<open>schedHeap\<close> (runner/runner.go),
  a slice of entries ordered by their next fire time. A slice is a list; an element is what the
  slice points at (the runner uses the entry's index), and \<open>key\<close> reads its fire time, so
  \<open>Less\<close> compares keys. \<open>heap_init\<close>, \<open>heap_fix\<close>, \<open>heap_up\<close> and
  \<open>heap_down\<close> are the loops of container/heap on that slice.
\<close>

section \<open>The slice operations\<close>

definition heap_less :: "('a \<Rightarrow> int) \<Rightarrow> 'a list \<Rightarrow> nat \<Rightarrow> nat \<Rightarrow> bool" where
  "heap_less key h i j \<longleftrightarrow> key (h ! i) < key (h ! j)"

definition heap_swap :: "'a list \<Rightarrow> nat \<Rightarrow> nat \<Rightarrow> 'a list" where
  "heap_swap h i j = h[i := h ! j, j := h ! i]"

section \<open>container/heap\<close>

text \<open>The child \<open>down\<close> compares with: the right one only when it is strictly smaller.\<close>

definition small_child :: "('a \<Rightarrow> int) \<Rightarrow> 'a list \<Rightarrow> nat \<Rightarrow> nat \<Rightarrow> nat" where
  "small_child key h i n =
     (let j1 = 2 * i + 1 in if j1 + 1 < n \<and> heap_less key h (j1 + 1) j1 then j1 + 1 else j1)"

function heap_down_loop :: "('a \<Rightarrow> int) \<Rightarrow> 'a list \<Rightarrow> nat \<Rightarrow> nat \<Rightarrow> 'a list \<times> nat" where
  "heap_down_loop key h i n =
     (if n \<le> 2 * i + 1 then (h, i)
      else let j = small_child key h i n
           in if \<not> heap_less key h j i then (h, i)
              else heap_down_loop key (heap_swap h i j) j n)"
  by pat_completeness auto
termination
  by (relation "measure (\<lambda>(key, h, i, n). n - i)") (auto simp: small_child_def Let_def split: if_splits)

declare heap_down_loop.simps [simp del]

definition heap_down :: "('a \<Rightarrow> int) \<Rightarrow> 'a list \<Rightarrow> nat \<Rightarrow> nat \<Rightarrow> 'a list \<times> bool" where
  "heap_down key h i0 n = (let (h', i) = heap_down_loop key h i0 n in (h', i0 < i))"

function heap_up :: "('a \<Rightarrow> int) \<Rightarrow> 'a list \<Rightarrow> nat \<Rightarrow> 'a list" where
  "heap_up key h j =
     (let i = (j - 1) div 2
      in if i = j \<or> \<not> heap_less key h j i then h else heap_up key (heap_swap h i j) i)"
  by pat_completeness auto
termination
  by (relation "measure (\<lambda>(key, h, j). j)") auto

declare heap_up.simps [simp del]

text \<open>\<open>heap.Init\<close>: sift down every inner node, the last one first.\<close>

definition heap_init :: "('a \<Rightarrow> int) \<Rightarrow> 'a list \<Rightarrow> 'a list" where
  "heap_init key h =
     foldl (\<lambda>h i. fst (heap_down key h i (length h))) h (rev [0 ..< length h div 2])"

definition heap_fix :: "('a \<Rightarrow> int) \<Rightarrow> 'a list \<Rightarrow> nat \<Rightarrow> 'a list" where
  "heap_fix key h i =
     (let (h', moved) = heap_down key h i (length h) in if \<not> moved then heap_up key h' i else h')"

section \<open>The heap order\<close>

definition par :: "nat \<Rightarrow> nat" where "par j = (j - 1) div 2"

text \<open>Every node whose parent is at or after \<open>k\<close> is not below its parent.\<close>

definition heap_from :: "('a \<Rightarrow> int) \<Rightarrow> 'a list \<Rightarrow> nat \<Rightarrow> bool" where
  "heap_from key h k \<longleftrightarrow>
     (\<forall>j < length h. 0 < j \<and> k \<le> par j \<longrightarrow> key (h ! par j) \<le> key (h ! j))"

definition is_heap :: "('a \<Rightarrow> int) \<Rightarrow> 'a list \<Rightarrow> bool" where
  "is_heap key h \<longleftrightarrow> heap_from key h 0"

text \<open>
  The invariant of the sift-down loop at node \<open>i\<close>: the order holds except below \<open>i\<close>,
  and the nodes below \<open>i\<close> are not smaller than \<open>i\<close>'s parent.
\<close>

definition hole_at :: "('a \<Rightarrow> int) \<Rightarrow> 'a list \<Rightarrow> nat \<Rightarrow> nat \<Rightarrow> bool" where
  "hole_at key h k i \<longleftrightarrow>
     (\<forall>j < length h. 0 < j \<and> k \<le> par j \<and> par j \<noteq> i \<longrightarrow> key (h ! par j) \<le> key (h ! j)) \<and>
     (\<forall>j < length h. 0 < j \<and> par j = i \<and> 0 < i \<and> k \<le> par i \<longrightarrow> key (h ! par i) \<le> key (h ! j))"

lemma par_eq_iff: "0 < j \<Longrightarrow> par j = i \<longleftrightarrow> j = 2 * i + 1 \<or> j = 2 * i + 2"
  by (auto simp: par_def)

lemma par_less: "0 < j \<Longrightarrow> par j < j"
  by (auto simp: par_def)

lemma small_child_cases:
  assumes "2 * i + 1 < n"
  shows "par (small_child key h i n) = i" "i < small_child key h i n" "small_child key h i n < n"
    and "\<And>j. 0 < j \<Longrightarrow> j < n \<Longrightarrow> par j = i \<Longrightarrow> key (h ! small_child key h i n) \<le> key (h ! j)"
  using assms by (auto simp: small_child_def Let_def heap_less_def par_eq_iff split: if_splits)

lemma heap_swap_simps [simp]:
  "length (heap_swap h i j) = length h"
  "i < length h \<Longrightarrow> j < length h \<Longrightarrow> i \<noteq> j \<Longrightarrow>
    heap_swap h i j ! m = (if m = i then h ! j else if m = j then h ! i else h ! m)"
  "i < length h \<Longrightarrow> j < length h \<Longrightarrow> mset (heap_swap h i j) = mset h"
  by (simp_all add: heap_swap_def nth_swap_mset nth_list_update)

lemma hole_step:
  assumes hole: "hole_at key h k i" and ki: "k \<le> i"
    and j: "par j = i" "i < j" "j < length h"
    and least: "\<And>m. 0 < m \<Longrightarrow> m < length h \<Longrightarrow> par m = i \<Longrightarrow> key (h ! j) \<le> key (h ! m)"
    and less: "heap_less key h j i"
  shows "hole_at key (heap_swap h i j) k j"
proof -
  have i: "i < length h" "i \<noteq> j" using j by simp_all
  have le: "key (heap_swap h i j ! par m) \<le> key (heap_swap h i j ! m)"
    if m: "m < length h" "0 < m" "k \<le> par m" "par m \<noteq> j" for m
  proof (cases "par m = i")
    case True
    then show ?thesis using least [OF m(2,1)] less i j m by (auto simp: heap_less_def)
  next
    case False
    show ?thesis
    proof (cases "m = i")
      case True
      then have "0 < i" "k \<le> par i" using m by simp_all
      then have "key (h ! par i) \<le> key (h ! j)"
        using hole j by (auto simp: hole_at_def)
      then show ?thesis using True False i j m by auto
    next
      case mi: False
      have "m \<noteq> j" using False j(1) by auto
      then show ?thesis using hole False mi i j m by (auto simp: hole_at_def)
    qed
  qed
  moreover have "key (heap_swap h i j ! par j) \<le> key (heap_swap h i j ! m)"
    if m: "m < length h" "0 < m" "par m = j" for m
  proof -
    have "j < m" using m par_less by blast
    then show ?thesis using hole ki i j m by (auto simp: hole_at_def)
  qed
  ultimately show ?thesis using j by (auto simp: hole_at_def)
qed

lemma down_loop_order:
  assumes "hole_at key h k i" "k \<le> i" "n = length h"
  shows "heap_from key (fst (heap_down_loop key h i n)) k"
  using assms
proof (induction key h i n rule: heap_down_loop.induct)
  case (1 key h i n)
  show ?case
  proof (cases "n \<le> 2 * i + 1")
    case True
    then show ?thesis using "1.prems"
      by (auto simp: heap_down_loop.simps [of key h i] heap_from_def hole_at_def par_eq_iff)
  next
    case False
    let ?j = "small_child key h i n"
    note sc = small_child_cases [where i = i and n = n and key = key and h = h]
    have n: "2 * i + 1 < n" using False by simp
    show ?thesis
    proof (cases "heap_less key h ?j i")
      case True
      have "hole_at key (heap_swap h i ?j) k ?j"
        using "1.prems" sc [OF n] True by (intro hole_step) auto
      then show ?thesis
        using "1.IH" [OF _ refl] False True "1.prems" sc(2) [OF n]
        by (simp add: heap_down_loop.simps [of key h i] Let_def)
    next
      case no: False
      have "key (h ! i) \<le> key (h ! m)" if "m < length h" "0 < m" "par m = i" for m
        using sc(4) [OF n, of m] that "1.prems" no by (auto simp: heap_less_def)
      then show ?thesis using "1.prems" False no
        by (auto simp: heap_down_loop.simps [of key h i] heap_from_def hole_at_def Let_def)
    qed
  qed
qed

lemma down_loop_mset:
  assumes "i < length h" "n = length h"
  shows "mset (fst (heap_down_loop key h i n)) = mset h"
  using assms
proof (induction key h i n rule: heap_down_loop.induct)
  case (1 key h i n)
  then show ?case
    using small_child_cases(3) [where i = i and n = n and key = key and h = h]
    by (auto simp: heap_down_loop.simps [of key h i] Let_def)
qed

lemma heap_down_length: "i < length h \<Longrightarrow> length (fst (heap_down key h i (length h))) = length h"
  using arg_cong [OF down_loop_mset [of i h "length h" key], of size]
  by (simp add: heap_down_def case_prod_beta)

lemma heap_down_mset: "i < length h \<Longrightarrow> mset (fst (heap_down key h i (length h))) = mset h"
  using down_loop_mset [of i h "length h" key] by (simp add: heap_down_def case_prod_beta)

text \<open>A sift-down that did not move left the slice alone.\<close>

lemma down_loop_moved: "i \<le> snd (heap_down_loop key h i n) \<and>
    (snd (heap_down_loop key h i n) = i \<longrightarrow> fst (heap_down_loop key h i n) = h)"
proof (induction key h i n rule: heap_down_loop.induct)
  case (1 key h i n)
  then show ?case
    using small_child_cases(2) [where i = i and n = n and key = key and h = h]
    by (auto simp: heap_down_loop.simps [of key h i] Let_def)
qed

section \<open>Init and Fix\<close>

lemma heap_down_order:
  assumes "hole_at key h k i" "k \<le> i"
  shows "heap_from key (fst (heap_down key h i (length h))) k"
  using down_loop_order [OF assms refl] by (simp add: heap_down_def case_prod_beta)

lemma heap_from_hole: "heap_from key h (Suc i) \<Longrightarrow> hole_at key h i i"
  using par_less [of i] by (auto simp: heap_from_def hole_at_def Suc_le_eq)

lemma init_loop:
  assumes "heap_from key h m" "m \<le> length h" "n = length h"
  shows "heap_from key (foldl (\<lambda>h i. fst (heap_down key h i (length h))) h (rev [0 ..< m])) 0 \<and>
    mset (foldl (\<lambda>h i. fst (heap_down key h i (length h))) h (rev [0 ..< m])) = mset h"
  using assms
proof (induction m arbitrary: h)
  case (Suc m)
  let ?h = "fst (heap_down key h m (length h))"
  have m: "m < length h" using Suc.prems by simp
  have "heap_from key ?h m"
    using heap_down_order [OF heap_from_hole [OF Suc.prems(1)]] by simp
  moreover have "length ?h = length h" using heap_down_length [OF m] .
  ultimately show ?case
    using Suc.IH [of ?h] Suc.prems heap_down_mset [OF m, of key] by simp
qed simp

lemma half_heap: "heap_from key h (length h div 2)"
  by (auto simp: heap_from_def par_def)

lemma heap_init_mset: "mset (heap_init key h) = mset h"
  and is_heap_init: "is_heap key (heap_init key h)"
  using init_loop [where key = key and h = h, OF half_heap _ refl]
  by (simp_all add: heap_init_def is_heap_def)

lemma heap_up_root: "heap_up key h 0 = h"
  by (simp add: heap_up.simps [of key h])

lemma heap_fix_root: "heap_fix key h 0 = fst (heap_down key h 0 (length h))"
  by (simp add: heap_fix_def heap_up_root case_prod_beta)

lemma heap_fix_root_mset: "mset (heap_fix key h 0) = mset h"
proof (cases "h = []")
  case True
  then show ?thesis
    by (simp add: heap_fix_root heap_down_def heap_down_loop.simps [of key "[]" 0])
qed (simp add: heap_fix_root heap_down_mset)

lemma is_heap_fix_root:
  assumes "is_heap key h" "\<forall>j < length h. 0 < j \<longrightarrow> key' (h ! j) = key (h ! j)"
  shows "is_heap key' (heap_fix key' h 0)"
proof -
  have "key' (h ! par j) \<le> key' (h ! j)" if "j < length h" "0 < j" "par j \<noteq> 0" for j
    using assms that par_less [OF that(2)] by (auto simp: is_heap_def heap_from_def)
  then have "hole_at key' h 0 0" by (simp add: hole_at_def)
  then show ?thesis by (simp add: heap_fix_root is_heap_def heap_down_order)
qed

lemma is_heap_root:
  assumes "is_heap key h" "j < length h"
  shows "key (h ! 0) \<le> key (h ! j)"
  using assms(2)
proof (induction j rule: less_induct)
  case (less j)
  show ?case
  proof (cases "j = 0")
    case False
    then have "key (h ! 0) \<le> key (h ! par j)" using less par_less [of j] by simp
    also have "\<dots> \<le> key (h ! j)"
      using False less.prems assms(1) by (simp add: is_heap_def heap_from_def)
    finally show ?thesis .
  qed simp
qed

section \<open>The contract of the scheduler's queue\<close>

text \<open>
  What the scheduler relies on: building the queue and re-sinking its top keep the elements,
  and the top is the earliest one.
\<close>

locale due_queue =
  fixes build :: "('e \<Rightarrow> int) \<Rightarrow> 'e list \<Rightarrow> 'e list"
    and resink :: "('e \<Rightarrow> int) \<Rightarrow> 'e list \<Rightarrow> 'e list"
    and wf :: "('e \<Rightarrow> int) \<Rightarrow> 'e list \<Rightarrow> bool"
  assumes build_wf: "wf key (build key q)"
    and build_mset: "mset (build key q) = mset q"
    and resink_wf: "wf key q \<Longrightarrow> \<forall>j < length q. 0 < j \<longrightarrow> key' (q ! j) = key (q ! j) \<Longrightarrow>
      wf key' (resink key' q)"
    and resink_mset: "mset (resink key q) = mset q"
    and top_least: "wf key q \<Longrightarrow> e \<in> set q \<Longrightarrow> key (hd q) \<le> key e"
begin

lemma build_set [simp]: "set (build key q) = set q"
  using build_mset by (rule mset_eq_setD)

lemma resink_set [simp]: "set (resink key q) = set q"
  using resink_mset by (rule mset_eq_setD)

lemma build_distinct [simp]: "distinct (build key q) \<longleftrightarrow> distinct q"
  using build_mset by (rule mset_eq_imp_distinct_iff)

lemma resink_distinct [simp]: "distinct (resink key q) \<longleftrightarrow> distinct q"
  using resink_mset by (rule mset_eq_imp_distinct_iff)

lemma build_empty: "build key q = [] \<longleftrightarrow> q = []"
  using build_mset [of key q] by (metis mset_zero_iff)

text \<open>Moving the top's due time and re-sinking it keeps the queue.\<close>

lemma reschedule_wf:
  assumes "wf key q" "distinct q" "\<And>e. e \<noteq> hd q \<Longrightarrow> key' e = key e"
  shows "wf key' (resink key' q)"
proof (rule resink_wf [OF assms(1)], intro allI impI)
  fix j assume j: "j < length q" "0 < j"
  then have "q \<noteq> []" by auto
  then have "q ! j \<noteq> hd q" using j assms(2) by (simp add: hd_conv_nth nth_eq_iff_index_eq)
  then show "key' (q ! j) = key (q ! j)" by (rule assms(3))
qed

lemma reschedule_top:
  assumes "wf key q" "distinct q" "\<And>e. e \<noteq> hd q \<Longrightarrow> key' e = key e" "e \<in> set q"
  shows "key' (hd (resink key' q)) \<le> key' e"
  using top_least [OF reschedule_wf [OF assms(1,2,3)]] assms(4) by simp

end

interpretation sched_heap: due_queue heap_init "\<lambda>key q. heap_fix key q 0" is_heap
proof unfold_locales
  fix key :: "'a \<Rightarrow> int" and q e
  assume q: "is_heap key q" and "e \<in> set q"
  then obtain j where "j < length q" "q ! j = e" by (auto simp: in_set_conv_nth)
  moreover from this have "q \<noteq> []" by auto
  ultimately show "key (hd q) \<le> key e"
    using is_heap_root [OF q] by (auto simp: hd_conv_nth)
qed (simp_all add: is_heap_init heap_init_mset is_heap_fix_root heap_fix_root_mset)

section \<open>Properties\<close>

text \<open>
  \<open>heap.Init\<close> permutes the entries and puts an entry with the earliest fire time at
  the top; after the top entry's fire time changes, \<open>heap.Fix\<close> at the root again permutes
  the entries, restores the heap order for the new times, and leaves the earliest entry at
  the top, whatever the new time is.
\<close>

theorem sched_heap_earliest:
  assumes "q = heap_init key es" "distinct es" "key' = key(hd q := t)" "q' = heap_fix key' q 0"
  shows "mset q = mset es \<and> mset q' = mset es \<and> is_heap key' q' \<and>
    (\<forall>e \<in> set es. key (hd q) \<le> key e \<and> key' (hd q') \<le> key' e)"
proof -
  have wf: "is_heap key q" and d: "distinct q" and s: "set q = set es"
    using assms(1,2) sched_heap.build_wf by simp_all
  have key': "\<And>e. e \<noteq> hd q \<Longrightarrow> key' e = key e" by (simp add: assms(3))
  have "is_heap key' q'" using sched_heap.reschedule_wf [OF wf d key'] by (simp add: assms(4))
  moreover have "mset q = mset es" "mset q' = mset es"
    by (simp_all add: assms(1,4) sched_heap.build_mset sched_heap.resink_mset)
  moreover have "key (hd q) \<le> key e \<and> key' (hd q') \<le> key' e" if "e \<in> set es" for e
    using that sched_heap.top_least [OF wf, of e] sched_heap.reschedule_top [OF wf d key', of e] s
    by (simp add: assms(4))
  ultimately show ?thesis by blast
qed

theorem sched_heap_earliest_witness:
  "\<exists>q q'. q = heap_init (\<lambda>i::nat. [50, 20, 30] ! i) [0, 1, 2] \<and> hd q = 1 \<and>
    q' = heap_fix ((\<lambda>i::nat. [50, 20, 30] ! i)(1 := 120)) q 0 \<and> mset q' = mset [0, 1, 2] \<and> hd q' = 2"
proof -
  let ?key = "\<lambda>i::nat. [50, 20, 30::int] ! i"
  have e: "heap_init ?key [0, 1, 2] = [1, 0, 2]" by code_simp
  have f: "heap_fix (?key(1 := 120)) [1, 0, 2] 0 = [2, 0, 1]" by code_simp
  have "mset (heap_fix (?key(1 := 120)) [1, 0, 2] 0) = mset [0, 1, 2]"
    using sched_heap_earliest [of "[1, 0, 2]" ?key "[0, 1, 2]" "?key(1 := 120)" 120] e by simp
  then show ?thesis using e f by simp
qed

end
