(* ===== verification/RunnerModel.thy ===== *)
theory RunnerModel
  imports Event Schedule Heap
begin

text \<open>
  runner/runner.go as a transition system. Run's goroutine (which is also the scheduler), the
  workers, the canceller of the context and the consumer of Results() interleave; one transition
  is what one goroutine does between two accesses to state that another goroutine can see (a
  channel, the context, an atomic). Entries are known by their index; a channel is the list of
  what it buffers. What the environment decides (the clock, the branch a select takes when several
  are ready, the outcome of Check.Run and Publish, the ULID) is the input of the transition.
  Each goroutine's transitions are executable functions; None is a goroutine that is blocked.
  Logging is left out; \<open>afterDone\<close>, a test hook that is nil in production, too.
\<close>

section \<open>Data\<close>

definition maxPublishAttempts :: nat where "maxPublishAttempts = 3"

definition ErrSkipped :: goerr where
  "ErrSkipped = Sentinel ''runner: slot skipped; prior run still in flight''"
definition ErrSkippedQueued :: goerr where
  "ErrSkippedQueued = Errorf ''%w: prior run queued behind a saturated pool'' [ErrSkipped]"
definition ErrShutdownTimeout :: goerr where
  "ErrShutdownTimeout = Sentinel ''runner: shutdown grace expired with runs still in flight''"

record result =
  ResTarget :: target
  ResErr :: "goerr option"

record entry =
  ent_t :: target
  ent_interval :: duration
  ent_phase :: duration
  ent_redacted :: string
  ent_next :: time
  ent_inflight :: bool
  ent_started :: bool

record 'u runner =
  enc :: "'u encoder option"
  encErr :: "goerr option"
  entries :: "entry list"
  interval :: duration
  concurrency :: nat
  results :: "result list"
  results_cap :: nat
  results_closed :: bool
  skipped :: int
  dropped :: int
  lastDropWarn :: int
  running :: bool
  grace :: duration

section \<open>New\<close>

type_synonym 'u runner_option = "'u runner \<Rightarrow> 'u runner"

definition WithShutdownGrace :: "duration \<Rightarrow> 'u runner_option" where
  "WithShutdownGrace d = (\<lambda>r. r\<lparr>grace := d\<rparr>)"

definition new_entry :: "duration \<Rightarrow> target \<Rightarrow> entry option" where
  "new_entry iv0 t =
     (let iv = (if Interval t \<le> 0 then iv0 else Interval t)
      in case phaseOf (URL t) iv of None \<Rightarrow> None
         | Some ph \<Rightarrow> Some \<lparr>ent_t = t, ent_interval = iv, ent_phase = ph,
             ent_redacted = RedactURL (URL t), ent_next = 0, ent_inflight = False, ent_started = False\<rparr>)"

definition clamp_concurrency :: "int \<Rightarrow> nat \<Rightarrow> nat" where
  "clamp_concurrency conc n =
     (let c = (if conc < 1 then 1 else conc)
      in if c > int n \<and> n > 0 then n else nat c)"

text \<open>None is the panic on a default interval that is not positive.\<close>

definition New ::
    "('p, 'u) sdk \<Rightarrow> config \<Rightarrow> target list \<Rightarrow> duration \<Rightarrow> int \<Rightarrow> 'u runner_option list \<Rightarrow> 'u runner option" where
  "New k evtCfg targets iv0 conc opts =
     (if iv0 \<le> 0 then None
      else case those (map (new_entry iv0) targets) of None \<Rightarrow> None
      | Some es \<Rightarrow>
          (let r = \<lparr>enc = (case NewEncoder k evtCfg of Inl _ \<Rightarrow> None | Inr e \<Rightarrow> Some e),
                    encErr = (case NewEncoder k evtCfg of Inl err \<Rightarrow> Some err | Inr _ \<Rightarrow> None),
                    entries = es, interval = iv0,
                    concurrency = clamp_concurrency conc (length targets),
                    results = [], results_cap = 2 * length targets + 1, results_closed = False,
                    skipped = 0, dropped = 0, lastDropWarn = 0, running = False, grace = 0\<rparr>
           in Some (foldl (\<lambda>r opt. opt r) r opts)))"

section \<open>Goroutines\<close>

text \<open>
  Where a call of \<open>reportResult\<close> is: about to try the send, about to count the drop, about to
  read the clock, about to load the last warning's stamp, about to swap it.
\<close>

datatype rpc =
    RpSend result
  | RpDrop result
  | RpClock result
  | RpLoad result int
  | RpCas result int int

text \<open>Where Run's goroutine is: the scheduler's loop, then Run's own shutdown.\<close>

datatype spc =
    SInit                   \<comment> \<open>about to read the clock and build the heap\<close>
  | SIdle                   \<comment> \<open>no targets: waiting for the context\<close>
  | SDrain                  \<comment> \<open>top of the lap, in drainDone\<close>
  | SPeek                   \<comment> \<open>about to read the clock and judge the heap top\<close>
  | SWait                   \<comment> \<open>select on the context, done and the timer\<close>
  | SSkip time              \<comment> \<open>in skip, about to load started\<close>
  | SReport time rpc        \<comment> \<open>in skip's reportResult\<close>
  | SDispatch time          \<comment> \<open>select on work and the context\<close>
  | SAdvance time           \<comment> \<open>about to move the top to its next slot\<close>
  | SReturned goerr         \<comment> \<open>schedule has returned; about to close work\<close>
  | RWait goerr             \<comment> \<open>in wg.Wait, no grace\<close>
  | RGrace goerr            \<comment> \<open>select on finished and the grace timer\<close>
  | RReturned goerr         \<comment> \<open>Run has returned\<close>

datatype 'u wpc =
    WIdle                   \<comment> \<open>receiving from work\<close>
  | WGot nat                \<comment> \<open>about to look at the context\<close>
  | WStart nat              \<comment> \<open>about to set started\<close>
  | WCheck nat              \<comment> \<open>in Check.Run\<close>
  | WEncode nat observation \<comment> \<open>in Encode\<close>
  | WPublish nat "'u event" nat        \<comment> \<open>in Publish, with the attempt\<close>
  | WBackoff nat "'u event" nat goerr  \<comment> \<open>select on the context and the back-off timer\<close>
  | WReport nat rpc         \<comment> \<open>in reportResult\<close>
  | WAck nat                \<comment> \<open>about to send on done\<close>
  | WExit

record 'u sys = "'u runner" +
  heap :: "nat list"
  spc :: spc
  workers :: "'u wpc list"
  work :: "nat list"
  work_closed :: bool
  done_ch :: "nat list"
  ctx_err :: "goerr option"
  panicked :: bool

datatype choice = OnContext | OnTimer | OnChannel

datatype input =
    NoInput
  | Clock time
  | Choose choice
  | CheckReturns "goerr + observation"
  | FreshID string
  | PublishReturns "goerr option"

text \<open>What a transition did that an observer can count.\<close>

datatype ev =
    EvSlot nat time         \<comment> \<open>the scheduler processes a slot of the entry, at the clock's reading\<close>
  | EvSkip nat goerr        \<comment> \<open>that slot is skipped\<close>
  | EvDispatch nat          \<comment> \<open>that slot is sent to the pool\<close>
  | EvAbandon nat           \<comment> \<open>that slot's dispatch is given up for the context\<close>
  | EvCancelled nat         \<comment> \<open>a worker acks the entry without running it\<close>
  | EvStart nat             \<comment> \<open>a worker starts the run\<close>
  | EvPublish nat           \<comment> \<open>a call of Publish\<close>
  | EvDone nat "goerr option"  \<comment> \<open>the run is over, with its outcome\<close>
  | EvSent nat result       \<comment> \<open>a Result is put on the channel\<close>
  | EvDropped nat result    \<comment> \<open>a Result is dropped\<close>
  | EvWarn int              \<comment> \<open>the drop warning, with its stamp\<close>
  | EvRecv result           \<comment> \<open>the consumer receives a Result\<close>

section \<open>reportResult\<close>

text \<open>\<open>Time.UnixNano\<close>: nanoseconds since 1970, an int64.\<close>

definition unix_nano :: "time \<Rightarrow> int" where
  "unix_nano t = wrap64 (t - 62135596800 * Second)"

text \<open>A send on a closed channel panics, also as a case of a select.\<close>

fun report_step ::
    "nat \<Rightarrow> rpc \<Rightarrow> input \<Rightarrow> 'u sys \<Rightarrow> (rpc option \<times> 'u sys \<times> ev list) option" where
  "report_step i (RpSend res) NoInput s =
     (if results_closed s then Some (None, s\<lparr>panicked := True\<rparr>, [])
      else if length (results s) < results_cap s
      then Some (None, s\<lparr>results := results s @ [res]\<rparr>, [EvSent i res])
      else Some (Some (RpDrop res), s, []))"
| "report_step i (RpDrop res) NoInput s =
     Some (Some (RpClock res), s\<lparr>dropped := wrap64 (dropped s + 1)\<rparr>, [EvDropped i res])"
| "report_step i (RpClock res) (Clock t) s = Some (Some (RpLoad res (unix_nano t)), s, [])"
| "report_step i (RpLoad res now) NoInput s =
     (let prev = lastDropWarn s
      in if prev = 0 \<or> interval s \<le> wrap64 (now - prev) \<or> now < prev
         then Some (Some (RpCas res now prev), s, []) else Some (None, s, []))"
| "report_step i (RpCas res now prev) NoInput s =
     (if lastDropWarn s = prev then Some (None, s\<lparr>lastDropWarn := now\<rparr>, [EvWarn now])
      else Some (None, s, []))"
| "report_step i rp inp s = None"

section \<open>The scheduler\<close>

definition upd_entry :: "nat \<Rightarrow> (entry \<Rightarrow> entry) \<Rightarrow> 'u sys \<Rightarrow> 'u sys" where
  "upd_entry i f s = s\<lparr>entries := (entries s)[i := f (entries s ! i)]\<rparr>"

definition next_of :: "'u sys \<Rightarrow> nat \<Rightarrow> time" where
  "next_of s i = ent_next (entries s ! i)"

definition htop :: "'u sys \<Rightarrow> nat" where "htop s = hd (heap s)"

definition finish :: "nat \<Rightarrow> 'u sys \<Rightarrow> 'u sys" where
  "finish i s = upd_entry i (\<lambda>e. e\<lparr>ent_inflight := False, ent_started := False\<rparr>) s"

text \<open>The first clock reading, every entry's first slot, heap.Init.\<close>

definition init_step :: "time \<Rightarrow> 'u sys \<Rightarrow> 'u sys" where
  "init_step now s =
     (let s = s\<lparr>entries := map (\<lambda>e. e\<lparr>ent_next := slotAfter now (ent_interval e) (ent_phase e)\<rparr>) (entries s)\<rparr>;
          s = s\<lparr>heap := heap_init (next_of s) [0 ..< length (entries s)]\<rparr>
      in s\<lparr>spc := if heap s = [] then SIdle else SDrain\<rparr>)"

text \<open>One iteration of \<open>drainDone\<close>.\<close>

definition drain_step :: "'u sys \<Rightarrow> 'u sys" where
  "drain_step s =
     (case done_ch s of [] \<Rightarrow> s\<lparr>spc := SPeek\<rparr>
      | i # q \<Rightarrow> finish i (s\<lparr>done_ch := q\<rparr>))"

definition stale :: "time \<Rightarrow> entry \<Rightarrow> bool" where
  "stale now e \<longleftrightarrow> ent_interval e < time_sub (ent_next e) now"

definition reanchor :: "time \<Rightarrow> 'u sys \<Rightarrow> 'u sys" where
  "reanchor now s =
     (let s = s\<lparr>entries := map (\<lambda>e. if stale now e
            then e\<lparr>ent_next := slotAfter now (ent_interval e) (ent_phase e)\<rparr> else e) (entries s)\<rparr>
      in s\<lparr>heap := heap_init (next_of s) (heap s)\<rparr>)"

definition peek_step :: "time \<Rightarrow> 'u sys \<Rightarrow> 'u sys \<times> ev list" where
  "peek_step now s =
     (let i = htop s; e = entries s ! i
      in if stale now e then ((reanchor now s)\<lparr>spc := SDrain\<rparr>, [])
         else if time_sub (ent_next e) now > 0 then (s\<lparr>spc := SWait\<rparr>, [])
         else if ent_inflight e
         then (s\<lparr>skipped := wrap64 (skipped s + 1), spc := SSkip now\<rparr>, [EvSlot i now])
         else (upd_entry i (\<lambda>e. e\<lparr>ent_inflight := True\<rparr>) (s\<lparr>spc := SDispatch now\<rparr>), [EvSlot i now]))"

definition wait_step :: "choice \<Rightarrow> 'u sys \<Rightarrow> 'u sys option" where
  "wait_step c s =
     (case c of
        OnContext \<Rightarrow> map_option (\<lambda>err. s\<lparr>spc := SReturned err\<rparr>) (ctx_err s)
      | OnChannel \<Rightarrow> (case done_ch s of [] \<Rightarrow> None
          | i # q \<Rightarrow> Some (finish i (s\<lparr>done_ch := q, spc := SDrain\<rparr>)))
      | OnTimer \<Rightarrow> Some (s\<lparr>spc := SDrain\<rparr>))"

definition skip_step :: "time \<Rightarrow> 'u sys \<Rightarrow> 'u sys \<times> ev list" where
  "skip_step now s =
     (let e = entries s ! htop s; err = (if ent_started e then ErrSkipped else ErrSkippedQueued)
      in (s\<lparr>spc := SReport now (RpSend \<lparr>ResTarget = ent_t e, ResErr = Some err\<rparr>)\<rparr>, [EvSkip (htop s) err]))"

definition dispatch_step :: "choice \<Rightarrow> time \<Rightarrow> 'u sys \<Rightarrow> ('u sys \<times> ev list) option" where
  "dispatch_step c now s =
     (case c of
        OnContext \<Rightarrow> map_option (\<lambda>err. (s\<lparr>spc := SReturned err\<rparr>, [EvAbandon (htop s)])) (ctx_err s)
      | OnChannel \<Rightarrow>
          if work_closed s then Some (s\<lparr>panicked := True\<rparr>, [])
          else if length (work s) < length (entries s)
          then Some (s\<lparr>work := work s @ [htop s], spc := SAdvance now\<rparr>, [EvDispatch (htop s)])
          else None
      | OnTimer \<Rightarrow> None)"

definition advance_step :: "time \<Rightarrow> 'u sys \<Rightarrow> 'u sys" where
  "advance_step now s =
     (let s = upd_entry (htop s) (\<lambda>e. e\<lparr>ent_next :=
            advance_next now (ent_next e) (ent_interval e) (ent_phase e)\<rparr>) s
      in s\<lparr>heap := heap_fix (next_of s) (heap s) 0, spc := SDrain\<rparr>)"

section \<open>Run after schedule\<close>

fun has_exited :: "'u wpc \<Rightarrow> bool" where
  "has_exited WExit = True"
| "has_exited p = False"

definition all_exited :: "'u sys \<Rightarrow> bool" where
  "all_exited s \<longleftrightarrow> list_all has_exited (workers s)"

definition close_work :: "goerr \<Rightarrow> 'u sys \<Rightarrow> 'u sys" where
  "close_work err s =
     (if work_closed s then s\<lparr>panicked := True\<rparr>
      else s\<lparr>work_closed := True, spc := if grace s \<le> 0 then RWait err else RGrace err\<rparr>)"

definition close_results :: "goerr \<Rightarrow> 'u sys \<Rightarrow> 'u sys" where
  "close_results err s =
     (if results_closed s then s\<lparr>panicked := True\<rparr>
      else s\<lparr>results_closed := True, spc := RReturned err\<rparr>)"

definition grace_step :: "choice \<Rightarrow> goerr \<Rightarrow> 'u sys \<Rightarrow> 'u sys option" where
  "grace_step c err s =
     (case c of
        OnChannel \<Rightarrow> if all_exited s then Some (close_results err s) else None
      | OnTimer \<Rightarrow> Some (s\<lparr>spc := RReturned (errors_Join [err, ErrShutdownTimeout])\<rparr>)
      | OnContext \<Rightarrow> None)"

text \<open>One transition of Run's goroutine.\<close>

fun sched_step :: "input \<Rightarrow> 'u sys \<Rightarrow> ('u sys \<times> ev list) option" where
  "sched_step inp s =
     (case (spc s, inp) of
        (SInit, Clock now) \<Rightarrow> Some (init_step now s, [])
      | (SIdle, Choose OnContext) \<Rightarrow> map_option (\<lambda>err. (s\<lparr>spc := SReturned err\<rparr>, [])) (ctx_err s)
      | (SDrain, NoInput) \<Rightarrow> Some (drain_step s, [])
      | (SPeek, Clock now) \<Rightarrow> Some (peek_step now s)
      | (SWait, Choose c) \<Rightarrow> map_option (\<lambda>s'. (s', [])) (wait_step c s)
      | (SSkip now, NoInput) \<Rightarrow> Some (skip_step now s)
      | (SReport now rp, inp) \<Rightarrow>
          map_option (\<lambda>(rp', s', evs). (s'\<lparr>spc := (case rp' of None \<Rightarrow> SAdvance now | Some rp' \<Rightarrow> SReport now rp')\<rparr>, evs))
            (report_step (htop s) rp inp s)
      | (SDispatch now, Choose c) \<Rightarrow> dispatch_step c now s
      | (SAdvance now, NoInput) \<Rightarrow> Some (advance_step now s, [])
      | (SReturned err, NoInput) \<Rightarrow> Some (close_work err s, [])
      | (RWait err, NoInput) \<Rightarrow> (if all_exited s then Some (close_results err s, []) else None)
      | (RGrace err, Choose c) \<Rightarrow> map_option (\<lambda>s'. (s', [])) (grace_step c err s)
      | _ \<Rightarrow> None)"

declare sched_step.simps [simp del]

section \<open>The workers\<close>

definition set_worker :: "nat \<Rightarrow> 'u wpc \<Rightarrow> 'u sys \<Rightarrow> 'u sys" where
  "set_worker w p s = s\<lparr>workers := (workers s)[w := p]\<rparr>"

text \<open>The end of \<open>runOne\<close>: report the run's outcome.\<close>

definition report_run :: "nat \<Rightarrow> nat \<Rightarrow> goerr option \<Rightarrow> 'u sys \<Rightarrow> 'u sys \<times> ev list" where
  "report_run w i err s =
     (set_worker w (WReport i (RpSend \<lparr>ResTarget = ent_t (entries s ! i), ResErr = err\<rparr>)) s, [EvDone i err])"

text \<open>The loop of \<open>worker\<close>: receive, look at the context, set started, ack.\<close>

definition recv_work :: "nat \<Rightarrow> 'u sys \<Rightarrow> ('u sys \<times> ev list) option" where
  "recv_work w s =
     (case work s of
        i # q \<Rightarrow> Some (set_worker w (WGot i) (s\<lparr>work := q\<rparr>), [])
      | [] \<Rightarrow> if work_closed s then Some (set_worker w WExit s, []) else None)"

definition check_ctx :: "nat \<Rightarrow> nat \<Rightarrow> 'u sys \<Rightarrow> 'u sys \<times> ev list" where
  "check_ctx w i s =
     (if ctx_err s = None then (set_worker w (WStart i) s, []) else (set_worker w (WAck i) s, [EvCancelled i]))"

definition start_run :: "nat \<Rightarrow> nat \<Rightarrow> 'u sys \<Rightarrow> 'u sys \<times> ev list" where
  "start_run w i s =
     (set_worker w (WCheck i) (upd_entry i (\<lambda>e. e\<lparr>ent_started := True\<rparr>) s), [EvStart i])"

definition send_ack :: "nat \<Rightarrow> nat \<Rightarrow> 'u sys \<Rightarrow> ('u sys \<times> ev list) option" where
  "send_ack w i s =
     (if length (done_ch s) < length (entries s)
      then Some (set_worker w WIdle (s\<lparr>done_ch := done_ch s @ [i]\<rparr>), []) else None)"

text \<open>The steps of \<open>runOne\<close>: check, encode, then the bounded publish loop.\<close>

definition check_returns :: "nat \<Rightarrow> nat \<Rightarrow> goerr + observation \<Rightarrow> 'u sys \<Rightarrow> 'u sys \<times> ev list" where
  "check_returns w i out s =
     (case out of Inl err \<Rightarrow> report_run w i (Some err) s
      | Inr obs \<Rightarrow> (set_worker w (WEncode i obs) s, []))"

definition encode_obs ::
    "('p, 'u) sdk \<Rightarrow> nat \<Rightarrow> nat \<Rightarrow> string \<Rightarrow> observation \<Rightarrow> 'u sys \<Rightarrow> 'u sys \<times> ev list" where
  "encode_obs k w i uid obs s =
     (case Encode k uid (enc s) obs of
        (_, Some err) \<Rightarrow> report_run w i (Some err) s
      | (e, None) \<Rightarrow> (set_worker w (WPublish i e 0) s, []))"

definition publish_returns ::
    "nat \<Rightarrow> nat \<Rightarrow> 'u event \<Rightarrow> nat \<Rightarrow> goerr option \<Rightarrow> 'u sys \<Rightarrow> 'u sys \<times> ev list" where
  "publish_returns w i e attempt out s =
     (case out of
        None \<Rightarrow> (case report_run w i None s of (s', evs) \<Rightarrow> (s', EvPublish i # evs))
      | Some err \<Rightarrow>
          if attempt = maxPublishAttempts - 1
          then (case report_run w i (Some err) s of (s', evs) \<Rightarrow> (s', EvPublish i # evs))
          else (set_worker w (WBackoff i e attempt err) s, [EvPublish i]))"

definition backoff ::
    "nat \<Rightarrow> nat \<Rightarrow> 'u event \<Rightarrow> nat \<Rightarrow> goerr \<Rightarrow> choice \<Rightarrow> 'u sys \<Rightarrow> ('u sys \<times> ev list) option" where
  "backoff w i e attempt err c s =
     (case c of
        OnContext \<Rightarrow> if ctx_err s = None then None else Some (report_run w i (Some err) s)
      | OnTimer \<Rightarrow> if attempt + 1 < maxPublishAttempts
          then Some (set_worker w (WPublish i e (attempt + 1)) s, [])
          else Some (report_run w i (Some err) s)
      | OnChannel \<Rightarrow> None)"

text \<open>One transition of worker \<open>w\<close>.\<close>

fun worker_step :: "('p, 'u) sdk \<Rightarrow> nat \<Rightarrow> input \<Rightarrow> 'u sys \<Rightarrow> ('u sys \<times> ev list) option" where
  "worker_step k w inp s =
     (case (workers s ! w, inp) of
        (WIdle, NoInput) \<Rightarrow> recv_work w s
      | (WGot i, NoInput) \<Rightarrow> Some (check_ctx w i s)
      | (WStart i, NoInput) \<Rightarrow> Some (start_run w i s)
      | (WCheck i, CheckReturns out) \<Rightarrow> Some (check_returns w i out s)
      | (WEncode i obs, FreshID uid) \<Rightarrow> Some (encode_obs k w i uid obs s)
      | (WPublish i e a, PublishReturns out) \<Rightarrow> Some (publish_returns w i e a out s)
      | (WBackoff i e a err, Choose c) \<Rightarrow> backoff w i e a err c s
      | (WReport i rp, inp) \<Rightarrow>
          map_option (\<lambda>(rp', s', evs). (set_worker w (case rp' of None \<Rightarrow> WAck i | Some rp' \<Rightarrow> WReport i rp') s', evs))
            (report_step i rp inp s)
      | (WAck i, NoInput) \<Rightarrow> send_ack w i s
      | _ \<Rightarrow> None)"

declare worker_step.simps [simp del]

section \<open>Run\<close>

definition launch :: "'u runner \<Rightarrow> goerr option \<Rightarrow> 'u sys" where
  "launch r ctx = runner.extend (r\<lparr>running := True\<rparr>)
     \<lparr>heap = [], spc = SInit, workers = replicate (concurrency r) WIdle,
      work = [], work_closed = False, done_ch = [], ctx_err = ctx, panicked = False\<rparr>"

text \<open>
  A call of Run: the error it returns at once (with the Runner afterwards, None after a panic), or the
  running system.
\<close>

definition Run :: "'u runner \<Rightarrow> goerr option \<Rightarrow> (goerr \<times> 'u runner option) + 'u sys" where
  "Run r ctx =
     (if running r
      then Inl (Sentinel ''runner: Run called more than once on the same Runner'', Some r)
      else case encErr r of
        Some err \<Rightarrow>
          Inl (Errorf ''runner: event config: %w'' [err],
               if results_closed r then None else Some (r\<lparr>running := True, results_closed := True\<rparr>))
      | None \<Rightarrow> Inr (launch r ctx))"

section \<open>Interleaving\<close>

datatype action = Sched input | Worker nat input | Cancel goerr | Consume

text \<open>The context is cancelled once, at any time; the consumer receives whenever it wants to.\<close>

fun act :: "('p, 'u) sdk \<Rightarrow> action \<Rightarrow> 'u sys \<Rightarrow> ('u sys \<times> ev list) option" where
  "act k (Sched inp) s = sched_step inp s"
| "act k (Worker w inp) s = (if w < length (workers s) then worker_step k w inp s else None)"
| "act k (Cancel err) s = (if ctx_err s = None then Some (s\<lparr>ctx_err := Some err\<rparr>, []) else None)"
| "act k Consume s =
     (case results s of [] \<Rightarrow> None | r # rs \<Rightarrow> Some (s\<lparr>results := rs\<rparr>, [EvRecv r]))"

inductive step :: "('p, 'u) sdk \<Rightarrow> 'u sys \<Rightarrow> ev list \<Rightarrow> 'u sys \<Rightarrow> bool" for k where
  sched: "\<not> panicked s \<Longrightarrow> sched_step inp s = Some (s', evs) \<Longrightarrow> step k s evs s'"
| worker: "\<not> panicked s \<Longrightarrow> w < length (workers s) \<Longrightarrow> worker_step k w inp s = Some (s', evs) \<Longrightarrow>
    step k s evs s'"
| cancel: "\<not> panicked s \<Longrightarrow> ctx_err s = None \<Longrightarrow> step k s [] (s\<lparr>ctx_err := Some err\<rparr>)"
| consume: "\<not> panicked s \<Longrightarrow> results s = r # rs \<Longrightarrow> step k s [EvRecv r] (s\<lparr>results := rs\<rparr>)"

inductive exec :: "('p, 'u) sdk \<Rightarrow> 'u sys \<Rightarrow> ev list \<Rightarrow> 'u sys \<Rightarrow> bool" for k s0 where
  exec_refl: "exec k s0 [] s0"
| exec_step: "exec k s0 evs s \<Longrightarrow> step k s evs' s' \<Longrightarrow> exec k s0 (evs @ evs') s'"

text \<open>Running a given interleaving.\<close>

fun play :: "('p, 'u) sdk \<Rightarrow> action list \<Rightarrow> 'u sys \<Rightarrow> ('u sys \<times> ev list) option" where
  "play k [] s = Some (s, [])"
| "play k (a # as) s =
     (if panicked s then None
      else case act k a s of None \<Rightarrow> None
      | Some (s', evs) \<Rightarrow> map_option (\<lambda>(s'', evs'). (s'', evs @ evs')) (play k as s'))"

end
