(* ===== verification/RunnerInv.thy ===== *)
theory RunnerInv
  imports RunnerModel
begin

text \<open>
  The invariants of the runner: the static shape, the channels (nothing is sent on or closes a
  closed channel), and the token of each entry, which is in at most one place. Each transition is
  shown to keep each of them.
\<close>

section \<open>Frame rules\<close>

lemma upd_entry_fields [simp]:
  "entries (upd_entry i f s) = (entries s)[i := f (entries s ! i)]"
  "enc (upd_entry i f s) = enc s" "interval (upd_entry i f s) = interval s"
  "results (upd_entry i f s) = results s" "results_cap (upd_entry i f s) = results_cap s"
  "results_closed (upd_entry i f s) = results_closed s" "skipped (upd_entry i f s) = skipped s"
  "dropped (upd_entry i f s) = dropped s" "lastDropWarn (upd_entry i f s) = lastDropWarn s"
  "grace (upd_entry i f s) = grace s" "heap (upd_entry i f s) = heap s" "spc (upd_entry i f s) = spc s"
  "workers (upd_entry i f s) = workers s" "work (upd_entry i f s) = work s"
  "work_closed (upd_entry i f s) = work_closed s" "done_ch (upd_entry i f s) = done_ch s"
  "ctx_err (upd_entry i f s) = ctx_err s" "panicked (upd_entry i f s) = panicked s"
  by (simp_all add: upd_entry_def)

lemma finish_fields [simp]:
  "entries (finish i s) = (entries s)[i := (entries s ! i)\<lparr>ent_inflight := False, ent_started := False\<rparr>]"
  "enc (finish i s) = enc s" "interval (finish i s) = interval s"
  "results (finish i s) = results s" "results_cap (finish i s) = results_cap s"
  "results_closed (finish i s) = results_closed s" "skipped (finish i s) = skipped s"
  "dropped (finish i s) = dropped s" "lastDropWarn (finish i s) = lastDropWarn s"
  "grace (finish i s) = grace s" "heap (finish i s) = heap s" "spc (finish i s) = spc s"
  "workers (finish i s) = workers s" "work (finish i s) = work s"
  "work_closed (finish i s) = work_closed s" "done_ch (finish i s) = done_ch s"
  "ctx_err (finish i s) = ctx_err s" "panicked (finish i s) = panicked s"
  by (simp_all add: finish_def)

lemma set_worker_fields [simp]:
  "workers (set_worker w p s) = (workers s)[w := p]" "entries (set_worker w p s) = entries s"
  "enc (set_worker w p s) = enc s" "interval (set_worker w p s) = interval s"
  "results (set_worker w p s) = results s" "results_cap (set_worker w p s) = results_cap s"
  "results_closed (set_worker w p s) = results_closed s" "skipped (set_worker w p s) = skipped s"
  "dropped (set_worker w p s) = dropped s" "lastDropWarn (set_worker w p s) = lastDropWarn s"
  "grace (set_worker w p s) = grace s" "heap (set_worker w p s) = heap s" "spc (set_worker w p s) = spc s"
  "work (set_worker w p s) = work s" "work_closed (set_worker w p s) = work_closed s"
  "done_ch (set_worker w p s) = done_ch s" "ctx_err (set_worker w p s) = ctx_err s"
  "panicked (set_worker w p s) = panicked s"
  by (simp_all add: set_worker_def)

lemma reanchor_fields [simp]:
  "entries (reanchor now s) = map (\<lambda>e. if stale now e
     then e\<lparr>ent_next := slotAfter now (ent_interval e) (ent_phase e)\<rparr> else e) (entries s)"
  "enc (reanchor now s) = enc s" "interval (reanchor now s) = interval s"
  "results (reanchor now s) = results s" "results_cap (reanchor now s) = results_cap s"
  "results_closed (reanchor now s) = results_closed s" "skipped (reanchor now s) = skipped s"
  "dropped (reanchor now s) = dropped s" "lastDropWarn (reanchor now s) = lastDropWarn s"
  "grace (reanchor now s) = grace s" "spc (reanchor now s) = spc s"
  "workers (reanchor now s) = workers s" "work (reanchor now s) = work s"
  "work_closed (reanchor now s) = work_closed s" "done_ch (reanchor now s) = done_ch s"
  "ctx_err (reanchor now s) = ctx_err s" "panicked (reanchor now s) = panicked s"
  by (simp_all add: reanchor_def Let_def)

text \<open>\<open>reportResult\<close> touches the results channel, the drop count and the warning stamp only.\<close>

lemma report_step_frame:
  assumes "report_step i rp inp s = Some (rp', s', evs)"
  shows "entries s' = entries s" "heap s' = heap s" "spc s' = spc s" "workers s' = workers s"
    "work s' = work s" "work_closed s' = work_closed s" "done_ch s' = done_ch s" "ctx_err s' = ctx_err s"
    "enc s' = enc s" "interval s' = interval s" "results_cap s' = results_cap s" "grace s' = grace s"
    "results_closed s' = results_closed s" "skipped s' = skipped s" "concurrency s' = concurrency s"
    "\<not> results_closed s \<Longrightarrow> panicked s' = panicked s"
  using assms
  by (cases "(i, rp, inp, s)" rule: report_step.cases; auto simp: Let_def split: if_splits)+

lemmas sched_defs = init_step_def drain_step_def peek_step_def wait_step_def skip_step_def
  dispatch_step_def advance_step_def close_work_def close_results_def grace_step_def Let_def

lemmas worker_defs = recv_work_def check_ctx_def start_run_def send_ack_def check_returns_def
  encode_obs_def publish_returns_def backoff_def report_run_def

text \<open>A transition of Run's goroutine, by where it is.\<close>

lemma sched_step_cases [consumes 1]:
  assumes step: "sched_step inp s = Some (s', evs)"
  obtains (init) now where "spc s = SInit" "s' = init_step now s" "evs = []"
  | (idle) err where "spc s = SIdle" "ctx_err s = Some err" "s' = s\<lparr>spc := SReturned err\<rparr>" "evs = []"
  | (drain) "spc s = SDrain" "s' = drain_step s" "evs = []"
  | (peek) now where "spc s = SPeek" "peek_step now s = (s', evs)"
  | (wait) c where "spc s = SWait" "wait_step c s = Some s'" "evs = []"
  | (skip) now where "spc s = SSkip now" "skip_step now s = (s', evs)"
  | (report) now rp rp' t where "spc s = SReport now rp" "report_step (htop s) rp inp s = Some (rp', t, evs)"
      "s' = t\<lparr>spc := (case rp' of None \<Rightarrow> SAdvance now | Some rp' \<Rightarrow> SReport now rp')\<rparr>"
  | (dispatch) c now where "spc s = SDispatch now" "dispatch_step c now s = Some (s', evs)"
  | (advance) now where "spc s = SAdvance now" "s' = advance_step now s" "evs = []"
  | (close) err where "spc s = SReturned err" "s' = close_work err s" "evs = []"
  | (all_done) err where "spc s = RWait err" "all_exited s" "s' = close_results err s" "evs = []"
  | (graced) c err where "spc s = RGrace err" "grace_step c err s = Some s'" "evs = []"
proof (cases "spc s")
  case SIdle
  obtain err where "ctx_err s = Some err" "s' = s\<lparr>spc := SReturned err\<rparr>" "evs = []"
    using step SIdle by (cases inp) (auto simp: sched_step.simps split: choice.splits)
  with SIdle show thesis by (rule idle)
next
  case (SReport now rp)
  then show thesis using step report by (auto simp: sched_step.simps)
next
  case (RWait err)
  then show thesis using step all_done by (cases inp) (auto simp: sched_step.simps split: if_splits)
next
  case (RGrace err)
  then show thesis using step graced by (cases inp) (auto simp: sched_step.simps)
next
  case (SDispatch now)
  then show thesis using step dispatch by (cases inp) (auto simp: sched_step.simps)
next
  case SWait
  then show thesis using step wait by (cases inp) (auto simp: sched_step.simps)
next
  case SInit
  then show thesis using step init by (cases inp) (auto simp: sched_step.simps)
next
  case SDrain
  then show thesis using step drain by (cases inp) (auto simp: sched_step.simps)
next
  case SPeek
  then show thesis using step peek by (cases inp) (auto simp: sched_step.simps)
next
  case (SSkip now)
  then show thesis using step skip by (cases inp) (auto simp: sched_step.simps)
next
  case (SAdvance now)
  then show thesis using step advance by (cases inp) (auto simp: sched_step.simps)
next
  case (SReturned err)
  then show thesis using step close by (cases inp) (auto simp: sched_step.simps)
next
  case (RReturned err)
  then show thesis using step by (simp add: sched_step.simps)
qed

lemma worker_step_cases [consumes 1]:
  assumes "worker_step k w inp s = Some (s', evs)"
  obtains (recv) "workers s ! w = WIdle" "recv_work w s = Some (s', evs)"
  | (ctx) i where "workers s ! w = WGot i" "check_ctx w i s = (s', evs)"
  | (start) i where "workers s ! w = WStart i" "start_run w i s = (s', evs)"
  | (check) i out where "workers s ! w = WCheck i" "check_returns w i out s = (s', evs)"
  | (encode) i obs uid where "workers s ! w = WEncode i obs" "encode_obs k w i uid obs s = (s', evs)"
  | (publish) i e a out where "workers s ! w = WPublish i e a" "publish_returns w i e a out s = (s', evs)"
  | (backoff) i e a err c where "workers s ! w = WBackoff i e a err" "backoff w i e a err c s = Some (s', evs)"
  | (report) i rp rp' t where "workers s ! w = WReport i rp" "report_step i rp inp s = Some (rp', t, evs)"
      "s' = set_worker w (case rp' of None \<Rightarrow> WAck i | Some rp' \<Rightarrow> WReport i rp') t"
  | (ack) i where "workers s ! w = WAck i" "send_ack w i s = Some (s', evs)"
proof (cases "workers s ! w")
  case (WReport i rp)
  then show thesis using assms report by (auto simp: worker_step.simps)
qed (use assms recv ctx start check encode publish backoff ack in
  \<open>cases inp; auto simp: worker_step.simps\<close>)+

text \<open>What a worker's transition leaves alone, and that \<open>started\<close> is all it sets in an entry.\<close>

definition same_plan :: "entry \<Rightarrow> entry \<Rightarrow> bool" where
  "same_plan e e' \<longleftrightarrow> ent_t e' = ent_t e \<and> ent_interval e' = ent_interval e \<and> ent_phase e' = ent_phase e \<and>
     ent_next e' = ent_next e \<and> ent_inflight e' = ent_inflight e"

lemma same_plan_refl [simp]: "same_plan e e"
  by (simp add: same_plan_def)

lemma worker_frame_conj:
  assumes "worker_step k w inp s = Some (s', evs)"
  shows "heap s' = heap s \<and> spc s' = spc s \<and> work_closed s' = work_closed s \<and> ctx_err s' = ctx_err s \<and>
    enc s' = enc s \<and> interval s' = interval s \<and> results_cap s' = results_cap s \<and> grace s' = grace s \<and>
    results_closed s' = results_closed s \<and> skipped s' = skipped s \<and>
    length (workers s') = length (workers s) \<and> list_all2 same_plan (entries s) (entries s')"
  using assms
proof (cases rule: worker_step_cases)
  case (start i)
  then show ?thesis
    by (auto simp: start_run_def same_plan_def intro!: list_all2_upd)
next
  case (report i rp rp' t)
  then show ?thesis using report_step_frame [OF report(2)]
    by (simp add: list_all2_same)
qed (auto simp: worker_defs list_all2_same
      split: list.splits if_splits option.splits sum.splits choice.splits prod.splits)

lemma worker_frame:
  assumes "worker_step k w inp s = Some (s', evs)"
  shows "heap s' = heap s" "spc s' = spc s" "work_closed s' = work_closed s" "ctx_err s' = ctx_err s"
    "enc s' = enc s" "interval s' = interval s" "results_cap s' = results_cap s" "grace s' = grace s"
    "results_closed s' = results_closed s" "skipped s' = skipped s"
    "length (workers s') = length (workers s)" "length (entries s') = length (entries s)"
    "list_all2 same_plan (entries s) (entries s')"
  using worker_frame_conj [OF assms] by (auto dest: list_all2_lengthD)

section \<open>Shape\<close>

definition wf_entry :: "entry \<Rightarrow> bool" where
  "wf_entry e \<longleftrightarrow> 0 < ent_interval e \<and> ent_interval e \<le> max64 \<and>
     0 \<le> ent_phase e \<and> ent_phase e < ent_interval e"

text \<open>What New fixes: targets, cadence and the capacity of Results().\<close>

definition shape :: "target list \<Rightarrow> 'u sys \<Rightarrow> bool" where
  "shape ts s \<longleftrightarrow> map ent_t (entries s) = ts \<and> list_all wf_entry (entries s) \<and>
     results_cap s = 2 * length ts + 1 \<and> 0 < interval s \<and> length (results s) \<le> results_cap s"

lemma shape_length: "shape ts s \<Longrightarrow> length (entries s) = length ts"
  by (auto simp: shape_def)

section \<open>Channels\<close>

fun scheduling :: "spc \<Rightarrow> bool" where
  "scheduling (SReturned err) = False"
| "scheduling (RWait err) = False"
| "scheduling (RGrace err) = False"
| "scheduling (RReturned err) = False"
| "scheduling pc = True"

fun work_sealed :: "spc \<Rightarrow> bool" where
  "work_sealed (RWait err) = True"
| "work_sealed (RGrace err) = True"
| "work_sealed (RReturned err) = True"
| "work_sealed pc = False"

definition timed_out :: "goerr \<Rightarrow> bool" where
  "timed_out err \<longleftrightarrow> (\<exists>e. err = errors_Join [e, ErrShutdownTimeout])"

text \<open>
  No goroutine has panicked; Results() is closed only once Run returns and every worker has
  exited; work is closed exactly from the end of schedule on; a worker exits only when work is
  closed and empty; and Run returns with Results() open only after the grace.
\<close>

definition chan_inv :: "'u sys \<Rightarrow> bool" where
  "chan_inv s \<longleftrightarrow> \<not> panicked s \<and>
     (results_closed s \<longrightarrow> (\<exists>err. spc s = RReturned err) \<and> all_exited s) \<and>
     (work_closed s \<longleftrightarrow> work_sealed (spc s)) \<and>
     (WExit \<in> set (workers s) \<longrightarrow> work_closed s \<and> work s = []) \<and>
     (\<forall>err. spc s = RReturned err \<longrightarrow> results_closed s \<or> timed_out err)"

lemma has_exited_iff [simp]: "has_exited p \<longleftrightarrow> p = WExit"
  by (cases p) simp_all

lemma all_exited_conv: "all_exited s \<longleftrightarrow> set (workers s) \<subseteq> {WExit}"
  by (auto simp: all_exited_def list_all_iff)

lemma all_exited_worker: "all_exited s \<Longrightarrow> w < length (workers s) \<Longrightarrow> workers s ! w = WExit"
  by (auto simp: all_exited_def list_all_length)

lemma exited_worker_stuck: "workers s ! w = WExit \<Longrightarrow> worker_step k w inp s = None"
  by (simp add: worker_step.simps)

lemma set_update_exit: "WExit \<in> set (ws[w := p]) \<Longrightarrow> p \<noteq> WExit \<Longrightarrow> WExit \<in> set ws"
  using set_update_subset_insert [of ws w p] by auto

lemma chan_inv_worker:
  assumes inv: "chan_inv s" and w: "w < length (workers s)"
    and step: "worker_step k w inp s = Some (s', evs)"
  shows "chan_inv s'"
proof -
  have open_: "\<not> results_closed s"
    using inv w step exited_worker_stuck [of s w k inp] all_exited_worker [of s w]
    by (auto simp: chan_inv_def)
  have "\<not> panicked s'"
    using step inv open_
    by (cases rule: worker_step_cases)
      (auto simp: worker_defs chan_inv_def split: list.splits if_splits option.splits sum.splits
        choice.splits prod.splits dest: report_step_frame(16))
  moreover have "WExit \<in> set (workers s') \<longrightarrow> work_closed s' \<and> work s' = []"
    using step inv
    by (cases rule: worker_step_cases)
      (auto simp: worker_defs chan_inv_def report_step_frame split: list.splits if_splits option.splits sum.splits
        choice.splits prod.splits dest!: set_update_exit)
  ultimately show ?thesis using inv open_ worker_frame [OF step] by (simp add: chan_inv_def)
qed

lemma chan_inv_sched:
  assumes inv: "chan_inv s" and step: "sched_step inp s = Some (s', evs)"
  shows "chan_inv s'"
  using step inv
proof (cases rule: sched_step_cases)
  case (report now rp rp' t)
  then have "\<not> results_closed s" using inv by (auto simp: chan_inv_def)
  then show ?thesis using report inv report_step_frame [OF report(2)]
    by (auto simp: chan_inv_def split: option.splits)
qed (auto simp: sched_defs chan_inv_def timed_out_def all_exited_def
      split: list.splits if_splits option.splits choice.splits)

end
