(* ===== verification/RunnerPlan.thy ===== *)
theory RunnerPlan
  imports RunnerInv
begin

text \<open>
  The scheduler's own state: the static shape of the runner, the heap of due times, and every
  entry's place on its grid of slots. The slot function and the queue are used through their
  contracts (\<open>slots\<close>, \<open>sched_heap\<close>).
\<close>

section \<open>The shape is kept\<close>

lemma report_step_results:
  assumes "report_step i rp inp s = Some (rp', s', evs)" "length (results s) \<le> results_cap s"
  shows "length (results s') \<le> results_cap s'"
  using assms by (cases "(i, rp, inp, s)" rule: report_step.cases) (auto simp: Let_def split: if_splits)

lemma same_plan_shape:
  assumes "list_all2 same_plan es es'"
  shows "map ent_t es' = map ent_t es" "list_all wf_entry es \<Longrightarrow> list_all wf_entry es'"
  using assms by (induction rule: list_all2_induct) (auto simp: same_plan_def wf_entry_def)

lemma worker_results:
  assumes "worker_step k w inp s = Some (s', evs)" "length (results s) \<le> results_cap s"
  shows "length (results s') \<le> results_cap s'"
  using assms(1)
proof (cases rule: worker_step_cases)
  case (report i rp rp' t)
  then show ?thesis using report_step_results [OF report(2) assms(2)] by simp
qed (use assms(2) in \<open>auto simp: worker_defs
      split: list.splits if_splits option.splits sum.splits choice.splits prod.splits\<close>)

lemma shape_worker:
  assumes "shape ts s" "worker_step k w inp s = Some (s', evs)"
  shows "shape ts s'"
  using assms same_plan_shape [OF worker_frame(13) [OF assms(2)]] worker_results [OF assms(2)]
    worker_frame(6,7) [OF assms(2)]
  by (simp add: shape_def)

definition same_static :: "entry \<Rightarrow> entry \<Rightarrow> bool" where
  "same_static e e' \<longleftrightarrow> ent_t e' = ent_t e \<and> ent_interval e' = ent_interval e \<and> ent_phase e' = ent_phase e"

lemma same_static_simps [simp]:
  "same_static e e" "same_static e (e\<lparr>ent_next := t\<rparr>)" "same_static e (e\<lparr>ent_inflight := b\<rparr>)"
  "same_static e (e\<lparr>ent_started := b\<rparr>)" "same_static e (e\<lparr>ent_inflight := b, ent_started := b'\<rparr>)"
  by (simp_all add: same_static_def)

lemma same_static_lists:
  assumes "list_all2 same_static es es'"
  shows "map ent_t es' = map ent_t es" "list_all wf_entry es \<Longrightarrow> list_all wf_entry es'"
  using assms by (induction rule: list_all2_induct) (auto simp: same_static_def wf_entry_def)

lemma list_all2_map_same: "(\<And>x. P x (f x)) \<Longrightarrow> list_all2 P xs (map f xs)"
  by (induction xs) simp_all

lemma sched_frame:
  assumes "sched_step inp s = Some (s', evs)"
  shows "results_cap s' = results_cap s \<and> interval s' = interval s \<and> grace s' = grace s \<and>
    enc s' = enc s \<and> ctx_err s' = ctx_err s \<and> workers s' = workers s \<and>
    list_all2 same_static (entries s) (entries s')"
  using assms
proof (cases rule: sched_step_cases)
  case (report now rp rp' t)
  then show ?thesis using report_step_frame [OF report(2)] by (simp add: list_all2_same)
qed (auto simp: sched_defs list_all2_same intro!: list_all2_upd list_all2_map_same
      split: list.splits if_splits option.splits choice.splits)

lemma sched_results:
  assumes "sched_step inp s = Some (s', evs)" "\<And>now rp. spc s \<noteq> SReport now rp"
  shows "results s' = results s"
  using assms
  by (cases rule: sched_step_cases)
    (auto simp: sched_defs split: list.splits if_splits option.splits choice.splits)

lemma shape_sched:
  assumes "shape ts s" "sched_step inp s = Some (s', evs)"
  shows "shape ts s'"
proof -
  have "length (results s') \<le> results_cap s'"
    using assms(2)
  proof (cases rule: sched_step_cases)
    case (report now rp rp' t)
    then show ?thesis using report_step_results [OF report(2)] assms(1) by (simp add: shape_def)
  qed (use assms sched_results [OF assms(2)] sched_frame [OF assms(2)] in \<open>auto simp: shape_def\<close>)
  then show ?thesis using assms(1) sched_frame [OF assms(2)] same_static_lists
    by (auto simp: shape_def)
qed

section \<open>Due times\<close>

text \<open>Where the lap has a due entry at the top, and the clock reading it was judged with.\<close>

fun judged :: "spc \<Rightarrow> time option" where
  "judged (SSkip now) = Some now"
| "judged (SReport now rp) = Some now"
| "judged (SDispatch now) = Some now"
| "judged (SAdvance now) = Some now"
| "judged pc = None"

fun lapping :: "spc \<Rightarrow> bool" where
  "lapping SInit = False"
| "lapping SIdle = False"
| "lapping pc = scheduling pc"

lemma lapping_not_init: "lapping pc \<Longrightarrow> pc \<noteq> SInit"
  by auto

lemma judged_lapping: "judged pc = Some now \<Longrightarrow> lapping pc"
  by (cases pc) simp_all

definition entry_on_grid :: "entry \<Rightarrow> bool" where
  "entry_on_grid e \<longleftrightarrow> on_grid (ent_interval e) (ent_phase e) (ent_next e)"

definition plan_inv :: "'u sys \<Rightarrow> bool" where
  "plan_inv s \<longleftrightarrow>
     (spc s \<noteq> SInit \<longrightarrow> mset (heap s) = mset [0 ..< length (entries s)] \<and>
        is_heap (next_of s) (heap s) \<and> list_all entry_on_grid (entries s)) \<and>
     (lapping (spc s) \<longrightarrow> entries s \<noteq> []) \<and>
     (\<forall>now. judged (spc s) = Some now \<longrightarrow> next_of s (htop s) \<le> now)"

lemma plan_invD:
  assumes "plan_inv s"
  shows "spc s \<noteq> SInit \<Longrightarrow> mset (heap s) = mset [0 ..< length (entries s)]"
    "spc s \<noteq> SInit \<Longrightarrow> is_heap (next_of s) (heap s)"
    "spc s \<noteq> SInit \<Longrightarrow> list_all entry_on_grid (entries s)"
    "lapping (spc s) \<Longrightarrow> entries s \<noteq> []"
    "judged (spc s) = Some now \<Longrightarrow> next_of s (htop s) \<le> now"
  using assms unfolding plan_inv_def by blast+

lemma heap_set:
  assumes "plan_inv s" "spc s \<noteq> SInit"
  shows "set (heap s) = {..<length (entries s)}" "distinct (heap s)"
proof -
  have m: "mset (heap s) = mset [0 ..< length (entries s)]" using plan_invD(1) assms .
  then have "distinct (heap s) \<longleftrightarrow> distinct [0 ..< length (entries s)]" by (rule mset_eq_imp_distinct_iff)
  then show "distinct (heap s)" by simp
  show "set (heap s) = {..<length (entries s)}" using mset_eq_setD [OF m] by (simp add: atLeast0LessThan)
qed

lemma top_valid:
  assumes "plan_inv s" "lapping (spc s)"
  shows "htop s < length (entries s)" "heap s \<noteq> []"
proof -
  have i: "spc s \<noteq> SInit" using assms(2) by (rule lapping_not_init)
  have "entries s \<noteq> []" using plan_invD(4) assms .
  then have "0 \<in> set (heap s)" using heap_set(1) [OF assms(1) i] by simp
  then show h: "heap s \<noteq> []" by (metis empty_iff list.set(1))
  then show "htop s < length (entries s)"
    using heap_set(1) [OF assms(1) i] hd_in_set [OF h] by (auto simp: htop_def)
qed


text \<open>The entry at the top is an earliest one.\<close>

lemma top_earliest:
  assumes "plan_inv s" "lapping (spc s)" "i < length (entries s)"
  shows "next_of s (htop s) \<le> next_of s i"
proof -
  have i: "spc s \<noteq> SInit" using assms(2) by (rule lapping_not_init)
  then have "is_heap (next_of s) (heap s)" using assms(1) by (simp add: plan_inv_def)
  then show ?thesis
    using sched_heap.top_least [of "next_of s" "heap s" i] heap_set(1) [OF assms(1) i] assms(3)
    by (simp add: htop_def)
qed

definition same_due :: "entry \<Rightarrow> entry \<Rightarrow> bool" where
  "same_due e e' \<longleftrightarrow> ent_interval e' = ent_interval e \<and> ent_phase e' = ent_phase e \<and> ent_next e' = ent_next e"

lemma same_due_simps [simp]:
  "same_due e e" "same_due e (e\<lparr>ent_inflight := b\<rparr>)"
  "same_due e (e\<lparr>ent_started := b\<rparr>)" "same_due e (e\<lparr>ent_inflight := b, ent_started := b'\<rparr>)"
  by (simp_all add: same_due_def)

lemma plan_inv_same:
  assumes "plan_inv s" "heap s' = heap s" "list_all2 same_due (entries s) (entries s')"
    "spc s' = SInit \<longleftrightarrow> spc s = SInit" "lapping (spc s') \<longrightarrow> lapping (spc s)"
    "\<And>now. judged (spc s') = Some now \<Longrightarrow> judged (spc s) = Some now"
  shows "plan_inv s'"
proof -
  have l: "length (entries s') = length (entries s)" using assms(3) by (auto dest: list_all2_lengthD)
  have n: "next_of s' i = next_of s i" if "i < length (entries s)" for i
    using assms(3) that by (simp add: next_of_def list_all2_conv_all_nth same_due_def)
  have t: "htop s' = htop s" using assms(2) by (simp add: htop_def)
  show ?thesis
  proof (cases "spc s = SInit")
    case True
    then show ?thesis using assms(4) by (simp add: plan_inv_def)
  next
    case False
    have "is_heap (next_of s') (heap s')"
      unfolding assms(2) is_heap_def heap_from_def
    proof (intro allI impI)
      fix j assume j: "j < length (heap s)" "0 < j \<and> 0 \<le> par j"
      then have "heap s ! j < length (entries s)" "heap s ! par j < length (entries s)"
        using heap_set(1) [OF assms(1) False] nth_mem [of j "heap s"] nth_mem [of "par j" "heap s"]
          par_less [of j] by auto
      then show "next_of s' (heap s ! par j) \<le> next_of s' (heap s ! j)"
        using assms(1) False j by (simp add: n plan_inv_def is_heap_def heap_from_def)
    qed
    moreover have "list_all entry_on_grid (entries s')"
      using assms(1,3) False
      by (auto simp: plan_inv_def list_all_length list_all2_conv_all_nth same_due_def entry_on_grid_def)
    moreover have "next_of s' (htop s') \<le> now" if "judged (spc s') = Some now" for now
      using assms(1) assms(6) [OF that] top_valid(1) [OF assms(1)] judged_lapping [of "spc s" now]
      by (simp add: t n plan_inv_def)
    ultimately show ?thesis
      using assms(1,2,5) False l by (auto simp: plan_inv_def)
  qed
qed

lemma plan_inv_worker:
  assumes "plan_inv s" "worker_step k w inp s = Some (s', evs)"
  shows "plan_inv s'"
proof (rule plan_inv_same [OF assms(1) worker_frame(1) [OF assms(2)]])
  show "list_all2 same_due (entries s) (entries s')"
    using worker_frame(13) [OF assms(2)]
    by (rule list.rel_mono_strong) (simp add: same_plan_def same_due_def)
qed (simp_all add: worker_frame(2) [OF assms(2)])

text \<open>Entries whose due time is recomputed from the epoch are on their grid.\<close>

lemma slot_on_grid:
  "wf_entry e \<Longrightarrow> entry_on_grid (e\<lparr>ent_next := slotAfter now (ent_interval e) (ent_phase e)\<rparr>)"
  by (simp add: wf_entry_def entry_on_grid_def slots.slot_grid)

lemma advance_slot:
  assumes "wf_entry e" "entry_on_grid e" "ent_next e \<le> now"
  shows "advance_next now (ent_next e) (ent_interval e) (ent_phase e) =
    slotAfter now (ent_interval e) (ent_phase e)"
  using assms by (intro advance_is_slot) (simp_all add: wf_entry_def entry_on_grid_def)

lemma plan_inv_build:
  assumes "mset q = mset [0 ..< length (entries s)]" "heap s = heap_init (next_of s) q"
    "list_all entry_on_grid (entries s)" "judged (spc s) = None" "lapping (spc s) \<longrightarrow> entries s \<noteq> []"
  shows "plan_inv s"
  using assms sched_heap.build_mset [of "next_of s" q] sched_heap.build_wf [of "next_of s" q]
  unfolding plan_inv_def by simp

lemma next_of_other [simp]:
  "next_of (s\<lparr>spc := pc\<rparr>) = next_of s" "next_of (s\<lparr>heap := h\<rparr>) = next_of s"
  by (simp_all add: next_of_def fun_eq_iff)

lemma plan_inv_init:
  assumes "list_all wf_entry (entries s)"
  shows "plan_inv (init_step now s)"
proof (rule plan_inv_build)
  show "mset [0 ..< length (entries s)] = mset [0 ..< length (entries (init_step now s))]"
    by (simp add: init_step_def Let_def)
  show "heap (init_step now s) = heap_init (next_of (init_step now s)) [0 ..< length (entries s)]"
    by (simp add: init_step_def Let_def)
  show "list_all entry_on_grid (entries (init_step now s))"
    using assms by (auto simp: init_step_def Let_def list_all_iff slot_on_grid)
  show "judged (spc (init_step now s)) = None" by (simp add: init_step_def Let_def)
  show "lapping (spc (init_step now s)) \<longrightarrow> entries (init_step now s) \<noteq> []"
    by (auto simp: init_step_def Let_def sched_heap.build_empty)
qed

lemma plan_inv_reanchor:
  assumes "list_all wf_entry (entries s)" "plan_inv s" "spc s = SPeek"
  shows "plan_inv ((reanchor now s)\<lparr>spc := SDrain\<rparr>)"
proof (rule plan_inv_build)
  show "mset (heap s) = mset [0 ..< length (entries ((reanchor now s)\<lparr>spc := SDrain\<rparr>))]"
    using plan_invD(1) [OF assms(2)] assms(3) by simp
  show "heap ((reanchor now s)\<lparr>spc := SDrain\<rparr>) = heap_init (next_of ((reanchor now s)\<lparr>spc := SDrain\<rparr>)) (heap s)"
    by (simp add: reanchor_def Let_def)
  show "list_all entry_on_grid (entries ((reanchor now s)\<lparr>spc := SDrain\<rparr>))"
    using assms(1) plan_invD(3) [OF assms(2)] assms(3) by (auto simp: list_all_iff slot_on_grid)
qed (use plan_invD(4) [OF assms(2)] assms(3) in simp_all)

lemma plan_inv_advance:
  assumes wf: "list_all wf_entry (entries s)" and inv: "plan_inv s" and pc: "spc s = SAdvance now"
  shows "plan_inv (advance_step now s)"
    "next_of (advance_step now s) (htop s) =
      slotAfter now (ent_interval (entries s ! htop s)) (ent_phase (entries s ! htop s))"
proof -
  let ?s = "upd_entry (htop s) (\<lambda>e. e\<lparr>ent_next :=
    advance_next now (ent_next e) (ent_interval e) (ent_phase e)\<rparr>) s"
  let ?e = "entries s ! htop s"
  have lap: "spc s \<noteq> SInit" "lapping (spc s)" using pc by simp_all
  have t: "htop s < length (entries s)" "heap s \<noteq> []" using top_valid [OF inv lap(2)] by simp_all
  have grid: "list_all entry_on_grid (entries s)" using plan_invD(3) [OF inv lap(1)] .
  have due: "ent_next ?e \<le> now" using plan_invD(5) [OF inv, of now] pc by (simp add: next_of_def)
  have e: "wf_entry ?e" "entry_on_grid ?e" using wf grid t(1) by (simp_all add: list_all_length)
  note adv = advance_slot [OF e due]
  show "next_of (advance_step now s) (htop s) = slotAfter now (ent_interval ?e) (ent_phase ?e)"
    using t(1) adv by (simp add: advance_step_def Let_def next_of_def)
  have other: "next_of ?s i = next_of s i" if "i \<noteq> hd (heap s)" for i
    using that by (simp add: next_of_def htop_def)
  have h: "heap (advance_step now s) = heap_fix (next_of ?s) (heap s) 0"
    by (simp add: advance_step_def Let_def)
  have n: "next_of (advance_step now s) = next_of ?s"
    by (simp add: advance_step_def Let_def next_of_def fun_eq_iff)
  have "is_heap (next_of ?s) (heap_fix (next_of ?s) (heap s) 0)"
    using sched_heap.reschedule_wf [OF plan_invD(2) [OF inv lap(1)] heap_set(2) [OF inv lap(1)] other] .
  moreover have "mset (heap (advance_step now s)) = mset [0 ..< length (entries (advance_step now s))]"
    unfolding h sched_heap.resink_mset using plan_invD(1) [OF inv lap(1)]
    by (simp add: advance_step_def Let_def)
  moreover have "list_all entry_on_grid (entries (advance_step now s))"
    using grid e slot_on_grid [OF e(1), of now] adv
    by (auto simp: advance_step_def Let_def intro!: list_all_upd)
  moreover have "entries (advance_step now s) \<noteq> []"
    using plan_invD(4) [OF inv lap(2)] by (simp add: advance_step_def Let_def)
  ultimately show "plan_inv (advance_step now s)"
    unfolding plan_inv_def h n by (simp add: advance_step_def Let_def)
qed

text \<open>Every transition of Run's goroutine keeps the plan.\<close>

lemma plan_inv_sched:
  assumes wf: "list_all wf_entry (entries s)" and inv: "plan_inv s"
    and step: "sched_step inp s = Some (s', evs)"
  shows "plan_inv s'"
  using step
proof (cases rule: sched_step_cases)
  case (init now)
  then show ?thesis using plan_inv_init [OF wf] by simp
next
  case drain
  then show ?thesis using inv
    by (auto simp: drain_step_def intro!: plan_inv_same [OF inv] list_all2_upd list.rel_refl split: list.splits)
next
  case (peek now)
  show ?thesis
  proof (cases "stale now (entries s ! htop s)")
    case True
    then show ?thesis using peek plan_inv_reanchor [OF wf inv peek(1)]
      by (auto simp: peek_step_def Let_def)
  next
    case False
    let ?due = "\<not> 0 < time_sub (ent_next (entries s ! htop s)) now"
    have due: "ent_next (entries s ! htop s) \<le> now" if ?due
      using that by (simp add: time_sub_def sat64_pos_iff)
    have lap: "spc s \<noteq> SInit" "lapping (spc s)" "htop s < length (entries s)"
      using peek(1) top_valid [OF inv] by simp_all
    have p: "plan_inv t" if "heap t = heap s" "spc t = SWait \<or> spc t = SSkip now \<and> ?due \<or> spc t = SDispatch now \<and> ?due"
      "list_all2 same_due (entries s) (entries t)" for t
    proof -
      have "htop t = htop s" "next_of t (htop s) = next_of s (htop s)"
        using that(1,3) lap(3) by (simp_all add: htop_def next_of_def list_all2_conv_all_nth same_due_def)
      moreover have "plan_inv (t\<lparr>spc := SPeek\<rparr>)"
        using that peek(1) by (intro plan_inv_same [OF inv]) simp_all
      ultimately show ?thesis
        using that(2) due unfolding plan_inv_def by (auto simp: next_of_def [of s] htop_def)
    qed
    then show ?thesis using peek False
      by (auto simp: peek_step_def Let_def intro!: p list_all2_upd list.rel_refl split: if_splits)
  qed
next
  case (wait c)
  then show ?thesis
    by (auto simp: wait_step_def intro!: plan_inv_same [OF inv] list_all2_upd list.rel_refl
        split: choice.splits list.splits)
next
  case (report now rp rp' t)
  note f = report_step_frame [OF report(2)]
  show ?thesis
    using report f by (intro plan_inv_same [OF inv]) (auto simp: list_all2_same split: option.splits)
next
  case (advance now)
  then show ?thesis using plan_inv_advance(1) [OF wf inv] by simp
next
  case (skip now)
  then show ?thesis by (auto simp: skip_step_def Let_def intro!: plan_inv_same [OF inv] list.rel_refl)
next
  case (dispatch c now)
  then show ?thesis
    by (auto simp: dispatch_step_def intro!: plan_inv_same [OF inv] list.rel_refl split: choice.splits if_splits)
next
  case (graced c err)
  then show ?thesis
    by (auto simp: grace_step_def close_results_def intro!: plan_inv_same [OF inv] list.rel_refl
        split: choice.splits if_splits)
qed (auto simp: close_work_def close_results_def intro!: plan_inv_same [OF inv] list.rel_refl)

end
