(* ===== verification/RunnerToken.thy ===== *)
theory RunnerToken
  imports RunnerPlan
begin

text \<open>
  The token of an entry: an entry in flight is in exactly one place (offered to work, queued in work,
  held by a worker, or acked on done), and an entry that is not in flight is nowhere. From it follow
  that no target runs concurrently with itself and that the sends on work and done never block.
\<close>

section \<open>Where an entry is\<close>

fun held :: "'u wpc \<Rightarrow> nat list" where
  "held WIdle = []"
| "held (WGot i) = [i]"
| "held (WStart i) = [i]"
| "held (WCheck i) = [i]"
| "held (WEncode i obs) = [i]"
| "held (WPublish i e a) = [i]"
| "held (WBackoff i e a err) = [i]"
| "held (WReport i rp) = [i]"
| "held (WAck i) = [i]"
| "held WExit = []"

fun offering :: "spc \<Rightarrow> bool" where
  "offering (SDispatch now) = True"
| "offering pc = False"

text \<open>How often the entry is held by the workers, and how often it is anywhere.\<close>

definition held_by :: "'u wpc list \<Rightarrow> nat \<Rightarrow> nat" where
  "held_by ws i = (\<Sum>p\<leftarrow>ws. count_list (held p) i)"

definition tok :: "'u sys \<Rightarrow> nat \<Rightarrow> nat" where
  "tok s i = count_list (work s) i + held_by (workers s) i + count_list (done_ch s) i +
     (if offering (spc s) \<and> htop s = i then 1 else 0)"

lemma held_by_update:
  "w < length ws \<Longrightarrow>
    held_by (ws[w := p]) i + count_list (held (ws ! w)) i = held_by ws i + count_list (held p) i"
  unfolding held_by_def
proof (induction ws arbitrary: w)
  case (Cons q ws)
  then show ?case by (cases w) fastforce+
qed simp

lemma held_by_pos: "w < length ws \<Longrightarrow> count_list (held (ws ! w)) i \<le> held_by ws i"
  unfolding held_by_def
proof (induction ws arbitrary: w)
  case (Cons q ws)
  then show ?case by (cases w) fastforce+
qed simp

lemma held_by_two:
  assumes "w < length ws" "v < length ws" "w \<noteq> v"
  shows "count_list (held (ws ! w)) i + count_list (held (ws ! v)) i \<le> held_by ws i"
proof -
  have "count_list (held (ws ! v)) i \<le> held_by (ws[w := WIdle]) i"
    using held_by_pos [of v "ws[w := WIdle]" i] assms by simp
  then show ?thesis using held_by_update [OF assms(1), of WIdle i] by simp
qed

text \<open>A worker's transition moves tokens from work through the worker to done, and loses none.\<close>

lemma tok_worker:
  assumes w: "w < length (workers s)" and step: "worker_step k w inp s = Some (s', evs)"
  shows "tok s' i = tok s i"
proof -
  note up = held_by_update [OF w, of _ i]
  have same: "held_by ((workers s)[w := p]) i = held_by (workers s) i"
    if "held p = held (workers s ! w)" for p
    using up [of p] that by simp
  note pc = worker_frame(1,2) [OF step]
  show ?thesis
    using step
  proof (cases rule: worker_step_cases)
    case recv
    show ?thesis
    proof (cases "work s")
      case Nil
      then show ?thesis using recv pc by (auto simp: recv_work_def tok_def htop_def same split: if_splits)
    next
      case (Cons j q)
      then have s': "s' = set_worker w (WGot j) (s\<lparr>work := q\<rparr>)" using recv(2) by (simp add: recv_work_def)
      show ?thesis using up [of "WGot j"] recv(1) Cons
        by (simp add: s' tok_def htop_def)
    qed
  next
    case (ack j)
    then have s': "s' = set_worker w WIdle (s\<lparr>done_ch := done_ch s @ [j]\<rparr>)"
      by (simp add: send_ack_def split: if_splits)
    show ?thesis using up [of WIdle] ack(1) by (simp add: s' tok_def htop_def)
  next
    case (report j rp rp' t)
    note f = report_step_frame [OF report(2)]
    have "held_by (workers s') i = held_by (workers s) i"
      using report f same by (simp split: option.splits)
    then show ?thesis using report f pc by (simp add: tok_def htop_def)
  qed (use pc in \<open>auto simp: worker_defs tok_def htop_def same
        split: option.splits sum.splits choice.splits prod.splits if_splits\<close>)
qed

section \<open>The token invariant\<close>

definition inflight :: "'u sys \<Rightarrow> nat \<Rightarrow> bool" where
  "inflight s i \<longleftrightarrow> i < length (entries s) \<and> ent_inflight (entries s ! i)"

definition token_inv :: "'u sys \<Rightarrow> bool" where
  "token_inv s \<longleftrightarrow>
     (\<forall>i. tok s i \<le> 1) \<and> (\<forall>i. \<not> inflight s i \<longrightarrow> tok s i = 0) \<and>
     (scheduling (spc s) \<longrightarrow> (\<forall>i. inflight s i \<longrightarrow> tok s i = 1))"

lemma token_invD:
  assumes "token_inv s"
  shows "tok s i \<le> 1" "tok s i \<noteq> 0 \<Longrightarrow> inflight s i" "scheduling (spc s) \<Longrightarrow> inflight s i \<Longrightarrow> tok s i = 1"
proof -
  note a = assms [unfolded token_inv_def]
  show "tok s i \<le> 1" using a by blast
  show "tok s i \<noteq> 0 \<Longrightarrow> inflight s i" using a by metis
  show "scheduling (spc s) \<Longrightarrow> inflight s i \<Longrightarrow> tok s i = 1" using a by blast
qed

lemma inflight_worker:
  assumes "worker_step k w inp s = Some (s', evs)"
  shows "inflight s' i = inflight s i"
  using worker_frame(12,13) [OF assms] by (auto simp: inflight_def list_all2_conv_all_nth same_plan_def)

lemma token_inv_worker:
  assumes "token_inv s" "w < length (workers s)" "worker_step k w inp s = Some (s', evs)"
  shows "token_inv s'"
  using assms(1) tok_worker [OF assms(2,3)] inflight_worker [OF assms(3)] worker_frame(2) [OF assms(3)]
  by (simp add: token_inv_def)

text \<open>Steps that move nothing, and the steps that finish, start and hand over an entry.\<close>

lemma token_inv_same:
  assumes "token_inv s" "\<And>i. tok s' i = tok s i" "\<And>i. inflight s' i = inflight s i"
    "scheduling (spc s') \<Longrightarrow> scheduling (spc s)"
  shows "token_inv s'"
  using assms by (auto simp: token_inv_def)

lemma token_inv_drop:
  assumes "token_inv s" "\<And>i. tok s' i \<le> tok s i" "\<And>i. inflight s' i = inflight s i"
    "\<not> scheduling (spc s')"
  shows "token_inv s'"
  using assms unfolding token_inv_def by (metis le_0_eq le_trans)

lemma token_inv_finish:
  assumes inv: "token_inv s" and d: "done_ch s = i # q" and t: "t = s\<lparr>done_ch := q, spc := pc\<rparr>"
    and pc: "\<not> offering (spc s)" "\<not> offering pc" "scheduling pc \<Longrightarrow> scheduling (spc s)"
  shows "token_inv (finish i t)"
proof -
  have "tok s i \<noteq> 0" using d by (simp add: tok_def)
  then have i: "inflight s i" "tok s i = 1" using token_invD [OF inv, of i] by auto
  have "tok (finish i t) j = (if j = i then 0 else tok s j)" for j
    using d pc i(2) by (auto simp: tok_def t)
  moreover have "inflight (finish i t) j \<longleftrightarrow> inflight s j \<and> j \<noteq> i" for j
    using i(1) by (auto simp: inflight_def t nth_list_update)
  ultimately show ?thesis using inv pc(3) by (auto simp: token_inv_def t)
qed

lemma token_inv_init:
  assumes "token_inv s" "spc s = SInit"
  shows "token_inv (init_step now s)"
  using assms(2) by (intro token_inv_same [OF assms(1)])
    (auto simp: init_step_def Let_def tok_def inflight_def)

lemma token_inv_offer:
  assumes inv: "token_inv s" and i: "htop s < length (entries s)" "\<not> ent_inflight (entries s ! htop s)"
    and pc: "spc s = SPeek"
  shows "token_inv (upd_entry (htop s) (\<lambda>e. e\<lparr>ent_inflight := True\<rparr>) (s\<lparr>spc := SDispatch now\<rparr>))"
proof -
  let ?t = "upd_entry (htop s) (\<lambda>e. e\<lparr>ent_inflight := True\<rparr>) (s\<lparr>spc := SDispatch now\<rparr>)"
  have "\<not> inflight s (htop s)" using i by (simp add: inflight_def)
  then have z: "tok s (htop s) = 0" using token_invD(2) [OF inv] by blast
  have "tok ?t j = (if j = htop s then 1 else tok s j)" for j
    using z pc by (auto simp: tok_def htop_def)
  moreover have "inflight ?t j \<longleftrightarrow> inflight s j \<or> j = htop s" for j
    using i by (auto simp: inflight_def nth_list_update)
  ultimately show ?thesis using inv pc by (simp add: token_inv_def)
qed

lemma token_inv_sched:
  assumes inv: "token_inv s" and plan: "plan_inv s" and step: "sched_step inp s = Some (s', evs)"
  shows "token_inv s'"
  using step
proof (cases rule: sched_step_cases)
  case (init now)
  then show ?thesis using token_inv_init [OF inv] by simp
next
  case drain
  show ?thesis
  proof (cases "done_ch s")
    case Nil
    then show ?thesis using drain
      by (intro token_inv_same [OF inv]) (auto simp: drain_step_def tok_def inflight_def htop_def)
  next
    case (Cons i q)
    then show ?thesis using drain token_inv_finish [OF inv Cons, of "s\<lparr>done_ch := q\<rparr>" SDrain]
      by (simp add: drain_step_def)
  qed
next
  case (peek now)
  let ?e = "entries s ! htop s"
  have "htop s < length (entries s)" using top_valid(1) [OF plan] peek(1) by simp
  then show ?thesis
    using peek token_inv_offer [OF inv, of now]
    by (auto simp: peek_step_def Let_def tok_def inflight_def htop_def reanchor_def
        intro!: token_inv_same [OF inv] split: if_splits)
next
  case (wait c)
  show ?thesis
  proof (cases c)
    case OnChannel
    then obtain i q where d: "done_ch s = i # q" using wait(2) by (auto simp: wait_step_def split: list.splits)
    then show ?thesis using wait OnChannel token_inv_finish [OF inv d refl, of SDrain]
      by (simp add: wait_step_def)
  qed (use wait in \<open>auto simp: wait_step_def tok_def inflight_def htop_def intro!: token_inv_same [OF inv]\<close>)
next
  case (report now rp rp' t)
  note f = report_step_frame [OF report(2)]
  show ?thesis using report f
    by (intro token_inv_same [OF inv]) (auto simp: tok_def inflight_def htop_def split: option.splits)
next
  case (dispatch c now)
  show ?thesis
  proof (cases c)
    case OnContext
    then show ?thesis using dispatch
      by (auto simp: dispatch_step_def tok_def inflight_def htop_def intro!: token_inv_drop [OF inv])
  qed (use dispatch in \<open>auto simp: dispatch_step_def tok_def inflight_def htop_def
      intro!: token_inv_same [OF inv] split: if_splits\<close>)
next
  case (advance now)
  have "htop s < length (entries s)" using top_valid(1) [OF plan] advance(1) by simp
  then show ?thesis using advance
    by (auto simp: advance_step_def Let_def tok_def inflight_def nth_list_update intro!: token_inv_same [OF inv]
        split: if_splits)
next
  case (graced c err)
  then show ?thesis
    by (auto simp: grace_step_def close_results_def tok_def inflight_def htop_def
        intro!: token_inv_same [OF inv] split: choice.splits if_splits)
qed (auto simp: skip_step_def close_work_def close_results_def Let_def tok_def inflight_def htop_def
      intro!: token_inv_same [OF inv])

section \<open>Started and not started\<close>

text \<open>Past the store to started; and past it but not yet acked.\<close>

fun begun :: "'u wpc \<Rightarrow> nat option" where
  "begun (WCheck i) = Some i"
| "begun (WEncode i obs) = Some i"
| "begun (WPublish i e a) = Some i"
| "begun (WBackoff i e a err) = Some i"
| "begun (WReport i rp) = Some i"
| "begun (WAck i) = Some i"
| "begun p = None"

definition in_run :: "'u wpc \<Rightarrow> nat \<Rightarrow> bool" where
  "in_run p i \<longleftrightarrow> begun p = Some i \<and> p \<noteq> WAck i"

abbreviation started :: "'u sys \<Rightarrow> nat \<Rightarrow> bool" where
  "started s i \<equiv> ent_started (entries s ! i)"

definition started_inv :: "'u sys \<Rightarrow> bool" where
  "started_inv s \<longleftrightarrow>
     (\<forall>p \<in> set (workers s). \<forall>i < length (entries s). in_run p i \<longrightarrow> started s i) \<and>
     (\<forall>i < length (entries s). started s i \<longrightarrow> i \<in> set (done_ch s) \<or> (\<exists>p \<in> set (workers s). begun p = Some i)) \<and>
     (\<forall>i < length (entries s). (i \<in> set (done_ch s) \<or> WAck i \<in> set (workers s)) \<and> \<not> started s i \<longrightarrow> ctx_err s \<noteq> None) \<and>
     (\<forall>now. spc s = SSkip now \<longrightarrow> inflight s (htop s))"

lemma started_invI:
  assumes "\<And>p i. p \<in> set (workers s) \<Longrightarrow> i < length (entries s) \<Longrightarrow> in_run p i \<Longrightarrow> started s i"
    "\<And>i. i < length (entries s) \<Longrightarrow> started s i \<Longrightarrow> i \<notin> set (done_ch s) \<Longrightarrow>
      \<exists>p \<in> set (workers s). begun p = Some i"
    "\<And>i. i < length (entries s) \<Longrightarrow> i \<in> set (done_ch s) \<or> WAck i \<in> set (workers s) \<Longrightarrow> \<not> started s i \<Longrightarrow> ctx_err s \<noteq> None"
    "\<And>now. spc s = SSkip now \<Longrightarrow> inflight s (htop s)"
  shows "started_inv s"
  using assms unfolding started_inv_def by blast

lemma started_invD:
  assumes "started_inv s"
  shows "p \<in> set (workers s) \<Longrightarrow> i < length (entries s) \<Longrightarrow> in_run p i \<Longrightarrow> started s i"
    "i < length (entries s) \<Longrightarrow> started s i \<Longrightarrow> i \<notin> set (done_ch s) \<Longrightarrow>
      \<exists>p \<in> set (workers s). begun p = Some i"
    "i < length (entries s) \<Longrightarrow> i \<in> set (done_ch s) \<or> WAck i \<in> set (workers s) \<Longrightarrow> \<not> started s i \<Longrightarrow> ctx_err s \<noteq> None"
    "spc s = SSkip now \<Longrightarrow> inflight s (htop s)"
  using assms [unfolded started_inv_def] by (blast, blast, blast, blast)

lemma bex_update:
  assumes "\<exists>q \<in> set ws. P q" "w < length ws" "P (ws ! w) \<Longrightarrow> P p"
  shows "\<exists>q \<in> set (ws[w := p]). P q"
proof -
  obtain v where v: "v < length ws" "P (ws ! v)" using assms(1) by (metis in_set_conv_nth)
  then have "P (ws[w := p] ! v)" using assms(3) by (cases "v = w") simp_all
  then show ?thesis using v(1) by (metis length_list_update nth_mem)
qed

lemma in_set_update: "q \<in> set (ws[w := p]) \<Longrightarrow> q = p \<or> q \<in> set ws"
  using set_update_subset_insert [of ws w p] by auto

text \<open>A worker that moves within a run, or outside any, keeps the invariant.\<close>

lemma started_inv_move:
  assumes inv: "started_inv s" and w: "w < length (workers s)"
    and s': "workers s' = (workers s)[w := p]" "entries s' = entries s" "done_ch s' = done_ch s"
      "ctx_err s' = ctx_err s" "spc s' = spc s" "heap s' = heap s"
    and b: "begun (workers s ! w) \<noteq> None \<Longrightarrow> begun p = begun (workers s ! w)"
    and r: "\<And>i. in_run p i \<Longrightarrow> in_run (workers s ! w) i"
    and a: "\<And>i. p = WAck i \<Longrightarrow> in_run (workers s ! w) i \<or> ctx_err s \<noteq> None"
  shows "started_inv s'"
proof -
  have mem: "workers s ! w \<in> set (workers s)" using w by simp
  have "\<exists>q \<in> set (workers s'). begun q = Some i" if "\<exists>q \<in> set (workers s). begun q = Some i" for i
    unfolding s'(1) using that w b by (intro bex_update) auto
  moreover have "started s i" if "q \<in> set (workers s')" "in_run q i" "i < length (entries s)" for q i
    using inv r that mem in_set_update [of q "workers s" w p] unfolding s'(1) started_inv_def by blast
  moreover have "ctx_err s \<noteq> None" if "WAck i \<in> set (workers s')" "\<not> started s i" "i < length (entries s)" for i
    using inv a that mem in_set_update [of "WAck i" "workers s" w p] unfolding s'(1) started_inv_def by metis
  ultimately show ?thesis using inv s'(2-) unfolding started_inv_def
    by (simp add: inflight_def htop_def) blast
qed

lemma held_inflight:
  assumes "token_inv s" "w < length (workers s)" "held (workers s ! w) = [i]"
  shows "inflight s i"
proof -
  have "tok s i \<noteq> 0" using held_by_pos [OF assms(2), of i] assms(3) by (simp add: tok_def)
  then show ?thesis using token_invD(2) [OF assms(1)] by blast
qed

lemma started_inv_worker:
  assumes inv: "started_inv s" and tk: "token_inv s" and w: "w < length (workers s)" and step: "worker_step k w inp s = Some (s', evs)"
  shows "started_inv s'"
  using step
proof (cases rule: worker_step_cases)
  case recv
  then show ?thesis
    by (auto simp: recv_work_def in_run_def intro!: started_inv_move [OF inv w] split: list.splits if_splits)
next
  case (ctx i)
  then show ?thesis
    by (auto simp: check_ctx_def in_run_def intro!: started_inv_move [OF inv w] split: if_splits)
next
  case (start i)
  then have s': "s' = set_worker w (WCheck i) (upd_entry i (\<lambda>e. e\<lparr>ent_started := True\<rparr>) s)"
    by (simp add: start_run_def)
  have i: "i < length (entries s)" using held_inflight [OF tk w, of i] start(1) by (simp add: inflight_def)
  then have st: "started s' j \<longleftrightarrow> started s j \<or> j = i" for j
    by (auto simp: s' nth_list_update)
  have ws: "workers s' = (workers s)[w := WCheck i]" by (simp add: s')
  have len: "length (entries s') = length (entries s)" by (simp add: s')
  show ?thesis
  proof (rule started_invI)
    fix q j assume q: "q \<in> set (workers s')" "j < length (entries s')" "in_run q j"
    from in_set_update [OF q(1) [unfolded ws]] show "started s' j"
    proof
      assume "q = WCheck i"
      then show ?thesis using q(3) by (simp add: st in_run_def)
    next
      assume "q \<in> set (workers s)"
      then show ?thesis using q(2,3) started_invD(1) [OF inv] unfolding st len by blast
    qed
  next
    fix j assume j: "j < length (entries s')" "started s' j" "j \<notin> set (done_ch s')"
    show "\<exists>q \<in> set (workers s'). begun q = Some j"
    proof (cases "j = i")
      case True
      have "WCheck i \<in> set (workers s')" using w by (simp add: ws set_update_memI)
      then show ?thesis using True by force
    next
      case False
      then have "\<exists>q \<in> set (workers s). begun q = Some j"
        using started_invD(2) [OF inv, of j] j by (simp add: st len) (simp add: s')
      then show ?thesis unfolding ws using w start(1) by (intro bex_update) auto
    qed
  next
    fix j assume j: "j < length (entries s')" "j \<in> set (done_ch s') \<or> WAck j \<in> set (workers s')"
      "\<not> started s' j"
    then have "j \<in> set (done_ch s) \<or> WAck j \<in> set (workers s)"
      using in_set_update [of "WAck j" "workers s" w "WCheck i"] by (auto simp: s')
    then show "ctx_err s' \<noteq> None" using started_invD(3) [OF inv, of j] j(1,3) by (simp add: st len) (simp add: s')
  next
    fix now assume "spc s' = SSkip now"
    then show "inflight s' (htop s')" using started_invD(4) [OF inv, of now] i
      by (auto simp: s' inflight_def htop_def nth_list_update)
  qed
next
  case (report i rp rp' t)
  show ?thesis using report report_step_frame [OF report(2)]
    by (intro started_inv_move [OF inv w]) (auto simp: in_run_def split: option.splits)
next
  case (ack i)
  then have s': "s' = set_worker w WIdle (s\<lparr>done_ch := done_ch s @ [i]\<rparr>)"
    by (simp add: send_ack_def split: if_splits)
  have ws: "workers s' = (workers s)[w := WIdle]" by (simp add: s')
  have mem: "WAck i \<in> set (workers s)" using w ack(1) by (metis nth_mem)
  have "\<exists>q \<in> set (workers s'). begun q = Some j"
    if "\<exists>q \<in> set (workers s). begun q = Some j" "j \<noteq> i" for j
    unfolding ws using that w ack(1) by (intro bex_update) auto
  note ex = this
  have old: "q \<in> set (workers s)" if "q \<in> set (workers s')" "q \<noteq> WIdle" for q
    using that in_set_update [of q "workers s" w] by (auto simp: ws)
  have e: "entries s' = entries s" "ctx_err s' = ctx_err s" by (simp_all add: s')
  show ?thesis
  proof (rule started_invI)
    fix q j assume "q \<in> set (workers s')" "j < length (entries s')" "in_run q j"
    then show "started s' j" using started_invD(1) [OF inv, of q j] old [of q]
      by (cases "q = WIdle") (auto simp: e in_run_def)
  next
    fix j assume j: "j < length (entries s')" "started s' j" "j \<notin> set (done_ch s')"
    then have "j \<notin> set (done_ch s)" "j \<noteq> i" by (auto simp: s')
    then show "\<exists>q \<in> set (workers s'). begun q = Some j"
      using j started_invD(2) [OF inv, of j] ex [of j] by (simp add: e)
  next
    fix j assume "j < length (entries s')" "j \<in> set (done_ch s') \<or> WAck j \<in> set (workers s')"
      "\<not> started s' j"
    then show "ctx_err s' \<noteq> None"
      using started_invD(3) [OF inv, of j] mem old [of "WAck j"] by (auto simp: e) (auto simp: s')
  next
    fix now assume "spc s' = SSkip now"
    then show "inflight s' (htop s')" using started_invD(4) [OF inv, of now]
      by (auto simp: s' inflight_def htop_def)
  qed
qed (auto simp: worker_defs in_run_def intro!: started_inv_move [OF inv w]
      split: option.splits sum.splits choice.splits prod.splits if_splits)

lemma started_inv_same:
  assumes "started_inv s" "workers s' = workers s" "done_ch s' = done_ch s" "ctx_err s' = ctx_err s"
    "map ent_started (entries s') = map ent_started (entries s)"
    "\<And>now. spc s' = SSkip now \<Longrightarrow> inflight s' (htop s')"
  shows "started_inv s'"
proof -
  have len: "length (entries s') = length (entries s)" using assms(5) by (rule map_eq_imp_length_eq)
  have st: "started s' i = started s i" if "i < length (entries s)" for i
    using arg_cong [OF assms(5), of "\<lambda>l. l ! i"] that len by simp
  show ?thesis
    using assms(2-4,6) started_invD(1-3) [OF assms(1)]
    by (intro started_invI) (simp_all add: len st)
qed

lemma tok_one_place:
  assumes "token_inv s" "i \<in> set (done_ch s)" "p \<in> set (workers s)"
  shows "i \<notin> set (held p)"
proof
  assume "i \<in> set (held p)"
  obtain w where w: "w < length (workers s)" "workers s ! w = p" using assms(3) by (auto simp: in_set_conv_nth)
  have "0 < count_list (held p) i" "0 < count_list (done_ch s) i"
    using \<open>i \<in> set (held p)\<close> assms(2) by (metis count_list_0_iff gr0I)+
  then have "2 \<le> tok s i" using held_by_pos [OF w(1), of i] w(2) by (simp add: tok_def)
  then show False using token_invD(1) [OF assms(1), of i] by simp
qed

lemma begun_held: "begun p = Some i \<Longrightarrow> i \<in> set (held p)"
  by (cases p) simp_all

lemma started_inv_finish:
  assumes inv: "started_inv s" and tk: "token_inv s" and d: "done_ch s = i # q"
    and s': "s' = finish i (s\<lparr>done_ch := q, spc := SDrain\<rparr>)"
  shows "started_inv s'"
proof -
  have "0 < tok s i" using d by (simp add: tok_def)
  then have i: "i < length (entries s)" using token_invD(2) [OF tk, of i] by (simp add: inflight_def)
  have c: "count_list (i # q) i \<le> 1" using token_invD(1) [OF tk, of i] d by (simp add: tok_def)
  have q: "i \<notin> set q" using c count_list_0_iff [of q i] by simp
  have free: "i \<notin> set (held p)" if "p \<in> set (workers s)" for p
    using tok_one_place [OF tk _ that, of i] d by simp
  have st: "started s' j \<longleftrightarrow> started s j \<and> j \<noteq> i" for j
    using i by (auto simp: s' nth_list_update)
  have e: "workers s' = workers s" "length (entries s') = length (entries s)" "done_ch s' = q" "ctx_err s' = ctx_err s"
    by (simp_all add: s')
  show ?thesis
  proof (rule started_invI)
    fix p j assume "p \<in> set (workers s')" "j < length (entries s')" "in_run p j"
    then show "started s' j" using started_invD(1) [OF inv, of p j] free [of p] begun_held [of p j]
      by (auto simp: st e in_run_def)
  next
    fix j assume "j < length (entries s')" "started s' j" "j \<notin> set (done_ch s')"
    then show "\<exists>p \<in> set (workers s'). begun p = Some j"
      using started_invD(2) [OF inv, of j] by (simp add: st e d)
  next
    fix j assume "j < length (entries s')" "j \<in> set (done_ch s') \<or> WAck j \<in> set (workers s')" "\<not> started s' j"
    moreover from this have "j \<noteq> i" using q free [of "WAck i"] by (auto simp: e)
    ultimately show "ctx_err s' \<noteq> None" using started_invD(3) [OF inv, of j] by (auto simp: st e d)
  qed (simp add: s')
qed

lemma started_inv_sched:
  assumes inv: "started_inv s" and tk: "token_inv s" and plan: "plan_inv s"
    and step: "sched_step inp s = Some (s', evs)"
  shows "started_inv s'"
  using step
proof (cases rule: sched_step_cases)
  case drain
  show ?thesis
  proof (cases "done_ch s")
    case Nil
    then show ?thesis using drain by (auto simp: drain_step_def intro!: started_inv_same [OF inv])
  next
    case (Cons i q)
    have "s\<lparr>done_ch := q\<rparr> = s\<lparr>done_ch := q, spc := SDrain\<rparr>" using drain(1) by simp
    moreover have "s' = finish i (s\<lparr>done_ch := q\<rparr>)" using drain(2) Cons by (simp add: drain_step_def)
    ultimately have "s' = finish i (s\<lparr>done_ch := q, spc := SDrain\<rparr>)" by metis
    then show ?thesis by (rule started_inv_finish [OF inv tk Cons])
  qed
next
  case (peek now)
  have "htop s < length (entries s)" using top_valid(1) [OF plan] peek(1) by simp
  then show ?thesis using peek
    by (auto simp: peek_step_def Let_def inflight_def htop_def intro!: started_inv_same [OF inv] map_upd_same
        split: if_splits)
next
  case (wait c)
  show ?thesis
  proof (cases c)
    case OnChannel
    then obtain i q where d: "done_ch s = i # q" using wait(2) by (auto simp: wait_step_def split: list.splits)
    then show ?thesis using wait OnChannel started_inv_finish [OF inv tk d]
      by (simp add: wait_step_def)
  qed (use wait in \<open>auto simp: wait_step_def intro!: started_inv_same [OF inv]\<close>)
next
  case (report now rp rp' t)
  show ?thesis using report report_step_frame [OF report(2)]
    by (intro started_inv_same [OF inv]) (auto split: option.splits)
next
  case (advance now)
  have "htop s < length (entries s)" using top_valid(1) [OF plan] advance(1) by simp
  then show ?thesis using advance
    by (auto simp: advance_step_def Let_def intro!: started_inv_same [OF inv] map_upd_same)
next
  case (dispatch c now)
  then show ?thesis
    by (auto simp: dispatch_step_def intro!: started_inv_same [OF inv] split: choice.splits if_splits)
next
  case (graced c err)
  then show ?thesis
    by (auto simp: grace_step_def close_results_def intro!: started_inv_same [OF inv] split: choice.splits if_splits)
qed (auto simp: init_step_def skip_step_def close_work_def close_results_def Let_def
      intro!: started_inv_same [OF inv])

end
