(* ===== verification/RunnerSafe.thy ===== *)
theory RunnerSafe
  imports RunnerToken
begin

text \<open>
  The reachable states of a Runner that New built and Run started, and its safety: no panic, no
  concurrent run of a target, no blocked send, skips classified by whether the prior run started,
  earliest-due dispatch, and the return to the epoch grid after a clock step.
\<close>

section \<open>Reachable states\<close>

text \<open>Durations are int64; an option is one of the package's own.\<close>

definition args_ok :: "target list \<Rightarrow> duration \<Rightarrow> 'u runner_option list \<Rightarrow> bool" where
  "args_ok ts iv0 opts \<longleftrightarrow>
     iv0 \<le> max64 \<and> (\<forall>t \<in> set ts. Interval t \<le> max64) \<and> set opts \<subseteq> range WithShutdownGrace"

definition executes ::
    "('p, 'u) sdk \<Rightarrow> config \<Rightarrow> target list \<Rightarrow> duration \<Rightarrow> int \<Rightarrow> 'u runner_option list \<Rightarrow> goerr option \<Rightarrow>
     ev list \<Rightarrow> 'u sys \<Rightarrow> bool" where
  "executes k cfg ts iv0 conc opts ctx evs s \<longleftrightarrow>
     args_ok ts iv0 opts \<and>
     (\<exists>r s0. New k cfg ts iv0 conc opts = Some r \<and> Run r ctx = Inr s0 \<and> exec k s0 evs s)"

definition runner_inv :: "target list \<Rightarrow> 'u sys \<Rightarrow> bool" where
  "runner_inv ts s \<longleftrightarrow> shape ts s \<and> chan_inv s \<and> plan_inv s \<and> token_inv s \<and> started_inv s \<and>
     workers s \<noteq> []"

lemma runner_invD:
  assumes "runner_inv ts s"
  shows "shape ts s" "chan_inv s" "plan_inv s" "token_inv s" "started_inv s" "workers s \<noteq> []"
  using assms by (simp_all add: runner_inv_def)

lemma chan_inv_env:
  "chan_inv s \<Longrightarrow> chan_inv (s\<lparr>ctx_err := c\<rparr>)" "chan_inv s \<Longrightarrow> chan_inv (s\<lparr>results := rs\<rparr>)"
  by (auto simp: chan_inv_def all_exited_def)

lemma plan_inv_env:
  "plan_inv s \<Longrightarrow> plan_inv (s\<lparr>ctx_err := c\<rparr>)" "plan_inv s \<Longrightarrow> plan_inv (s\<lparr>results := rs\<rparr>)"
  by (rule plan_inv_same; simp add: list_all2_same)+

lemma token_inv_env:
  "token_inv s \<Longrightarrow> token_inv (s\<lparr>ctx_err := c\<rparr>)" "token_inv s \<Longrightarrow> token_inv (s\<lparr>results := rs\<rparr>)"
  by (rule token_inv_same; simp add: tok_def htop_def inflight_def)+

lemma started_inv_env:
  assumes "started_inv s"
  shows "ctx_err s = None \<Longrightarrow> started_inv (s\<lparr>ctx_err := Some err\<rparr>)" "started_inv (s\<lparr>results := rs\<rparr>)"
proof -
  show "ctx_err s = None \<Longrightarrow> started_inv (s\<lparr>ctx_err := Some err\<rparr>)"
    using started_invD [OF assms] by (intro started_invI) (simp_all add: inflight_def htop_def)
  show "started_inv (s\<lparr>results := rs\<rparr>)"
    using assms by (intro started_inv_same [OF assms])
      (auto dest: started_invD(4) [OF assms] simp: inflight_def htop_def)
qed

lemma runner_inv_step:
  assumes inv: "runner_inv ts s" and step: "step k s evs s'"
  shows "runner_inv ts s'"
  using step
proof cases
  case (sched inp)
  note i = runner_invD [OF inv] and st = sched(2)
  have "list_all wf_entry (entries s)" using i(1) by (simp add: shape_def)
  moreover have "workers s' \<noteq> []" using sched_frame [OF st] i(6) by simp
  ultimately show ?thesis
    using shape_sched [OF i(1) st] chan_inv_sched [OF i(2) st] plan_inv_sched [OF _ i(3) st]
      token_inv_sched [OF i(4,3) st] started_inv_sched [OF i(5,4,3) st]
    by (simp add: runner_inv_def)
next
  case (worker w inp)
  note st = worker(3)
  have "workers s' \<noteq> []" using worker_frame(11) [OF st] runner_invD(6) [OF inv] by auto
  then show ?thesis
    using shape_worker [OF runner_invD(1) [OF inv] st] chan_inv_worker [OF runner_invD(2) [OF inv] worker(2) st]
      plan_inv_worker [OF runner_invD(3) [OF inv] st] token_inv_worker [OF runner_invD(4) [OF inv] worker(2) st]
      started_inv_worker [OF runner_invD(5,4) [OF inv] worker(2) st]
    by (simp add: runner_inv_def)
next
  case (cancel err)
  then show ?thesis using runner_invD [OF inv]
    by (simp add: runner_inv_def shape_def chan_inv_env plan_inv_env token_inv_env started_inv_env)
next
  case (consume r rs)
  then show ?thesis using runner_invD [OF inv]
    by (simp add: runner_inv_def shape_def chan_inv_env plan_inv_env token_inv_env started_inv_env)
qed

lemma exec_inv:
  assumes "exec k s0 evs s" "I s0" "\<And>s evs s'. I s \<Longrightarrow> step k s evs s' \<Longrightarrow> I s'"
  shows "I s"
  using assms(1) by induction (use assms(2,3) in blast)+

lemma exec_trans:
  assumes "exec k s evs' s'" "exec k s0 evs s"
  shows "exec k s0 (evs @ evs') s'"
  using assms
proof (induction rule: exec.induct)
  case (exec_step evs1 s1 evs2 s2)
  then show ?case using exec.exec_step [of k s0 "evs @ evs1" s1 evs2 s2] by simp
qed simp

section \<open>New and Run\<close>

lemma new_entry_ok:
  assumes "new_entry iv0 t = Some e" "0 < iv0" "iv0 \<le> max64" "Interval t \<le> max64"
  shows "ent_t e = t" "wf_entry e" "\<not> ent_inflight e" "\<not> ent_started e"
  using assms phaseOf_positive
  by (auto simp: new_entry_def Let_def wf_entry_def split: option.splits if_splits)

lemma new_entry_total: "0 < iv0 \<Longrightarrow> iv0 \<le> max64 \<Longrightarrow> Interval t \<le> max64 \<Longrightarrow> new_entry iv0 t \<noteq> None"
  using phaseOf_positive by (auto simp: new_entry_def Let_def split: option.splits)

lemma foldl_grace_option:
  assumes "set opts \<subseteq> range WithShutdownGrace"
  shows "\<exists>d. foldl (\<lambda>r opt. opt r) r opts = r\<lparr>grace := d\<rparr>"
  using assms
proof (induction opts arbitrary: r)
  case Nil
  show ?case by (intro exI [of _ "grace r"]) simp
next
  case (Cons opt opts)
  then obtain d where d: "opt = WithShutdownGrace d" by auto
  have "\<exists>d'. foldl (\<lambda>r opt. opt r) (r\<lparr>grace := d\<rparr>) opts = r\<lparr>grace := d\<rparr>\<lparr>grace := d'\<rparr>"
    using Cons.prems by (intro Cons.IH) simp
  then show ?case by (simp add: d WithShutdownGrace_def)
qed

lemma clamp_bounds:
  "1 \<le> clamp_concurrency conc n" "0 < n \<Longrightarrow> clamp_concurrency conc n \<le> n"
  by (auto simp: clamp_concurrency_def Let_def)

lemma New_fields:
  assumes "New k cfg ts iv0 conc opts = Some r" "set opts \<subseteq> range WithShutdownGrace"
  shows "0 < iv0" "those (map (new_entry iv0) ts) = Some (entries r)" "interval r = iv0"
    "concurrency r = clamp_concurrency conc (length ts)" "results r = []" "results_closed r = False"
    "results_cap r = 2 * length ts + 1" "skipped r = 0" "dropped r = 0" "lastDropWarn r = 0" "running r = False"
    "enc r = (case NewEncoder k cfg of Inl _ \<Rightarrow> None | Inr e \<Rightarrow> Some e)"
    "encErr r = (case NewEncoder k cfg of Inl err \<Rightarrow> Some err | Inr _ \<Rightarrow> None)"
proof -
  obtain es where es: "0 < iv0" "those (map (new_entry iv0) ts) = Some es"
    using assms(1) by (auto simp: New_def split: if_splits option.splits)
  let ?r = "\<lparr>enc = (case NewEncoder k cfg of Inl _ \<Rightarrow> None | Inr e \<Rightarrow> Some e),
    encErr = (case NewEncoder k cfg of Inl err \<Rightarrow> Some err | Inr _ \<Rightarrow> None),
    entries = es, interval = iv0, concurrency = clamp_concurrency conc (length ts),
    results = [], results_cap = 2 * length ts + 1, results_closed = False,
    skipped = 0, dropped = 0, lastDropWarn = 0, running = False, grace = 0\<rparr>"
  obtain d where "r = ?r\<lparr>grace := d\<rparr>"
    using assms(1) es foldl_grace_option [OF assms(2), of ?r] by (auto simp: New_def Let_def)
  with es show "0 < iv0" "those (map (new_entry iv0) ts) = Some (entries r)" "interval r = iv0"
    "concurrency r = clamp_concurrency conc (length ts)" "results r = []" "results_closed r = False"
    "results_cap r = 2 * length ts + 1" "skipped r = 0" "dropped r = 0" "lastDropWarn r = 0" "running r = False"
    "enc r = (case NewEncoder k cfg of Inl _ \<Rightarrow> None | Inr e \<Rightarrow> Some e)"
    "encErr r = (case NewEncoder k cfg of Inl err \<Rightarrow> Some err | Inr _ \<Rightarrow> None)"
    by simp_all
qed

lemma those_SomeD: "those xs = Some ys \<Longrightarrow> list_all2 (\<lambda>x y. x = Some y) xs ys"
  by (induction xs arbitrary: ys) (auto split: option.splits)

lemma launch_inv:
  assumes args: "args_ok ts iv0 opts" and new: "New k cfg ts iv0 conc opts = Some r" and run: "Run r ctx = Inr s0"
  shows "runner_inv ts s0"
proof -
  note f = New_fields [OF new]
  have opts: "set opts \<subseteq> range WithShutdownGrace" using args by (simp add: args_ok_def)
  have s0: "s0 = launch r ctx" using run by (auto simp: Run_def split: if_splits option.splits)
  have es: "list_all2 (\<lambda>t e. new_entry iv0 t = Some e) ts (entries r)"
    using those_SomeD [OF f(2) [OF opts]] by (simp add: list.rel_map)
  have ent: "ent_t e = t \<and> wf_entry e \<and> \<not> ent_inflight e \<and> \<not> ent_started e"
    if "new_entry iv0 t = Some e" "t \<in> set ts" for t e
    using new_entry_ok [OF that(1)] args that(2) f(1) [OF opts] by (simp add: args_ok_def)
  have len: "length (entries r) = length ts" using es by (auto dest: list_all2_lengthD)
  have each: "ent_t (entries r ! i) = ts ! i \<and> wf_entry (entries r ! i) \<and> \<not> ent_inflight (entries r ! i)"
    if "i < length ts" for i
    using ent [of "ts ! i" "entries r ! i"] es that by (auto simp: list_all2_conv_all_nth)
  have "map ent_t (entries r) = ts" using each len by (auto intro: nth_equalityI)
  moreover have "list_all wf_entry (entries r)" using each len by (simp add: list_all_length)
  ultimately have "shape ts s0"
    using f [OF opts] by (simp add: shape_def s0 launch_def runner.defs)
  moreover have "chan_inv s0" using f(6) [OF opts]
    by (simp add: chan_inv_def s0 launch_def runner.defs)
  moreover have "plan_inv s0" by (simp add: plan_inv_def s0 launch_def runner.defs)
  moreover have "held_by (replicate c WIdle) i = 0" for c i
    by (simp add: held_by_def sum_list_replicate)
  then have "token_inv s0" using each len
    by (auto simp: token_inv_def tok_def inflight_def s0 launch_def runner.defs)
  moreover have "started_inv s0"
  proof (rule started_invI)
    fix i assume "i < length (entries s0)" "started s0 i"
    moreover have "\<not> ent_started (entries r ! i)" if "i < length ts"
      using ent [of "ts ! i" "entries r ! i"] es that by (auto simp: list_all2_conv_all_nth)
    ultimately show "\<exists>p \<in> set (workers s0). begun p = Some i"
      using len by (simp add: s0 launch_def runner.defs)
  qed (auto simp: s0 launch_def runner.defs in_run_def)
  moreover have "workers s0 \<noteq> []" using clamp_bounds(1) [of conc "length ts"] f(4) [OF opts]
    by (simp add: s0 launch_def runner.defs)
  ultimately show ?thesis by (simp add: runner_inv_def)
qed

lemma executes_inv:
  assumes "executes k cfg ts iv0 conc opts ctx evs s"
  shows "runner_inv ts s"
proof -
  obtain r s0 where "args_ok ts iv0 opts" "New k cfg ts iv0 conc opts = Some r" "Run r ctx = Inr s0"
    and e: "exec k s0 evs s"
    using assms unfolding executes_def by blast
  then have "runner_inv ts s0" by (intro launch_inv)
  with e show ?thesis using runner_inv_step by (rule exec_inv)
qed

section \<open>Playing an interleaving\<close>

lemma act_step: "\<not> panicked s \<Longrightarrow> act k a s = Some (s', evs) \<Longrightarrow> step k s evs s'"
  by (cases a) (auto intro: step.intros split: if_splits list.splits)

lemma play_exec: "play k as s = Some (s', evs) \<Longrightarrow> exec k s evs s'"
proof (induction k as s arbitrary: s' evs rule: play.induct)
  case (2 k a as s)
  then obtain t evs1 evs2 where t: "\<not> panicked s" "act k a s = Some (t, evs1)"
    "play k as t = Some (s', evs2)" "evs = evs1 @ evs2"
    by (auto split: if_splits option.splits)
  have "exec k s ([] @ evs1) t" using act_step [OF t(1,2)] by (rule exec_step [OF exec_refl])
  then show ?case using "2.IH" t exec_trans [of k t evs2 s' s evs1] by simp
qed (simp add: exec_refl)

text \<open>The state an interleaving of a new Runner ends in.\<close>

definition demo ::
    "target list \<Rightarrow> duration \<Rightarrow> int \<Rightarrow> goerr option \<Rightarrow> action list \<Rightarrow> (string sys \<times> ev list) option" where
  "demo ts iv0 conc ctx as =
     (case New demo_sdk \<lparr>CfgSource = ''descry'', CfgType = []\<rparr> ts iv0 conc [] of None \<Rightarrow> None
      | Some r \<Rightarrow> (case Run r ctx of Inl _ \<Rightarrow> None | Inr s0 \<Rightarrow> play demo_sdk as s0))"

definition demo_target :: "nat \<Rightarrow> target" where
  "demo_target n = \<lparr>URL = replicate n CHR ''a'', Labels = Map.empty, Interval = 0\<rparr>"

lemma demo_executes:
  assumes "demo ts iv0 conc ctx as = Some (s, evs)" "iv0 \<le> max64" "\<forall>t \<in> set ts. Interval t \<le> max64"
  shows "executes demo_sdk \<lparr>CfgSource = ''descry'', CfgType = []\<rparr> ts iv0 conc [] ctx evs s"
  using assms play_exec by (fastforce simp: demo_def executes_def args_ok_def split: option.splits sum.splits)

lemma demo_result:
  assumes "map_option f (demo ts iv0 conc ctx as) = Some v"
  obtains s evs where "demo ts iv0 conc ctx as = Some (s, evs)" "f (s, evs) = v"
  using assms that by (cases "demo ts iv0 conc ctx as") auto

lemma held_by_zero: "\<forall>p \<in> set ws. i \<notin> set (held p) \<Longrightarrow> held_by ws i = 0"
  unfolding held_by_def by (induction ws) (simp_all add: count_list_0_iff)

lemma held_by_nonzero: "held_by ws i \<noteq> 0 \<Longrightarrow> \<exists>p \<in> set ws. i \<in> set (held p)"
  by (rule ccontr) (simp add: held_by_zero)

section \<open>Facts at a step\<close>

lemma executes_step: "executes k cfg ts iv0 conc opts ctx evs s \<Longrightarrow> step k s evs' s' \<Longrightarrow>
    executes k cfg ts iv0 conc opts ctx (evs @ evs') s'"
  unfolding executes_def using exec_step by blast

lemma token_len:
  assumes "token_inv s" "\<And>i. count_list xs i \<le> tok s i"
  shows "length xs \<le> length (entries s)"
proof (rule length_le_of_count)
  show "count_list xs i \<le> 1" for i
    using assms(2) [of i] token_invD(1) [OF assms(1), of i] by simp
  show "\<forall>i \<in> set xs. i < length (entries s)"
  proof
    fix i assume "i \<in> set xs"
    then have "0 < count_list xs i" by (metis count_list_0_iff gr0I)
    then have "0 < tok s i" using assms(2) [of i] by simp
    then show "i < length (entries s)" using token_invD(2) [OF assms(1), of i] by (simp add: inflight_def)
  qed
qed

text \<open>With the token elsewhere there is room on the channel.\<close>

lemma work_has_room:
  assumes "token_inv s" "spc s = SDispatch now"
  shows "length (work s) < length (entries s)"
proof -
  have "length (htop s # work s) \<le> length (entries s)"
    using assms(2) by (intro token_len [OF assms(1)]) (simp add: tok_def)
  then show ?thesis by simp
qed

lemma done_has_room:
  assumes "token_inv s" "w < length (workers s)" "workers s ! w = WAck i"
  shows "length (done_ch s) < length (entries s)"
proof -
  have "count_list (i # done_ch s) j \<le> tok s j" for j
    using held_by_pos [OF assms(2), of j] assms(3) by (auto simp: tok_def split: if_splits)
  then have "length (i # done_ch s) \<le> length (entries s)" by (rule token_len [OF assms(1)])
  then show ?thesis by simp
qed

lemma report_no_sched_events:
  "report_step j rp inp s = Some (rp', t, evs) \<Longrightarrow> EvSlot i now \<notin> set evs \<and> EvSkip i err \<notin> set evs"
  by (cases "(j, rp, inp, s)" rule: report_step.cases) (auto simp: Let_def split: if_splits)

lemma worker_no_sched_events:
  assumes "worker_step k w inp s = Some (s', evs)"
  shows "EvSlot i now \<notin> set evs" "EvSkip i err \<notin> set evs"
proof -
  have "EvSlot i now \<notin> set evs \<and> EvSkip i err \<notin> set evs"
    using assms report_no_sched_events [of _ _ inp s _ _ evs i now err] by (cases rule: worker_step_cases)
      (auto simp: worker_defs split: list.splits if_splits option.splits sum.splits choice.splits prod.splits)
  then show "EvSlot i now \<notin> set evs" "EvSkip i err \<notin> set evs" by auto
qed

lemma slot_event:
  assumes "step k s evs s'" "EvSlot i now \<in> set evs"
  shows "spc s = SPeek \<and> peek_step now s = (s', evs) \<and> i = htop s"
  using assms(1)
proof cases
  case (sched inp)
  from sched(2) show ?thesis
    using assms(2)
    by (cases rule: sched_step_cases)
      (auto simp: peek_step_def skip_step_def dispatch_step_def Let_def dest: report_no_sched_events
        split: if_splits choice.splits)
next
  case (worker w inp)
  then show ?thesis using assms(2) worker_no_sched_events(1) [OF worker(3)] by blast
qed (use assms(2) in auto)

lemma skip_event:
  assumes "step k s evs s'" "EvSkip i err \<in> set evs"
  obtains now where "spc s = SSkip now" "skip_step now s = (s', evs)" "i = htop s"
    "err = (if started s i then ErrSkipped else ErrSkippedQueued)"
  using assms(1)
proof cases
  case (sched inp)
  from sched(2) show thesis
    using assms(2) that
    by (cases rule: sched_step_cases)
      (auto simp: peek_step_def skip_step_def dispatch_step_def Let_def dest: report_no_sched_events
        split: if_splits choice.splits)
next
  case (worker w inp)
  then show thesis using assms(2) worker_no_sched_events(2) [OF worker(3)] by blast
qed (use assms(2) in auto)

section \<open>Properties\<close>

text \<open>
  C1: a Runner never panics, in any interleaving: nothing is sent on a closed channel and no
  channel is closed twice. Results() is closed only when Run has returned and every worker has
  exited; and when Run has returned with Results() open, its error reports the expired grace.
\<close>

theorem runner_never_panics:
  assumes "executes k cfg ts iv0 conc opts ctx evs s"
  shows "\<not> panicked s \<and> (results_closed s \<longrightarrow> (\<exists>err. spc s = RReturned err) \<and> all_exited s) \<and>
    (spc s = RReturned err \<and> \<not> results_closed s \<longrightarrow> errors_is err ErrShutdownTimeout)"
proof -
  have "errors_is err ErrShutdownTimeout" if "timed_out err" for err
    using that by (auto simp: timed_out_def errors_Join_def)
  then show ?thesis
    using runner_invD(2) [OF executes_inv [OF assms]] unfolding chan_inv_def by blast
qed

definition dispatch_one :: "action list" where
  "dispatch_one = [Sched (Clock 1000), Sched NoInput, Sched (Clock 1007), Sched (Choose OnChannel), Sched NoInput]"

definition run_one :: "action list" where
  "run_one = [Worker 0 NoInput, Worker 0 NoInput, Worker 0 NoInput, Worker 0 (CheckReturns (Inr demo_obs)),
     Worker 0 (FreshID ''ID''), Worker 0 (PublishReturns None), Worker 0 NoInput, Worker 0 NoInput]"

definition shut_down :: "action list" where
  "shut_down = [Cancel context_Canceled, Sched NoInput, Sched NoInput, Sched (Clock 1008), Sched (Choose OnContext),
     Sched NoInput, Worker 0 NoInput, Sched NoInput]"

theorem runner_never_panics_witness:
  "\<exists>s evs. demo [demo_target 0] 10 1 None (dispatch_one @ run_one @ shut_down) = Some (s, evs) \<and>
    results_closed s \<and> all_exited s \<and> \<not> panicked s"
proof -
  have "map_option (\<lambda>(s, evs). results_closed s)
      (demo [demo_target 0] 10 1 None (dispatch_one @ run_one @ shut_down)) = Some True" by code_simp
  then obtain s evs where d: "demo [demo_target 0] 10 1 None (dispatch_one @ run_one @ shut_down) = Some (s, evs)"
    and c: "results_closed s" by (auto elim: demo_result)
  have "executes demo_sdk \<lparr>CfgSource = ''descry'', CfgType = []\<rparr> [demo_target 0] 10 1 [] None evs s"
    using d by (rule demo_executes) (simp_all add: max64_def demo_target_def)
  from runner_never_panics [OF this] show ?thesis using c d by blast
qed

text \<open>
  C2: a target is never run concurrently with itself: an entry that a worker holds is held by no
  other worker, is not queued, not waiting to be queued and not acked; so it is in flight in one
  place only.
\<close>

theorem runner_no_self_concurrency:
  assumes "executes k cfg ts iv0 conc opts ctx evs s"
    and "w < length (workers s)" "i \<in> set (held (workers s ! w))"
  shows "inflight s i \<and> i \<notin> set (work s) \<and> i \<notin> set (done_ch s) \<and>
    (\<forall>v < length (workers s). v \<noteq> w \<longrightarrow> i \<notin> set (held (workers s ! v)))"
proof -
  have tk: "token_inv s" using runner_invD(4) [OF executes_inv [OF assms(1)]] .
  have h: "0 < count_list (held (workers s ! w)) i" using assms(3) by (metis count_list_0_iff gr0I)
  have one: "tok s i \<le> 1" using token_invD(1) [OF tk] .
  have b: "count_list (held (workers s ! w)) i \<le> held_by (workers s) i" by (rule held_by_pos [OF assms(2)])
  have "count_list (work s) i = 0" "count_list (done_ch s) i = 0"
    using one h b by (simp_all add: tok_def)
  moreover have "i \<notin> set (held (workers s ! v))" if "v < length (workers s)" "v \<noteq> w" for v
    using held_by_two [OF assms(2) that(1), of i] that(2) one h count_list_0_iff [of "held (workers s ! v)" i]
    by (simp add: tok_def)
  moreover have "inflight s i" using token_invD(2) [OF tk, of i] h b by (simp add: tok_def)
  ultimately show ?thesis by (auto simp: count_list_0_iff)
qed

theorem runner_no_self_concurrency_witness:
  "\<exists>s evs. demo [demo_target 0, demo_target 1] 10 2 None (dispatch_one @ [Worker 0 NoInput]) = Some (s, evs) \<and>
    held (workers s ! 0) = [1] \<and> inflight s 1 \<and> 1 \<notin> set (work s)"
proof -
  have "map_option (\<lambda>(s, evs). (length (workers s), held (workers s ! 0)))
      (demo [demo_target 0, demo_target 1] 10 2 None (dispatch_one @ [Worker 0 NoInput])) = Some (2, [1])"
    by code_simp
  then obtain s evs where
      d: "demo [demo_target 0, demo_target 1] 10 2 None (dispatch_one @ [Worker 0 NoInput]) = Some (s, evs)"
    and c: "length (workers s) = 2" "held (workers s ! 0) = [1]" by (auto elim: demo_result)
  have "executes demo_sdk \<lparr>CfgSource = ''descry'', CfgType = []\<rparr> [demo_target 0, demo_target 1] 10 2 [] None evs s"
    using d by (rule demo_executes) (simp_all add: max64_def demo_target_def)
  from runner_no_self_concurrency [OF this, of 0 1] show ?thesis using c d by simp
qed

text \<open>
  The scheduler's send on work and a worker's ack on done never block: whenever the scheduler
  offers an entry there is room in work, and whenever a worker acks there is room in done.
\<close>

theorem runner_sends_never_block:
  assumes "executes k cfg ts iv0 conc opts ctx evs s"
  shows "(spc s = SDispatch now \<longrightarrow> sched_step (Choose OnChannel) s =
      Some (s\<lparr>work := work s @ [htop s], spc := SAdvance now\<rparr>, [EvDispatch (htop s)])) \<and>
    (w < length (workers s) \<and> workers s ! w = WAck i \<longrightarrow> worker_step k w NoInput s =
      Some (set_worker w WIdle (s\<lparr>done_ch := done_ch s @ [i]\<rparr>), []))"
proof -
  note inv = runner_invD [OF executes_inv [OF assms]]
  have "\<not> work_closed s" if "spc s = SDispatch now" using inv(2) that by (auto simp: chan_inv_def)
  then show ?thesis using work_has_room [OF inv(4), of now] done_has_room [OF inv(4), of w i]
    by (auto simp: sched_step.simps dispatch_step_def worker_step.simps send_ack_def)
qed

theorem runner_sends_never_block_witness:
  "\<exists>s evs. demo [demo_target 0] 10 1 None (dispatch_one @ butlast run_one) = Some (s, evs) \<and>
    workers s ! 0 = WAck 0 \<and> worker_step demo_sdk 0 NoInput s \<noteq> None"
proof -
  let ?as = "dispatch_one @ butlast run_one"
  have "map_option (\<lambda>(s, evs). (length (workers s), case workers s ! 0 of WAck i \<Rightarrow> i | _ \<Rightarrow> 7))
      (demo [demo_target 0] 10 1 None ?as) = Some (1, 0)"
    by code_simp
  then obtain s evs where d: "demo [demo_target 0] 10 1 None ?as = Some (s, evs)"
    and c: "length (workers s) = 1" "(case workers s ! 0 of WAck i \<Rightarrow> i | _ \<Rightarrow> 7) = 0"
    by (auto elim: demo_result)
  have w: "workers s ! 0 = WAck 0" using c(2) by (cases "workers s ! 0") simp_all
  have "executes demo_sdk \<lparr>CfgSource = ''descry'', CfgType = []\<rparr> [demo_target 0] 10 1 [] None evs s"
    using d by (rule demo_executes) (simp_all add: max64_def demo_target_def)
  from runner_sends_never_block [OF this, of _ 0 0] show ?thesis using c(1) w d by simp
qed

text \<open>
  A skip says why. A slot is skipped only for an entry in flight. ErrSkipped means its
  prior run has started (a worker is past the start, or its ack is waiting); ErrSkippedQueued means
  no worker is running it: it is queued, or held by a worker that has not started it, or it was
  given up for a cancelled context. ErrSkippedQueued matches ErrSkipped under errors.Is, and not the
  other way round.
\<close>

theorem runner_skip_reason:
  assumes "executes k cfg ts iv0 conc opts ctx evs s" "step k s evs' s'" "EvSkip i err \<in> set evs'"
  shows "inflight s i \<and>
    (err = ErrSkipped \<and> (i \<in> set (done_ch s) \<or> (\<exists>p \<in> set (workers s). begun p = Some i)) \<or>
     err = ErrSkippedQueued \<and> (\<forall>p \<in> set (workers s). \<not> in_run p i) \<and>
       (i \<in> set (work s) \<or> WGot i \<in> set (workers s) \<or> WStart i \<in> set (workers s) \<or> ctx_err s \<noteq> None)) \<and>
    errors_is ErrSkippedQueued ErrSkipped \<and> \<not> errors_is ErrSkipped ErrSkippedQueued"
proof -
  note inv = runner_invD [OF executes_inv [OF assms(1)]]
  obtain now where pc: "spc s = SSkip now" and i: "i = htop s"
    and err: "err = (if started s i then ErrSkipped else ErrSkippedQueued)"
    using skip_event [OF assms(2,3)] by blast
  have fl: "inflight s i" using started_invD(4) [OF inv(5) pc] i by simp
  then have len: "i < length (entries s)" by (simp add: inflight_def)
  have "tok s i = 1" using token_invD(3) [OF inv(4), of i] fl pc by simp
  then have "i \<in> set (work s) \<or> (\<exists>p \<in> set (workers s). i \<in> set (held p)) \<or> i \<in> set (done_ch s)"
    using pc held_by_nonzero [of "workers s" i] by (auto simp: tok_def count_list_0_iff)
  moreover have "p = WGot i \<or> p = WStart i \<or> in_run p i \<or> p = WAck i" if "i \<in> set (held p)" for p :: "'b wpc"
    using that by (cases p) (simp_all add: in_run_def)
  moreover have "errors_is ErrSkippedQueued ErrSkipped" "\<not> errors_is ErrSkipped ErrSkippedQueued"
    by (simp_all add: ErrSkipped_def ErrSkippedQueued_def)
  ultimately show ?thesis
    using fl err started_invD(1,2,3) [OF inv(5), where i = i] len by (cases "started s i") (simp_all, blast+)
qed

definition skip_queued :: "action list" where
  "skip_queued = dispatch_one @ [Sched NoInput, Sched (Clock 1017)]"

theorem runner_skip_reason_witness:
  "\<exists>s evs s' evs'. demo [demo_target 0] 10 1 None skip_queued = Some (s, evs) \<and>
    step demo_sdk s evs' s' \<and> evs' = [EvSkip 0 ErrSkippedQueued] \<and> 0 \<in> set (work s) \<and> inflight s 0"
proof -
  have "map_option (\<lambda>(s, evs). (case spc s of SSkip now \<Rightarrow> now | _ \<Rightarrow> 0, work s, htop s, started s 0))
      (demo [demo_target 0] 10 1 None skip_queued) = Some (1017, [0], 0, False)" by code_simp
  then obtain s evs where d: "demo [demo_target 0] 10 1 None skip_queued = Some (s, evs)"
    and c: "(case spc s of SSkip now \<Rightarrow> now | _ \<Rightarrow> 0) = 1017" "work s = [0]" "htop s = 0" "\<not> started s 0"
    by (auto elim: demo_result)
  have pc: "spc s = SSkip 1017" using c(1) by (cases "spc s") simp_all
  have e: "executes demo_sdk \<lparr>CfgSource = ''descry'', CfgType = []\<rparr> [demo_target 0] 10 1 [] None evs s"
    using d by (rule demo_executes) (simp_all add: max64_def demo_target_def)
  have "\<not> panicked s" using executes_inv [OF e] by (simp add: runner_inv_def chan_inv_def)
  then obtain s' where st: "step demo_sdk s [EvSkip 0 ErrSkippedQueued] s'"
    using step.sched [of s NoInput _ _ demo_sdk] pc c(3,4)
    by (force simp: sched_step.simps skip_step_def Let_def)
  from runner_skip_reason [OF e st, of 0 ErrSkippedQueued] show ?thesis using d c(2) st by auto
qed

text \<open>
  C32: the slot the scheduler processes is the earliest one and is due: no entry is due before it,
  its time is not after the clock's reading, and it is skipped exactly when the entry is in flight
  and offered to the pool otherwise.
\<close>

theorem runner_serves_earliest_due:
  assumes "executes k cfg ts iv0 conc opts ctx evs s" "step k s evs' s'" "EvSlot i now \<in> set evs'"
  shows "i < length ts \<and> next_of s i \<le> now \<and> (\<forall>j < length ts. next_of s i \<le> next_of s j) \<and>
    spc s' = (if inflight s i then SSkip now else SDispatch now) \<and>
    skipped s' = (if inflight s i then wrap64 (skipped s + 1) else skipped s) \<and> inflight s' i"
proof -
  note inv = runner_invD [OF executes_inv [OF assms(1)]]
  have pc: "spc s = SPeek" and p: "peek_step now s = (s', evs')" and i: "i = htop s"
    using slot_event [OF assms(2,3)] by simp_all
  have lap: "lapping (spc s)" using pc by simp
  have len: "length (entries s) = length ts" using shape_length [OF inv(1)] .
  have il: "i < length ts" using top_valid(1) [OF inv(3) lap] by (simp add: i len)
  have "next_of s i \<le> now"
    using p assms(3) by (auto simp: peek_step_def Let_def i next_of_def time_sub_def sat64_pos_iff split: if_splits)
  moreover have "next_of s i \<le> next_of s j" if "j < length ts" for j
    using top_earliest [OF inv(3) lap, of j] that by (simp add: i len)
  ultimately show ?thesis using p assms(3) il
    by (auto simp: peek_step_def Let_def i inflight_def len split: if_splits)
qed

theorem runner_serves_earliest_due_witness:
  "\<exists>s evs s' evs'. demo [demo_target 0, demo_target 1] 10 2 None (take 2 dispatch_one) = Some (s, evs) \<and>
    step demo_sdk s evs' s' \<and> evs' = [EvSlot 1 1007] \<and> next_of s 1 \<le> next_of s 0 \<and> inflight s' 1"
proof -
  let ?as = "take 2 dispatch_one"
  have "map_option (\<lambda>(s, evs). (case spc s of SPeek \<Rightarrow> True | _ \<Rightarrow> False, htop s, map ent_next (entries s),
        map ent_interval (entries s), map ent_inflight (entries s)))
      (demo [demo_target 0, demo_target 1] 10 2 None ?as) = Some (True, 1, [1007, 1006], [10, 10], [False, False])"
    by code_simp
  then obtain s evs where d: "demo [demo_target 0, demo_target 1] 10 2 None ?as = Some (s, evs)"
    and c: "(case spc s of SPeek \<Rightarrow> True | _ \<Rightarrow> False)" "htop s = 1" "map ent_next (entries s) = [1007, 1006]"
      "map ent_interval (entries s) = [10, 10]" "map ent_inflight (entries s) = [False, False]"
    by (auto elim: demo_result)
  have pc: "spc s = SPeek" using c(1) by (cases "spc s") simp_all
  have e: "executes demo_sdk \<lparr>CfgSource = ''descry'', CfgType = []\<rparr> [demo_target 0, demo_target 1] 10 2 [] None evs s"
    using d by (rule demo_executes) (simp_all add: max64_def demo_target_def)
  have "\<not> panicked s" using executes_inv [OF e] by (simp add: runner_inv_def chan_inv_def)
  moreover have "ent_next (entries s ! 1) = 1006" "ent_interval (entries s ! 1) = 10" "\<not> ent_inflight (entries s ! 1)"
    using c(3-5) by (auto simp: map_eq_Cons_conv)
  ultimately obtain s' where st: "step demo_sdk s [EvSlot 1 1007] s'"
    using step.sched [of s "Clock 1007" _ _ demo_sdk] pc c(2)
    by (force simp: sched_step.simps peek_step_def Let_def stale_def time_sub_def int64_defs)
  from runner_serves_earliest_due [OF e st, of 1 1007] show ?thesis using d st by auto
qed

end
