(* ===== verification/RunnerAcct.thy ===== *)
theory RunnerAcct
  imports RunnerSafe
begin

text \<open>
  The runner's accounting. Every processed slot of an entry ends as a skip, a completed run, an entry
  acked at shutdown without running or a dispatch given up at shutdown; every skip and every completed
  run is one Result, which is put on the channel or counted as dropped. Each law is a ledger: what a
  transition posts (the events it emits, weighted) is the change of a quantity of the state.
\<close>

section \<open>Ledgers\<close>

definition posted :: "(ev \<Rightarrow> int) \<Rightarrow> ev list \<Rightarrow> int" where
  "posted wt evs = (\<Sum>e\<leftarrow>evs. wt e)"

lemma posted_simps [simp]:
  "posted wt [] = 0" "posted wt (e # evs) = wt e + posted wt evs"
  "posted wt (evs @ evs') = posted wt evs + posted wt evs'"
  by (simp_all add: posted_def)

text \<open>A budget: the quantity never grows by more than what is posted.\<close>

locale budget =
  fixes k :: "('p, 'u) sdk" and I :: "'u sys \<Rightarrow> bool" and qty :: "'u sys \<Rightarrow> int" and wt :: "ev \<Rightarrow> int"
  assumes keep: "I s \<Longrightarrow> step k s evs s' \<Longrightarrow> I s'"
    and spend: "I s \<Longrightarrow> step k s evs s' \<Longrightarrow> qty s' \<le> qty s + posted wt evs"
begin

lemma budget_exec:
  assumes "exec k s0 evs s" "I s0"
  shows "qty s \<le> qty s0 + posted wt evs"
  using assms(1)
proof induction
  case (exec_step evs s evs' s')
  have "I s" using exec_step.hyps(1) assms(2) keep by (rule exec_inv)
  then show ?case using spend [OF _ exec_step.hyps(2)] exec_step.IH by simp
qed simp

end

text \<open>A ledger: the quantity changes by exactly what is posted.\<close>

locale ledger =
  fixes k :: "('p, 'u) sdk" and I :: "'u sys \<Rightarrow> bool" and qty :: "'u sys \<Rightarrow> int" and wt :: "ev \<Rightarrow> int"
  assumes kept: "I s \<Longrightarrow> step k s evs s' \<Longrightarrow> I s'"
    and post: "I s \<Longrightarrow> step k s evs s' \<Longrightarrow> qty s' = qty s + posted wt evs"

lemma posted_neg: "posted (\<lambda>e. - wt e) evs = - posted wt evs"
  by (induction evs) simp_all

sublocale ledger \<subseteq> up: budget k I qty wt
  by unfold_locales (simp_all add: post kept)

sublocale ledger \<subseteq> down: budget k I "\<lambda>s. - qty s" "\<lambda>e. - wt e"
  by unfold_locales (simp_all add: post kept posted_neg)

context ledger
begin

lemma ledger_exec:
  assumes "exec k s0 evs s" "I s0"
  shows "qty s = qty s0 + posted wt evs"
  using up.budget_exec [OF assms] down.budget_exec [OF assms] by (simp add: posted_neg)

end

section \<open>Quantities\<close>

lemma htop_simps [simp]:
  "htop (s\<lparr>spc := pc\<rparr>) = htop s" "htop (s\<lparr>work := q\<rparr>) = htop s" "htop (s\<lparr>done_ch := q\<rparr>) = htop s"
  "htop (s\<lparr>skipped := n\<rparr>) = htop s" "htop (s\<lparr>results := rs\<rparr>) = htop s" "htop (s\<lparr>ctx_err := c\<rparr>) = htop s"
  "htop (s\<lparr>work_closed := b\<rparr>) = htop s" "htop (s\<lparr>results_closed := b\<rparr>) = htop s"
  "htop (s\<lparr>panicked := b\<rparr>) = htop s"
  "htop (set_worker w p s) = htop s" "htop (upd_entry i f s) = htop s" "htop (finish i s) = htop s"
  by (simp_all add: htop_def)

lemma htop_heap: "heap s' = heap s \<Longrightarrow> htop s' = htop s"
  by (simp add: htop_def)

definition over_workers :: "('u wpc \<Rightarrow> int) \<Rightarrow> 'u wpc list \<Rightarrow> int" where
  "over_workers f ws = (\<Sum>p\<leftarrow>ws. f p)"

lemma over_workers_update:
  "w < length ws \<Longrightarrow> over_workers f (ws[w := p]) = over_workers f ws - f (ws ! w) + f p"
  unfolding over_workers_def
proof (induction ws arbitrary: w)
  case (Cons q ws)
  then show ?case by (cases w) simp_all
qed simp

lemma over_workers_zero: "\<forall>p \<in> set ws. f p = 0 \<Longrightarrow> over_workers f ws = 0"
  unfolding over_workers_def by (induction ws) simp_all

fun running_on :: "nat \<Rightarrow> 'u wpc \<Rightarrow> int" where
  "running_on i (WReport j rp) = 0"
| "running_on i (WAck j) = 0"
| "running_on i p = (if i \<in> set (held p) then 1 else 0)"

text \<open>Slots of the entry that have been processed and are not yet decided.\<close>

fun judging :: "spc \<Rightarrow> int" where
  "judging (SSkip now) = 1"
| "judging (SDispatch now) = 1"
| "judging pc = 0"

definition undecided :: "nat \<Rightarrow> 'u sys \<Rightarrow> int" where
  "undecided i s =
     of_bool (htop s = i) * judging (spc s) + int (count_list (work s) i) + over_workers (running_on i) (workers s)"

text \<open>
  Results of the entry that are neither on the channel nor counted as dropped yet, each weighted by its
  error.
\<close>

fun unsent :: "(goerr option \<Rightarrow> int) \<Rightarrow> rpc \<Rightarrow> int" where
  "unsent g (RpSend res) = g (ResErr res)"
| "unsent g (RpDrop res) = g (ResErr res)"
| "unsent g rp = 0"

fun reporting_on :: "(goerr option \<Rightarrow> int) \<Rightarrow> nat \<Rightarrow> 'u wpc \<Rightarrow> int" where
  "reporting_on g i (WReport j rp) = (if i = j then unsent g rp else 0)"
| "reporting_on g i p = 0"

fun sched_unsent :: "(goerr option \<Rightarrow> int) \<Rightarrow> spc \<Rightarrow> int" where
  "sched_unsent g (SReport now rp) = unsent g rp"
| "sched_unsent g pc = 0"

definition owed :: "(goerr option \<Rightarrow> int) \<Rightarrow> nat \<Rightarrow> 'u sys \<Rightarrow> int" where
  "owed g i s = of_bool (htop s = i) * sched_unsent g (spc s) + over_workers (reporting_on g i) (workers s)"

definition unreported :: "nat \<Rightarrow> 'u sys \<Rightarrow> int" where
  "unreported i s = owed (\<lambda>err. 1) i s"

fun slot_wt :: "nat \<Rightarrow> ev \<Rightarrow> int" where
  "slot_wt i (EvSlot j now) = of_bool (i = j)"
| "slot_wt i (EvSkip j err) = - of_bool (i = j)"
| "slot_wt i (EvDone j err) = - of_bool (i = j)"
| "slot_wt i (EvCancelled j) = - of_bool (i = j)"
| "slot_wt i (EvAbandon j) = - of_bool (i = j)"
| "slot_wt i e = 0"

fun result_wt :: "(goerr option \<Rightarrow> int) \<Rightarrow> nat \<Rightarrow> ev \<Rightarrow> int" where
  "result_wt g i (EvSkip j err) = of_bool (i = j) * g (Some err)"
| "result_wt g i (EvDone j err) = of_bool (i = j) * g err"
| "result_wt g i (EvSent j res) = - (of_bool (i = j) * g (ResErr res))"
| "result_wt g i (EvDropped j res) = - (of_bool (i = j) * g (ResErr res))"
| "result_wt g i e = 0"

lemma running_on_begun: "i \<in> set (held p) \<Longrightarrow> running_on i p = (case p of WReport j rp \<Rightarrow> 0 | WAck j \<Rightarrow> 0 | _ \<Rightarrow> 1)"
  by (cases p) simp_all

lemma report_posts:
  assumes "report_step i rp inp s = Some (rp', t, evs)" "\<not> results_closed s"
  shows "posted (slot_wt j) evs = 0"
    "(case rp' of None \<Rightarrow> 0 | Some rp' \<Rightarrow> unsent g rp') * of_bool (i = j) =
       unsent g rp * of_bool (i = j) + posted (result_wt g j) evs"
  using assms
  by (cases "(i, rp, inp, s)" rule: report_step.cases; auto simp: Let_def split: if_splits)+

lemma undecided_sched:
  assumes inv: "runner_inv ts s" and step: "sched_step inp s = Some (s', evs)"
  shows "undecided i s' = undecided i s + posted (slot_wt i) evs"
  using step
proof (cases rule: sched_step_cases)
  case (report now rp rp' t)
  have "\<not> results_closed s" using runner_invD(2) [OF inv] report(1) by (auto simp: chan_inv_def)
  note r = report_posts(1) [OF report(2) this, of i] and f = report_step_frame [OF report(2)]
  show ?thesis using report f(2,4,5) r htop_heap [OF f(2)]
    by (cases rp') (auto simp: undecided_def)
next
  case (dispatch c now)
  have "\<not> work_closed s" using runner_invD(2) [OF inv] dispatch(1) by (auto simp: chan_inv_def)
  then consider err where "s' = s\<lparr>spc := SReturned err\<rparr>" "evs = [EvAbandon (htop s)]"
    | "s' = s\<lparr>work := work s @ [htop s], spc := SAdvance now\<rparr>" "evs = [EvDispatch (htop s)]"
    using dispatch(2) by (cases c) (auto simp: dispatch_step_def split: if_splits)
  then show ?thesis using dispatch(1) by cases (simp_all add: undecided_def)
qed (auto simp: sched_defs undecided_def split: list.splits if_splits option.splits choice.splits)

lemma undecided_worker:
  assumes inv: "runner_inv ts s" and w: "w < length (workers s)" and step: "worker_step k w inp s = Some (s', evs)"
  shows "undecided i s' = undecided i s + posted (slot_wt i) evs"
proof -
  note pc = worker_frame(2) [OF step] htop_heap [OF worker_frame(1) [OF step]]
  note up = over_workers_update [OF w, of "running_on i"]
  have open_: "\<not> results_closed s" using runner_invD(2) [OF inv] step exited_worker_stuck all_exited_worker [OF _ w]
    by (metis chan_inv_def option.distinct(1))
  show ?thesis
    using step
  proof (cases rule: worker_step_cases)
    case (report j rp rp' t)
    note r = report_posts(1) [OF report(2) open_, of i] and f = report_step_frame [OF report(2)]
    show ?thesis using report(1,3) f(3,4,5) r pc htop_heap [OF f(2)]
      by (cases rp') (auto simp: undecided_def up split: if_splits)
  qed (use pc in \<open>auto simp: worker_defs undecided_def up
        split: list.splits option.splits sum.splits choice.splits prod.splits if_splits\<close>)
qed

interpretation slot_ledger: ledger k "runner_inv ts" "undecided i" "slot_wt i" for k ts i
proof (unfold_locales, fact runner_inv_step)
  fix s evs s' assume inv: "runner_inv ts s" and step: "step k s evs s'"
  from step show "undecided i s' = undecided i s + posted (slot_wt i) evs"
  proof cases
    case (sched inp)
    show ?thesis by (rule undecided_sched [OF inv sched(2)])
  next
    case (worker w inp)
    show ?thesis by (rule undecided_worker [OF inv worker(2,3)])
  qed (simp_all add: undecided_def)
qed

lemma owed_sched:
  assumes inv: "runner_inv ts s" and step: "sched_step inp s = Some (s', evs)"
  shows "owed g i s' = owed g i s + posted (result_wt g i) evs"
  using step
proof (cases rule: sched_step_cases)
  case (report now rp rp' t)
  have "\<not> results_closed s" using runner_invD(2) [OF inv] report(1) by (auto simp: chan_inv_def)
  note r = report_posts(2) [OF report(2) this, of g i] and f = report_step_frame [OF report(2)]
  show ?thesis using report f(2,4,5) r htop_heap [OF f(2)]
    by (cases rp') (auto simp: owed_def)
qed (auto simp: sched_defs owed_def split: list.splits if_splits option.splits choice.splits)

lemma owed_worker:
  assumes inv: "runner_inv ts s" and w: "w < length (workers s)" and step: "worker_step k w inp s = Some (s', evs)"
  shows "owed g i s' = owed g i s + posted (result_wt g i) evs"
proof -
  note pc = worker_frame(2) [OF step] htop_heap [OF worker_frame(1) [OF step]]
  note up = over_workers_update [OF w, of "reporting_on g i"]
  have open_: "\<not> results_closed s" using runner_invD(2) [OF inv] step exited_worker_stuck all_exited_worker [OF _ w]
    by (metis chan_inv_def option.distinct(1))
  show ?thesis
    using step
  proof (cases rule: worker_step_cases)
    case (report j rp rp' t)
    note r = report_posts(2) [OF report(2) open_, of g i] and f = report_step_frame [OF report(2)]
    show ?thesis using report(1,3) f(3,4,5) r pc htop_heap [OF f(2)]
      by (cases rp') (auto simp: owed_def up split: if_splits)
  qed (use pc in \<open>auto simp: worker_defs owed_def up
        split: list.splits option.splits sum.splits choice.splits prod.splits if_splits\<close>)
qed

interpretation result_ledger: ledger k "runner_inv ts" "owed g i" "result_wt g i" for k ts g i
proof (unfold_locales, fact runner_inv_step)
  fix s evs s' assume inv: "runner_inv ts s" and step: "step k s evs s'"
  from step show "owed g i s' = owed g i s + posted (result_wt g i) evs"
  proof cases
    case (sched inp)
    show ?thesis by (rule owed_sched [OF inv sched(2)])
  next
    case (worker w inp)
    show ?thesis by (rule owed_worker [OF inv worker(2,3)])
  qed (simp_all add: owed_def)
qed

section \<open>Publish attempts\<close>

text \<open>How many calls of Publish the run can still make.\<close>

fun attempts_left :: "nat \<Rightarrow> 'u wpc \<Rightarrow> int" where
  "attempts_left i (WCheck j) = (if i = j then int maxPublishAttempts else 0)"
| "attempts_left i (WEncode j obs) = (if i = j then int maxPublishAttempts else 0)"
| "attempts_left i (WPublish j e a) = (if i = j then int maxPublishAttempts - int a else 0)"
| "attempts_left i (WBackoff j e a err) = (if i = j then int maxPublishAttempts - int a - 1 else 0)"
| "attempts_left i p = 0"

fun publish_wt :: "nat \<Rightarrow> ev \<Rightarrow> int" where
  "publish_wt i (EvStart j) = (if i = j then int maxPublishAttempts else 0)"
| "publish_wt i (EvPublish j) = (if i = j then - 1 else 0)"
| "publish_wt i e = 0"

text \<open>The attempt of a publish loop is below the bound.\<close>

fun attempt_ok :: "'u wpc \<Rightarrow> bool" where
  "attempt_ok (WPublish j e a) = (a < maxPublishAttempts)"
| "attempt_ok (WBackoff j e a err) = (a + 1 < maxPublishAttempts)"
| "attempt_ok p = True"

lemma attempts_left_nonneg: "attempt_ok p \<Longrightarrow> 0 \<le> attempts_left i p"
  by (cases p) (auto simp: maxPublishAttempts_def)

definition attempts_ok :: "'u sys \<Rightarrow> bool" where
  "attempts_ok s \<longleftrightarrow> list_all attempt_ok (workers s)"

lemma report_no_publish:
  "report_step i rp inp s = Some (rp', t, evs) \<Longrightarrow> posted (publish_wt j) evs = 0"
  by (cases "(i, rp, inp, s)" rule: report_step.cases) (auto simp: Let_def split: if_splits)

lemma attempts_ok_step:
  assumes "attempts_ok s" "step k s evs s'"
  shows "attempts_ok s'"
  using assms(2)
proof cases
  case (sched inp)
  then show ?thesis using assms(1) sched_frame [OF sched(2)] by (simp add: attempts_ok_def)
next
  case (worker w inp)
  have ok: "attempt_ok (workers s ! w)" using assms(1) worker(2) by (simp add: attempts_ok_def list_all_length)
  from worker(3) show ?thesis
  proof (cases rule: worker_step_cases)
    case (report i rp rp' t)
    then show ?thesis using assms(1) report_step_frame(4) [OF report(2)]
      by (auto simp: attempts_ok_def intro!: list_all_upd split: option.splits)
  qed (use assms(1) ok in \<open>auto simp: worker_defs attempts_ok_def maxPublishAttempts_def intro!: list_all_upd
      split: list.splits option.splits sum.splits choice.splits prod.splits if_splits\<close>)
qed (use assms(1) in \<open>simp_all add: attempts_ok_def\<close>)

definition publish_budget :: "nat \<Rightarrow> 'u sys \<Rightarrow> int" where
  "publish_budget i s = over_workers (attempts_left i) (workers s)"

lemma publish_worker:
  assumes w: "w < length (workers s)" and step: "worker_step k w inp s = Some (s', evs)"
    and ok: "attempt_ok (workers s ! w)"
  shows "publish_budget i s' \<le> publish_budget i s + posted (publish_wt i) evs"
proof -
  note up = over_workers_update [OF w, of "attempts_left i"]
  show ?thesis
    using step
  proof (cases rule: worker_step_cases)
    case (report j rp rp' t)
    note r = report_no_publish [OF report(2), of i] and f = report_step_frame [OF report(2)]
    show ?thesis using report(1,3) f(4) r by (cases rp') (auto simp: publish_budget_def up)
  qed (use ok in \<open>auto simp: worker_defs publish_budget_def up maxPublishAttempts_def
        split: list.splits option.splits sum.splits choice.splits prod.splits if_splits\<close>)
qed

lemma sched_no_publish:
  assumes "sched_step inp s = Some (s', evs)"
  shows "posted (publish_wt i) evs = 0"
  using assms
  by (cases rule: sched_step_cases)
    (auto simp: sched_defs dest: report_no_publish [where j = i] split: list.splits if_splits option.splits choice.splits)

lemma publish_step:
  assumes "attempts_ok s" "step k s evs s'"
  shows "publish_budget i s' \<le> publish_budget i s + posted (publish_wt i) evs"
  using assms(2)
proof cases
  case (sched inp)
  then show ?thesis using sched_frame [OF sched(2)] sched_no_publish [OF sched(2)]
    by (simp add: publish_budget_def)
next
  case (worker w inp)
  then show ?thesis using publish_worker [OF worker(2,3)] assms(1)
    by (simp add: attempts_ok_def list_all_length)
qed (simp_all add: publish_budget_def)

interpretation publish_ledger: budget k attempts_ok "publish_budget i" "publish_wt i" for k i
  by unfold_locales (fact attempts_ok_step, fact publish_step)

section \<open>Counting events\<close>

definition n_ev :: "(ev \<Rightarrow> bool) \<Rightarrow> ev list \<Rightarrow> nat" where
  "n_ev P evs = length (filter P evs)"

definition n_slots :: "nat \<Rightarrow> ev list \<Rightarrow> nat" where
  "n_slots i = n_ev (\<lambda>e. case e of EvSlot j now \<Rightarrow> i = j | _ \<Rightarrow> False)"
definition n_skips :: "nat \<Rightarrow> ev list \<Rightarrow> nat" where
  "n_skips i = n_ev (\<lambda>e. case e of EvSkip j err \<Rightarrow> i = j | _ \<Rightarrow> False)"
definition n_completed :: "nat \<Rightarrow> ev list \<Rightarrow> nat" where
  "n_completed i = n_ev (\<lambda>e. case e of EvDone j err \<Rightarrow> i = j | _ \<Rightarrow> False)"
definition n_cancelled :: "nat \<Rightarrow> ev list \<Rightarrow> nat" where
  "n_cancelled i = n_ev (\<lambda>e. case e of EvCancelled j \<Rightarrow> i = j | EvAbandon j \<Rightarrow> i = j | _ \<Rightarrow> False)"
definition n_sent :: "nat \<Rightarrow> ev list \<Rightarrow> nat" where
  "n_sent i = n_ev (\<lambda>e. case e of EvSent j res \<Rightarrow> i = j | _ \<Rightarrow> False)"
definition n_dropped :: "nat \<Rightarrow> ev list \<Rightarrow> nat" where
  "n_dropped i = n_ev (\<lambda>e. case e of EvDropped j res \<Rightarrow> i = j | _ \<Rightarrow> False)"
definition n_started :: "nat \<Rightarrow> ev list \<Rightarrow> nat" where
  "n_started i = n_ev (\<lambda>e. case e of EvStart j \<Rightarrow> i = j | _ \<Rightarrow> False)"
definition n_published :: "nat \<Rightarrow> ev list \<Rightarrow> nat" where
  "n_published i = n_ev (\<lambda>e. case e of EvPublish j \<Rightarrow> i = j | _ \<Rightarrow> False)"

lemmas n_defs = n_ev_def n_slots_def n_skips_def n_completed_def n_cancelled_def n_sent_def n_dropped_def
  n_started_def n_published_def

lemma posted_counts:
  "posted (slot_wt i) evs = int (n_slots i evs) - int (n_skips i evs) - int (n_completed i evs) - int (n_cancelled i evs)"
  "posted (result_wt (\<lambda>err. 1) i) evs = int (n_skips i evs) + int (n_completed i evs) - int (n_sent i evs) - int (n_dropped i evs)"
  "posted (publish_wt i) evs = int maxPublishAttempts * int (n_started i evs) - int (n_published i evs)"
proof -
  show "posted (slot_wt i) evs =
      int (n_slots i evs) - int (n_skips i evs) - int (n_completed i evs) - int (n_cancelled i evs)"
  proof (induction evs)
    case (Cons e evs)
    then show ?case by (cases e) (simp_all add: n_defs)
  qed (simp add: n_defs)
  show "posted (result_wt (\<lambda>err. 1) i) evs =
      int (n_skips i evs) + int (n_completed i evs) - int (n_sent i evs) - int (n_dropped i evs)"
  proof (induction evs)
    case (Cons e evs)
    then show ?case by (cases e) (simp_all add: n_defs)
  qed (simp add: n_defs)
  show "posted (publish_wt i) evs = int maxPublishAttempts * int (n_started i evs) - int (n_published i evs)"
  proof (induction evs)
    case (Cons e evs)
    then show ?case by (cases e) (auto simp: n_defs algebra_simps)
  qed (simp add: n_defs)
qed

section \<open>Counters and order\<close>

text \<open>A property of the events so far and the state, by induction over the execution.\<close>

lemma exec_ghost:
  assumes "exec k s0 evs s" "runner_inv ts s0" "Q [] s0"
    and "\<And>evs s evs' s'. Q evs s \<Longrightarrow> runner_inv ts s \<Longrightarrow> step k s evs' s' \<Longrightarrow> Q (evs @ evs') s'"
  shows "Q evs s"
  using assms(1)
proof induction
  case (exec_step evs s evs' s')
  have "runner_inv ts s" using exec_step.hyps(1) assms(2) runner_inv_step by (rule exec_inv)
  then show ?case using assms(4) exec_step by blast
qed (rule assms(3))

definition all_skips :: "ev list \<Rightarrow> nat" where
  "all_skips = n_ev (\<lambda>e. case e of EvSkip j err \<Rightarrow> True | _ \<Rightarrow> False)"
definition all_dropped :: "ev list \<Rightarrow> nat" where
  "all_dropped = n_ev (\<lambda>e. case e of EvDropped j res \<Rightarrow> True | _ \<Rightarrow> False)"

fun sent_results :: "ev list \<Rightarrow> result list" where
  "sent_results [] = []"
| "sent_results (EvSent j res # evs) = res # sent_results evs"
| "sent_results (e # evs) = sent_results evs"

fun recv_results :: "ev list \<Rightarrow> result list" where
  "recv_results [] = []"
| "recv_results (EvRecv res # evs) = res # recv_results evs"
| "recv_results (e # evs) = recv_results evs"

lemma sent_append [simp]: "sent_results (evs @ evs') = sent_results evs @ sent_results evs'"
  by (induction evs rule: sent_results.induct) simp_all

lemma recv_append [simp]: "recv_results (evs @ evs') = recv_results evs @ recv_results evs'"
  by (induction evs rule: recv_results.induct) simp_all

lemma all_append [simp]:
  "all_skips (evs @ evs') = all_skips evs + all_skips evs'"
  "all_dropped (evs @ evs') = all_dropped evs + all_dropped evs'"
  by (simp_all add: all_skips_def all_dropped_def n_ev_def)

lemma all_simps [simp]:
  "all_skips [] = 0" "all_dropped [] = 0"
  by (simp_all add: all_skips_def all_dropped_def n_ev_def)

fun in_skip :: "spc \<Rightarrow> nat" where
  "in_skip (SSkip now) = 1"
| "in_skip pc = 0"

text \<open>What one transition does to the counters and to the channel of results.\<close>

definition posts_ok :: "'u sys \<Rightarrow> ev list \<Rightarrow> 'u sys \<Rightarrow> bool" where
  "posts_ok s evs s' \<longleftrightarrow>
     dropped s' = (if all_dropped evs = 0 then dropped s else wrap64 (dropped s + 1)) \<and> all_dropped evs \<le> 1 \<and>
     results s @ sent_results evs = recv_results evs @ results s'"

lemma report_posts_ok:
  assumes "report_step i rp inp s = Some (rp', t, evs)"
  shows "posts_ok s evs t" "all_skips evs = 0"
  using assms
  by (cases "(i, rp, inp, s)" rule: report_step.cases;
      auto simp: Let_def posts_ok_def all_dropped_def all_skips_def n_ev_def split: if_splits)+

lemma step_posts_ok:
  assumes "step k s evs s'"
  shows "posts_ok s evs s'"
  using assms
proof cases
  case (sched inp)
  from sched(2) show ?thesis
  proof (cases rule: sched_step_cases)
    case (report now rp rp' t)
    then show ?thesis using report_posts_ok(1) [OF report(2)] by (simp add: posts_ok_def)
  qed (auto simp: sched_defs posts_ok_def all_dropped_def n_ev_def
        split: list.splits if_splits option.splits choice.splits)
next
  case (worker w inp)
  from worker(3) show ?thesis
  proof (cases rule: worker_step_cases)
    case (report j rp rp' t)
    then show ?thesis using report_posts_ok(1) [OF report(2)] by (simp add: posts_ok_def)
  qed (auto simp: worker_defs posts_ok_def all_dropped_def n_ev_def
        split: list.splits option.splits sum.splits choice.splits prod.splits if_splits)
qed (simp_all add: posts_ok_def all_dropped_def n_ev_def)

lemma skipped_sched:
  assumes "sched_step inp s = Some (s', evs)" "skipped s = wrap64 (int n + int (in_skip (spc s)))"
  shows "skipped s' = wrap64 (int n + int (all_skips evs) + int (in_skip (spc s')))"
  using assms(1)
proof (cases rule: sched_step_cases)
  case (report now rp rp' t)
  then show ?thesis using assms(2) report_posts_ok(2) [OF report(2)] report_step_frame(14) [OF report(2)]
    by (cases rp') simp_all
next
  case (peek now)
  then show ?thesis using assms(2) wrap64_Suc [of "int n"]
    by (auto simp: peek_step_def Let_def all_skips_def n_ev_def split: if_splits)
qed (use assms(2) in \<open>auto simp: sched_defs all_skips_def n_ev_def
      split: list.splits if_splits option.splits choice.splits\<close>)

lemma skipped_step:
  assumes "step k s evs s'" "skipped s = wrap64 (int n + int (in_skip (spc s)))"
  shows "skipped s' = wrap64 (int n + int (all_skips evs) + int (in_skip (spc s')))"
  using assms(1)
proof cases
  case (sched inp)
  then show ?thesis using skipped_sched assms(2) by blast
next
  case (worker w inp)
  have "all_skips evs = 0" using worker_no_sched_events(2) [OF worker(3)]
    by (auto simp: all_skips_def n_ev_def filter_empty_conv split: ev.splits)
  then show ?thesis using worker_frame(2,10) [OF worker(3)] assms(2) by simp
qed (use assms(2) in \<open>simp_all add: all_skips_def n_ev_def\<close>)

section \<open>Executions from New\<close>

lemma executes_start:
  assumes "executes k cfg ts iv0 conc opts ctx evs s"
  obtains r where "exec k (launch r ctx) evs s" "runner_inv ts (launch r ctx)"
    "skipped r = 0" "dropped r = 0" "results r = []" "concurrency r = clamp_concurrency conc (length ts)"
    "lastDropWarn r = 0" "interval r = iv0"
proof -
  obtain r s0 where a: "args_ok ts iv0 opts" and n: "New k cfg ts iv0 conc opts = Some r" and r: "Run r ctx = Inr s0"
    and e: "exec k s0 evs s" using assms unfolding executes_def by blast
  have "s0 = launch r ctx" using r by (auto simp: Run_def split: if_splits option.splits)
  moreover have "set opts \<subseteq> range WithShutdownGrace" using a by (simp add: args_ok_def)
  ultimately show thesis using that [of r] e launch_inv [OF a n r] New_fields [OF n] by simp
qed

lemma launch_fields [simp]:
  "spc (launch r ctx) = SInit" "workers (launch r ctx) = replicate (concurrency r) WIdle"
  "work (launch r ctx) = []" "heap (launch r ctx) = []" "skipped (launch r ctx) = skipped r"
  "dropped (launch r ctx) = dropped r" "results (launch r ctx) = results r" "ctx_err (launch r ctx) = ctx"
  "lastDropWarn (launch r ctx) = lastDropWarn r" "interval (launch r ctx) = interval r"
  by (simp_all add: launch_def runner.defs)

lemma fresh_zero:
  "undecided i (launch r ctx) = 0" "owed g i (launch r ctx) = 0" "publish_budget i (launch r ctx) = 0"
  "attempts_ok (launch r ctx)"
  by (simp_all add: undecided_def owed_def publish_budget_def attempts_ok_def over_workers_zero list_all_iff)

lemma slot_counts:
  assumes "executes k cfg ts iv0 conc opts ctx evs s"
  shows "int (n_slots i evs) = int (n_skips i evs) + int (n_completed i evs) + int (n_cancelled i evs) + undecided i s"
    "int (n_skips i evs) + int (n_completed i evs) = int (n_sent i evs) + int (n_dropped i evs) + unreported i s"
proof -
  obtain r where e: "exec k (launch r ctx) evs s" and inv: "runner_inv ts (launch r ctx)"
    using executes_start [OF assms] by metis
  show "int (n_slots i evs) = int (n_skips i evs) + int (n_completed i evs) + int (n_cancelled i evs) + undecided i s"
    using slot_ledger.ledger_exec [OF e inv, of i] fresh_zero(1) [of i r ctx] by (simp add: posted_counts)
  show "int (n_skips i evs) + int (n_completed i evs) = int (n_sent i evs) + int (n_dropped i evs) + unreported i s"
    using result_ledger.ledger_exec [OF e inv, of "\<lambda>err. 1" i] fresh_zero(2) [of "\<lambda>err. 1" i r ctx]
    by (simp add: posted_counts unreported_def)
qed

lemma counters:
  assumes "executes k cfg ts iv0 conc opts ctx evs s"
  shows "skipped s = wrap64 (int (all_skips evs + in_skip (spc s)))" "dropped s = wrap64 (int (all_dropped evs))"
    "sent_results evs = recv_results evs @ results s"
proof -
  obtain r where e: "exec k (launch r ctx) evs s" and inv: "runner_inv ts (launch r ctx)"
    and z: "skipped r = 0" "dropped r = 0" "results r = []"
    using executes_start [OF assms] by metis
  have w0: "wrap64 0 = 0" by (simp add: wrap64_def)
  show "skipped s = wrap64 (int (all_skips evs + in_skip (spc s)))"
  proof (rule exec_ghost [OF e inv])
    fix evs s evs' s' assume "skipped s = wrap64 (int (all_skips evs + in_skip (spc s)))" "step k s evs' s'"
    then show "skipped s' = wrap64 (int (all_skips (evs @ evs') + in_skip (spc s')))"
      using skipped_step [of k s evs' s' "all_skips evs"] by simp
  qed (simp add: z w0)
  show "dropped s = wrap64 (int (all_dropped evs))"
  proof (rule exec_ghost [OF e inv])
    fix evs s evs' s' assume d: "dropped s = wrap64 (int (all_dropped evs))" "step k s evs' s'"
    then have "all_dropped evs' = 0 \<or> all_dropped evs' = 1"
      using step_posts_ok [OF d(2)] by (auto simp: posts_ok_def)
    then show "dropped s' = wrap64 (int (all_dropped (evs @ evs')))"
      using d step_posts_ok [OF d(2)] wrap64_Suc [of "int (all_dropped evs)"] by (auto simp: posts_ok_def add.commute)
  qed (simp add: z w0)
  show "sent_results evs = recv_results evs @ results s"
  proof (rule exec_ghost [OF e inv])
    fix evs s evs' s' assume d: "sent_results evs = recv_results evs @ results s" "step k s evs' s'"
    then show "sent_results (evs @ evs') = recv_results (evs @ evs') @ results s'"
      using step_posts_ok [OF d(2)] by (simp add: posts_ok_def)
  qed (simp add: z)
qed

lemma returned_quiet:
  assumes "runner_inv ts s" "results_closed s"
  shows "undecided i s = 0" "unreported i s = 0" "in_skip (spc s) = 0"
proof -
  note inv = runner_invD [OF assms(1)]
  obtain err where pc: "spc s = RReturned err" and ex: "all_exited s"
    using inv(2) assms(2) unfolding chan_inv_def by blast
  have all: "\<forall>p \<in> set (workers s). p = WExit" using ex by (auto simp: all_exited_conv)
  have z: "over_workers f (workers s) = 0" if "f WExit = 0" for f
    using all that by (intro over_workers_zero) auto
  have "over_workers (running_on i) (workers s) = 0" "over_workers (reporting_on (\<lambda>err. 1) i) (workers s) = 0"
    by (rule z, simp)+
  moreover have "WExit \<in> set (workers s)" using inv(6) all by (cases "workers s") auto
  then have "work s = []" using inv(2) unfolding chan_inv_def by blast
  ultimately show "undecided i s = 0" "unreported i s = 0" "in_skip (spc s) = 0"
    by (simp_all add: undecided_def unreported_def owed_def pc)
qed

section \<open>Properties\<close>

text \<open>
  C3: the accounting of a target, at every instant of every interleaving. Each processed slot of
  the entry is a skip, a completed run, an entry given up or acked without running at shutdown, or
  one that is still undecided (at most one: being judged or offered, queued, or in a run); each skip
  and each completed run is a Result that has been put on Results(), dropped, or is about to be. Once
  Run has returned and closed Results() nothing is undecided or unreported.
\<close>

theorem runner_accounting:
  assumes "executes k cfg ts iv0 conc opts ctx evs s"
  shows "int (n_slots i evs) = int (n_skips i evs) + int (n_completed i evs) + int (n_cancelled i evs) + undecided i s \<and>
    int (n_skips i evs) + int (n_completed i evs) = int (n_sent i evs) + int (n_dropped i evs) + unreported i s \<and>
    (results_closed s \<longrightarrow> n_slots i evs = n_skips i evs + n_completed i evs + n_cancelled i evs \<and>
      n_skips i evs + n_completed i evs = n_sent i evs + n_dropped i evs)"
  using slot_counts [OF assms, of i] returned_quiet(1,2) [OF executes_inv [OF assms], of i] by auto

theorem runner_accounting_witness:
  "\<exists>s evs. demo [demo_target 0] 10 1 None (dispatch_one @ run_one @ shut_down) = Some (s, evs) \<and>
    n_slots 0 evs = 1 \<and> n_completed 0 evs = 1 \<and> n_sent 0 evs = 1 \<and> n_dropped 0 evs = 0"
proof -
  have "map_option (\<lambda>(s, evs). (results_closed s, n_slots 0 evs, n_skips 0 evs, n_cancelled 0 evs, n_dropped 0 evs))
      (demo [demo_target 0] 10 1 None (dispatch_one @ run_one @ shut_down)) = Some (True, 1, 0, 0, 0)" by code_simp
  then obtain s evs where d: "demo [demo_target 0] 10 1 None (dispatch_one @ run_one @ shut_down) = Some (s, evs)"
    and c: "results_closed s" "n_slots 0 evs = 1" "n_skips 0 evs = 0" "n_cancelled 0 evs = 0" "n_dropped 0 evs = 0"
    by (auto elim: demo_result)
  have "executes demo_sdk \<lparr>CfgSource = ''descry'', CfgType = []\<rparr> [demo_target 0] 10 1 [] None evs s"
    using d by (rule demo_executes) (simp_all add: max64_def demo_target_def)
  from runner_accounting [OF this, of 0] show ?thesis using c d by auto
qed

text \<open>
  The counters and the channel tell the truth. Skipped() is the number of skips and Dropped()
  the number of discarded Results (both as int64), and Results() delivers in order exactly what was
  put on it: what was received followed by what is buffered is what was sent.
\<close>

theorem runner_counters:
  assumes "executes k cfg ts iv0 conc opts ctx evs s"
  shows "skipped s = wrap64 (int (all_skips evs + in_skip (spc s))) \<and>
    dropped s = wrap64 (int (all_dropped evs)) \<and>
    sent_results evs = recv_results evs @ results s \<and> length (results s) \<le> 2 * length ts + 1"
  using counters [OF assms] runner_invD(1) [OF executes_inv [OF assms]] by (simp add: shape_def)

theorem runner_counters_witness:
  "\<exists>s evs. demo [demo_target 0] 10 1 None (skip_queued @ [Sched NoInput, Sched NoInput, Consume]) = Some (s, evs) \<and>
    skipped s = 1 \<and> sent_results evs = recv_results evs"
proof -
  let ?as = "skip_queued @ [Sched NoInput, Sched NoInput, Consume]"
  have "map_option (\<lambda>(s, evs). (all_skips evs, in_skip (spc s), length (results s)))
      (demo [demo_target 0] 10 1 None ?as) = Some (1, 0, 0)" by code_simp
  then obtain s evs where d: "demo [demo_target 0] 10 1 None ?as = Some (s, evs)"
    and c: "all_skips evs = 1" "in_skip (spc s) = 0" "results s = []"
    by (auto elim: demo_result)
  have "executes demo_sdk \<lparr>CfgSource = ''descry'', CfgType = []\<rparr> [demo_target 0] 10 1 [] None evs s"
    using d by (rule demo_executes) (simp_all add: max64_def demo_target_def)
  from runner_counters [OF this] show ?thesis using c d by (simp add: wrap64_def)
qed

text \<open>
  A run calls Publish at most three times: over any interleaving, the calls for an entry are
  at most three times the runs of it that were started.
\<close>

theorem runner_publish_bound:
  assumes "executes k cfg ts iv0 conc opts ctx evs s"
  shows "n_published i evs \<le> 3 * n_started i evs"
proof -
  obtain r where e: "exec k (launch r ctx) evs s" using executes_start [OF assms] by metis
  have ok: "attempts_ok s" using e fresh_zero(4) attempts_ok_step by (rule exec_inv)
  have "0 \<le> publish_budget i s"
    using ok attempts_left_nonneg unfolding publish_budget_def attempts_ok_def over_workers_def
    by (intro sum_list_nonneg) (auto simp: list_all_iff)
  then show ?thesis
    using publish_ledger.budget_exec [OF e fresh_zero(4), of i] fresh_zero(3) [of i r ctx]
    by (simp add: posted_counts maxPublishAttempts_def)
qed

definition publish_fails :: "action list" where
  "publish_fails = take 5 run_one @ [Worker 0 (PublishReturns (Some (Sentinel ''eof''))), Worker 0 (Choose OnTimer),
     Worker 0 (PublishReturns (Some (Sentinel ''eof''))), Worker 0 (Choose OnTimer),
     Worker 0 (PublishReturns (Some (Sentinel ''eof'')))]"

theorem runner_publish_bound_witness:
  "\<exists>s evs. demo [demo_target 0] 10 1 None (dispatch_one @ publish_fails) = Some (s, evs) \<and>
    n_published 0 evs = 3 \<and> n_published 0 evs \<le> 3 * n_started 0 evs"
proof -
  have "map_option (\<lambda>(s, evs). n_published 0 evs) (demo [demo_target 0] 10 1 None (dispatch_one @ publish_fails)) = Some 3"
    by code_simp
  then obtain s evs where d: "demo [demo_target 0] 10 1 None (dispatch_one @ publish_fails) = Some (s, evs)"
    and c: "n_published 0 evs = 3" by (auto elim: demo_result)
  have "executes demo_sdk \<lparr>CfgSource = ''descry'', CfgType = []\<rparr> [demo_target 0] 10 1 [] None evs s"
    using d by (rule demo_executes) (simp_all add: max64_def demo_target_def)
  from runner_publish_bound [OF this, of 0] show ?thesis using c d by blast
qed

end
