(* ===== verification/Sink.thy ===== *)
theory Sink
  imports GoStrings "HOL-Library.Sublist"
begin

text \<open>
  sink/sink.go and sink/file.go: the buffered line writer shared by both sinks and its torn-line
  protocol, \<open>StdoutSink\<close>, \<open>FileSink\<close> with its opening and closing. The underlying
  writer is an explicit state: the bytes every write call delivered and the outcomes of the write
  calls to come. A sink holds its mutex through a Publish, so concurrent calls are a sequence of
  operations. The marshalling of an event is a function of the SDK, here a parameter.
\<close>

section \<open>io.Writer\<close>

text \<open>
  A write call takes every byte, or some of them with an error (the contract of \<open>io.Writer\<close>:
  fewer bytes only with an error). \<open>plan\<close> lists the outcomes of the next calls; past its end
  every call succeeds. \<open>chunks\<close> holds what each call delivered, in order. Every call on
  a closed file fails.
\<close>

datatype write_outcome = WOk | WErr nat goerr

record io_writer =
  chunks :: "string list"
  plan :: "write_outcome list"
  shut :: bool

definition os_ErrClosed :: goerr where "os_ErrClosed = Sentinel ''os.ErrClosed''"

definition raw_write :: "io_writer \<Rightarrow> string \<Rightarrow> nat \<times> goerr option \<times> io_writer" where
  "raw_write wr p =
     (if shut wr then (0, Some os_ErrClosed, wr)
      else case plan wr of
        WErr n e # r \<Rightarrow> (min n (length p), Some e, wr\<lparr>chunks := chunks wr @ [take n p], plan := r\<rparr>)
      | WOk # r \<Rightarrow> (length p, None, wr\<lparr>chunks := chunks wr @ [p], plan := r\<rparr>)
      | [] \<Rightarrow> (length p, None, wr\<lparr>chunks := chunks wr @ [p]\<rparr>))"

definition out :: "io_writer \<Rightarrow> string" where "out wr = concat (chunks wr)"

section \<open>bufio.Writer\<close>

text \<open>The pending bytes and the latched error of a writer with the default buffer.\<close>

definition buf_size :: nat where "buf_size = 4096"

record buf_writer =
  pending :: string
  latched :: "goerr option"

definition buf_new :: buf_writer where "buf_new = \<lparr>pending = [], latched = None\<rparr>"

definition available :: "buf_writer \<Rightarrow> nat" where "available w = buf_size - length (pending w)"

definition buf_flush :: "buf_writer \<Rightarrow> io_writer \<Rightarrow> goerr option \<times> buf_writer \<times> io_writer" where
  "buf_flush w wr =
     (if latched w \<noteq> None then (latched w, w, wr)
      else if pending w = [] then (None, w, wr)
      else case raw_write wr (pending w) of
          (n, Some e, wr') \<Rightarrow> (Some e, \<lparr>pending = drop n (pending w), latched = Some e\<rparr>, wr')
        | (n, None, wr') \<Rightarrow> (None, w\<lparr>pending := []\<rparr>, wr'))"

function buf_write_loop ::
  "string \<Rightarrow> nat \<Rightarrow> buf_writer \<Rightarrow> io_writer \<Rightarrow> string \<times> nat \<times> buf_writer \<times> io_writer" where
  "buf_write_loop p nn w wr =
     (if available w < length p \<and> latched w = None then
        (if pending w = [] then
           (case raw_write wr p of (n, e, wr') \<Rightarrow> buf_write_loop (drop n p) (nn + n) (w\<lparr>latched := e\<rparr>) wr')
         else (let n = available w
               in case buf_flush (w\<lparr>pending := pending w @ take n p\<rparr>) wr of
                    (e, w', wr') \<Rightarrow> buf_write_loop (drop n p) (nn + n) w' wr'))
      else (p, nn, w, wr))"
  by pat_completeness auto
termination
proof (relation "measure (\<lambda>(p, nn, w, wr). if latched w \<noteq> None then 0
    else 2 * length p + (if pending w = [] then 0 else 1) + 1)", goal_cases)
  case (2 p nn w wr n x e wr')
  then show ?case
    by (auto simp: raw_write_def available_def buf_size_def split: if_splits list.splits write_outcome.splits)
next
  case (3 p nn w wr n e x w' wr')
  then show ?case
    by (auto simp: buf_flush_def raw_write_def split: if_splits list.splits write_outcome.splits)
qed simp

declare buf_write_loop.simps [simp del]

text \<open>\<open>Writer.Write\<close>: the bytes taken, with an error when it stopped early.\<close>

definition buf_write :: "string \<Rightarrow> buf_writer \<Rightarrow> io_writer \<Rightarrow> nat \<times> goerr option \<times> buf_writer \<times> io_writer" where
  "buf_write p w wr =
     (case buf_write_loop p 0 w wr of (p', nn, w', wr') \<Rightarrow>
        if latched w' \<noteq> None then (nn, latched w', w', wr')
        else (nn + length p', None, w'\<lparr>pending := pending w' @ p'\<rparr>, wr'))"

definition buf_write_byte :: "char \<Rightarrow> buf_writer \<Rightarrow> io_writer \<Rightarrow> goerr option \<times> buf_writer \<times> io_writer" where
  "buf_write_byte c w wr =
     (if latched w \<noteq> None then (latched w, w, wr)
      else if available w = 0 then
        (case buf_flush w wr of
           (Some e, w', wr') \<Rightarrow> (latched w', w', wr')
         | (None, w', wr') \<Rightarrow> (None, w'\<lparr>pending := pending w' @ [c]\<rparr>, wr'))
      else (None, w\<lparr>pending := pending w @ [c]\<rparr>, wr))"

section \<open>The code: lines\<close>

abbreviation newline :: char where "newline \<equiv> CHR 0x0A"

definition writeLine :: "buf_writer \<Rightarrow> io_writer \<Rightarrow> string \<Rightarrow> nat \<times> goerr option \<times> buf_writer \<times> io_writer" where
  "writeLine w wr b =
     (if available w < length b + 1 then
        (case (if 0 < length (pending w) then buf_flush w wr else (None, w, wr)) of
           (Some e, w', wr') \<Rightarrow> (0, Some e, w', wr')
         | (None, w', wr') \<Rightarrow> buf_write (b @ [newline]) w' wr')
      else case buf_write b w wr of
          (n, Some e, w', wr') \<Rightarrow> (n, Some e, w', wr')
        | (n, None, w', wr') \<Rightarrow>
            (case buf_write_byte newline w' wr' of
               (Some e, w'', wr'') \<Rightarrow> (n, Some e, w'', wr'')
             | (None, w'', wr'') \<Rightarrow> (n + 1, None, w'', wr'')))"

text \<open>
  \<open>publishLine\<close> on the buffer, the underlying writer and the flag \<open>torn\<close>: its error
  and their new values.
\<close>

definition publishLine ::
  "buf_writer \<Rightarrow> io_writer \<Rightarrow> bool \<Rightarrow> string \<Rightarrow> goerr option \<times> buf_writer \<times> io_writer \<times> bool" where
  "publishLine w wr torn b =
     (let (err, w, wr) = (if torn then buf_write_byte newline w wr else (None, w, wr));
          handed = (if torn \<and> err = None then 1 else 0);
          (handed, err, w, wr) =
            (if err = None then (case writeLine w wr b of (n, err, w, wr) \<Rightarrow> (handed + n, err, w, wr))
             else (handed, err, w, wr));
          (err, w, wr) = (if err = None then buf_flush w wr else (err, w, wr))
      in if err \<noteq> None then (err, buf_new, wr, torn \<or> 0 < handed - length (pending w))
         else (None, w, wr, False))"

section \<open>The code: StdoutSink\<close>

record stdout_sink =
  out_raw :: io_writer
  out_w :: buf_writer
  out_torn :: bool

definition NewStdoutSink :: "io_writer \<Rightarrow> stdout_sink" where
  "NewStdoutSink wr = \<lparr>out_raw = wr, out_w = buf_new, out_torn = False\<rparr>"

definition StdoutSink_Publish ::
  "('e \<Rightarrow> goerr + string) \<Rightarrow> 'e \<Rightarrow> stdout_sink \<Rightarrow> goerr option \<times> stdout_sink" where
  "StdoutSink_Publish marshal e s =
     (case marshal e of Inl err \<Rightarrow> (Some (Errorf ''marshal event: %w'' [err]), s)
      | Inr b \<Rightarrow>
          (case publishLine (out_w s) (out_raw s) (out_torn s) b of
             (err, w, wr, torn) \<Rightarrow> (err, \<lparr>out_raw = wr, out_w = w, out_torn = torn\<rparr>)))"

section \<open>The code: FileSink\<close>

record file_sink =
  fs_f :: io_writer
  fs_w :: buf_writer
  fs_torn :: bool

text \<open>
  What the operating system answers to \<open>NewFileSink\<close>: the errors of the calls in turn, the
  kind of the file and its bytes (none when the call creates it).
\<close>

record file_env =
  open_err :: "goerr option"
  chmod_err :: "goerr option"
  stat_err :: "goerr option"
  is_regular :: bool
  content :: string
  reopen_err :: "goerr option"
  read_err :: "goerr option"
  close_err :: "goerr option"

definition endsWithoutNewline :: "file_env \<Rightarrow> goerr + bool" where
  "endsWithoutNewline env =
     (case stat_err env of Some err \<Rightarrow> Inl err
      | None \<Rightarrow>
          if \<not> is_regular env \<or> length (content env) = 0 then Inr False
          else (case reopen_err env of Some err \<Rightarrow> Inl err
            | None \<Rightarrow> (case read_err env of Some err \<Rightarrow> Inl err
                | None \<Rightarrow> Inr (content env ! (length (content env) - 1) \<noteq> newline))))"

text \<open>\<open>errors.Join\<close> drops nil errors.\<close>

definition join_errs :: "goerr option list \<Rightarrow> goerr option" where
  "join_errs es = (case List.map_filter id es of [] \<Rightarrow> None | ws \<Rightarrow> Some (errors_Join ws))"

text \<open>The file appends to what it holds; \<open>p\<close> are the outcomes of its write calls.\<close>

definition NewFileSink :: "file_env \<Rightarrow> write_outcome list \<Rightarrow> goerr + file_sink" where
  "NewFileSink env p =
     (case open_err env of Some err \<Rightarrow> Inl (Errorf ''open sink file: %w'' [err])
      | None \<Rightarrow>
        (case chmod_err env of
           Some err \<Rightarrow> Inl (the (join_errs [Some (Errorf ''chmod sink file: %w'' [err]), close_err env]))
         | None \<Rightarrow>
           (case endsWithoutNewline env of
              Inl err \<Rightarrow> Inl (the (join_errs [Some (Errorf ''inspect sink file: %w'' [err]), close_err env]))
            | Inr torn \<Rightarrow>
                Inr \<lparr>fs_f = \<lparr>chunks = [content env], plan = p, shut = False\<rparr>, fs_w = buf_new, fs_torn = torn\<rparr>)))"

definition FileSink_Publish ::
  "('e \<Rightarrow> goerr + string) \<Rightarrow> 'e \<Rightarrow> file_sink \<Rightarrow> goerr option \<times> file_sink" where
  "FileSink_Publish marshal e s =
     (case marshal e of Inl err \<Rightarrow> (Some (Errorf ''marshal event: %w'' [err]), s)
      | Inr b \<Rightarrow>
          (case publishLine (fs_w s) (fs_f s) (fs_torn s) b of
             (err, w, wr, torn) \<Rightarrow> (err, s\<lparr>fs_f := wr, fs_w := w, fs_torn := torn\<rparr>)))"

text \<open>\<open>Close\<close>, with what closing the descriptor answers the first time.\<close>

definition FileSink_Close :: "goerr option \<Rightarrow> file_sink \<Rightarrow> goerr option \<times> file_sink" where
  "FileSink_Close answer s =
     (let (w, wr) = (if fs_torn s then snd (buf_write_byte newline (fs_w s) (fs_f s)) else (fs_w s, fs_f s));
          (flushErr, w, wr) = buf_flush w wr;
          closeErr = (if shut wr then Some os_ErrClosed else answer)
      in (join_errs [flushErr, closeErr], s\<lparr>fs_f := wr\<lparr>shut := True\<rparr>, fs_w := w\<rparr>))"

section \<open>One publish against the underlying writer\<close>

lemma raw_write_spec:
  assumes "raw_write wr p = (n, e, wr')"
  shows "n \<le> length p" "out wr' = out wr @ take n p" "e = None \<Longrightarrow> n = length p" "shut wr' = shut wr"
  using assms by (auto simp: raw_write_def out_def min_def split: if_splits list.splits write_outcome.splits)

lemma raw_write_chunks:
  "raw_write wr p = (n, None, wr') \<Longrightarrow> chunks wr' = chunks wr @ [p]"
  by (auto simp: raw_write_def split: if_splits list.splits write_outcome.splits)

lemma buf_write_fits:
  assumes "latched w = None" "length p \<le> available w"
  shows "buf_write p w wr = (length p, None, w\<lparr>pending := pending w @ p\<rparr>, wr)"
  using assms by (simp add: buf_write_def buf_write_loop.simps [of p])

lemma buf_write_large:
  assumes "latched w = None" "pending w = []" "available w < length p"
  shows "buf_write p w wr = (case raw_write wr p of (n, e, wr') \<Rightarrow> (n, e, w\<lparr>latched := e\<rparr>, wr'))"
proof -
  obtain n e wr' where r: "raw_write wr p = (n, e, wr')" by (cases "raw_write wr p")
  then have "e = None \<Longrightarrow> n = length p" by (rule raw_write_spec)
  then show ?thesis
    using assms r by (cases e) (auto simp: buf_write_def buf_write_loop.simps [of p] buf_write_loop.simps [of "[]"]
        buf_write_loop.simps [of "drop n p"])
qed

text \<open>What one publish comes to: at most two write calls, the first for a separator alone.\<close>

definition write_line_once ::
  "bool \<Rightarrow> string \<Rightarrow> io_writer \<Rightarrow> goerr option \<times> buf_writer \<times> io_writer \<times> bool" where
  "write_line_once torn p wr =
     (case raw_write wr p of
        (n, Some e, wr') \<Rightarrow> (Some e, buf_new, wr', torn \<or> 0 < n)
      | (n, None, wr') \<Rightarrow> (None, buf_new, wr', False))"

definition publish_ref ::
  "io_writer \<Rightarrow> bool \<Rightarrow> string \<Rightarrow> goerr option \<times> buf_writer \<times> io_writer \<times> bool" where
  "publish_ref wr torn b =
     (if \<not> torn then write_line_once False (b @ [newline]) wr
      else if length b + 2 \<le> buf_size then write_line_once True ([newline] @ b @ [newline]) wr
      else case raw_write wr [newline] of
          (n, Some e, wr') \<Rightarrow> (Some e, buf_new, wr', True)
        | (n, None, wr') \<Rightarrow> write_line_once True (b @ [newline]) wr')"

lemma buf_write_byte_fits:
  "latched w = None \<Longrightarrow> 0 < available w \<Longrightarrow>
   buf_write_byte c w wr = (None, w\<lparr>pending := pending w @ [c]\<rparr>, wr)"
  by (simp add: buf_write_byte_def)

lemma writeLine_fits:
  assumes "latched w = None" "length b + 1 \<le> available w"
  shows "writeLine w wr b = (length b + 1, None, w\<lparr>pending := pending w @ b @ [newline]\<rparr>, wr)"
proof -
  have "length b \<le> available w" "0 < available (w\<lparr>pending := pending w @ b\<rparr>)"
    using assms(2) by (auto simp: available_def)
  then show ?thesis using assms by (simp add: writeLine_def buf_write_fits buf_write_byte_fits)
qed

lemma buf_flush_pending:
  "pending w \<noteq> [] \<Longrightarrow> latched w = None \<Longrightarrow> buf_flush w wr =
     (case raw_write wr (pending w) of
        (n, Some e, wr') \<Rightarrow> (Some e, \<lparr>pending = drop n (pending w), latched = Some e\<rparr>, wr')
      | (n, None, wr') \<Rightarrow> (None, w\<lparr>pending := []\<rparr>, wr'))"
  by (simp add: buf_flush_def)

lemmas buf_new_simps = buf_new_def available_def buf_size_def

lemma publishLine_small:
  assumes "(if torn then length b + 2 else length b + 1) \<le> buf_size"
  shows "publishLine buf_new wr torn b =
    write_line_once torn ((if torn then [newline] else []) @ b @ [newline]) wr"
proof -
  obtain n e wr' where r: "raw_write wr ((if torn then [newline] else []) @ b @ [newline]) = (n, e, wr')"
    by (cases "raw_write wr ((if torn then [newline] else []) @ b @ [newline])")
  note spec = raw_write_spec [OF r]
  show ?thesis
    using assms r spec(1)
    by (cases torn; cases e)
       (simp_all add: publishLine_def writeLine_fits buf_write_byte_fits buf_flush_pending write_line_once_def
        buf_new_simps Let_def, arith)
qed

lemma publishLine_large:
  assumes "buf_size < length b + 1"
  shows "publishLine buf_new wr False b = write_line_once False (b @ [newline]) wr"
proof -
  obtain n e wr' where r: "raw_write wr (b @ [newline]) = (n, e, wr')"
    by (cases "raw_write wr (b @ [newline])")
  show ?thesis
    using assms r raw_write_spec(1,3) [OF r]
    by (cases e)
       (simp_all add: publishLine_def writeLine_def buf_write_large buf_flush_def write_line_once_def
        buf_new_simps Let_def)
qed

lemma publishLine_torn_large:
  assumes "buf_size < length b + 2"
  shows "publishLine buf_new wr True b =
    (case raw_write wr [newline] of
       (n, Some e, wr') \<Rightarrow> (Some e, buf_new, wr', True)
     | (n, None, wr') \<Rightarrow> write_line_once True (b @ [newline]) wr')"
proof -
  obtain n e wr1 where r: "raw_write wr [newline] = (n, e, wr1)" by (cases "raw_write wr [newline]")
  obtain m e' wr2 where r': "raw_write wr1 (b @ [newline]) = (m, e', wr2)"
    by (cases "raw_write wr1 (b @ [newline])")
  show ?thesis
  proof (cases e)
    case (Some x)
    then show ?thesis using assms r
      by (simp add: publishLine_def writeLine_def buf_write_byte_fits buf_flush_pending buf_new_simps Let_def)
  next
    case None
    then have w: "writeLine \<lparr>pending = [newline], latched = None\<rparr> wr b = buf_write (b @ [newline]) buf_new wr1"
      using assms r by (simp add: writeLine_def buf_flush_pending buf_new_simps)
    show ?thesis
    proof (cases "length b + 1 \<le> buf_size")
      case True
      then have "buf_write (b @ [newline]) buf_new wr1 = (length b + 1, None, \<lparr>pending = b @ [newline], latched = None\<rparr>, wr1)"
        by (simp add: buf_write_fits buf_new_simps)
      then show ?thesis using None r r' w raw_write_spec(1) [OF r']
        by (cases e') (simp_all add: publishLine_def buf_write_byte_fits buf_flush_pending write_line_once_def
            buf_new_simps Let_def)
    next
      case False
      then have "buf_write (b @ [newline]) buf_new wr1 = (m, e', \<lparr>pending = [], latched = e'\<rparr>, wr2)"
        using r' by (simp add: buf_write_large buf_new_simps)
      then show ?thesis using None r r' w
        by (cases e') (simp_all add: publishLine_def buf_write_byte_fits buf_flush_def write_line_once_def
            buf_new_simps Let_def)
    qed
  qed
qed

lemma publishLine_ref: "publishLine buf_new wr torn b = publish_ref wr torn b"
proof (cases "(if torn then length b + 2 else length b + 1) \<le> buf_size")
  case True
  then show ?thesis by (auto simp: publishLine_small publish_ref_def)
next
  case False
  then show ?thesis by (cases torn) (simp_all add: publishLine_large publishLine_torn_large publish_ref_def)
qed

text \<open>The bytes delivered are the front of the separator, the record and its newline.\<close>

lemma write_line_once_delivers:
  assumes "write_line_once torn p wr = (err, w, wr', torn')"
  shows "w = buf_new \<and> (\<exists>d. out wr' = out wr @ d \<and> prefix d p \<and> (err = None \<longrightarrow> d = p) \<and>
    torn' = (err \<noteq> None \<and> (torn \<or> d \<noteq> [])))"
proof -
  obtain n e wr1 where r: "raw_write wr p = (n, e, wr1)" by (cases "raw_write wr p")
  note spec = raw_write_spec [OF r]
  have "prefix (take n p) p" by (simp add: take_is_prefix)
  moreover have "0 < n \<longleftrightarrow> take n p \<noteq> []" using spec(1) by (cases p) auto
  ultimately show ?thesis using assms r spec by (cases e) (auto simp: write_line_once_def)
qed

lemma publish_delivers:
  assumes "publishLine buf_new wr torn b = (err, w, wr', torn')"
  shows "w = buf_new \<and> (\<exists>d. out wr' = out wr @ d \<and>
    prefix d ((if torn then [newline] else []) @ b @ [newline]) \<and>
    (err = None \<longrightarrow> d = (if torn then [newline] else []) @ b @ [newline]) \<and>
    torn' = (err \<noteq> None \<and> (torn \<or> d \<noteq> [])))"
proof (cases "torn \<and> buf_size < length b + 2")
  case False
  then have "write_line_once torn ((if torn then [newline] else []) @ b @ [newline]) wr = (err, w, wr', torn')"
    using assms by (cases torn) (auto simp: publishLine_ref publish_ref_def)
  from write_line_once_delivers [OF this] show ?thesis .
next
  case True
  obtain n e wr1 where r: "raw_write wr [newline] = (n, e, wr1)" by (cases "raw_write wr [newline]")
  note spec = raw_write_spec [OF r]
  show ?thesis
  proof (cases e)
    case (Some x)
    have "prefix (take n [newline]) ([newline] @ b @ [newline])" by (cases n) auto
    then show ?thesis using True Some assms r spec(2)
      by (auto simp: publishLine_ref publish_ref_def simp del: append_Cons)
  next
    case None
    then have "write_line_once True (b @ [newline]) wr1 = (err, w, wr', torn')"
      using True assms r by (simp add: publishLine_ref publish_ref_def)
    from write_line_once_delivers [OF this] show ?thesis
      using True None spec(2,3) by (force simp: prefix_def)
  qed
qed

section \<open>What a reader of the output sees\<close>

text \<open>
  The complete lines of the output, what follows the last newline, and whether the sink still
  owes a separator.
\<close>

record jsonl_log =
  complete :: "string list"
  fragment :: string
  dirty :: bool

definition view_of :: "string \<Rightarrow> bool \<Rightarrow> jsonl_log" where
  "view_of s torn =
     \<lparr>complete = butlast (split_on newline s), fragment = last (split_on newline s), dirty = torn\<rparr>"

definition closed_fragment :: "jsonl_log \<Rightarrow> string list" where
  "closed_fragment l = (if dirty l then [fragment l] else [])"

text \<open>
  The abstract sink: an acknowledged record becomes a line of its own, after the fragment it
  terminates; a failed one leaves nothing, a front part of it as the new fragment, or a line of
  its own that was not acknowledged.
\<close>

inductive log_step :: "jsonl_log \<Rightarrow> string \<Rightarrow> bool \<Rightarrow> jsonl_log \<Rightarrow> bool" where
  acked: "log_step l b True \<lparr>complete = complete l @ closed_fragment l @ [b], fragment = [], dirty = False\<rparr>"
| lost: "log_step l b False l"
| cut_short: "prefix p b \<Longrightarrow> p \<noteq> [] \<or> dirty l \<Longrightarrow>
    log_step l b False \<lparr>complete = complete l @ closed_fragment l, fragment = p, dirty = True\<rparr>"
| unacked: "log_step l b False \<lparr>complete = complete l @ closed_fragment l @ [b], fragment = [], dirty = True\<rparr>"

lemma split_on_nonempty [simp]: "split_on c s \<noteq> []"
  by (induction c s rule: split_on.induct) (auto split: list.splits)

lemma split_on_sep: "split_on c (a @ c # r) = split_on c a @ split_on c r"
proof (induction a)
  case (Cons x a)
  then show ?case by (cases "split_on c a") auto
qed simp

lemma split_on_plain: "c \<notin> set d \<Longrightarrow> split_on c d = [d]"
  by (induction d) auto

lemma split_on_extend:
  assumes "c \<notin> set d"
  shows "split_on c (a @ d) = butlast (split_on c a) @ [last (split_on c a) @ d]"
proof (induction a)
  case (Cons x a)
  show ?case
    using Cons split_on_nonempty [of c a] by (cases "split_on c a") auto
qed (simp add: assms split_on_plain)

definition sink_inv :: "buf_writer \<Rightarrow> io_writer \<Rightarrow> bool \<Rightarrow> bool" where
  "sink_inv w wr torn \<longleftrightarrow> w = buf_new \<and> (\<not> torn \<longrightarrow> last (split_on newline (out wr)) = [])"

lemma split_butlast_last [simp]:
  "butlast (split_on c s) @ last (split_on c s) # r = split_on c s @ r"
  using append_butlast_last_id [OF split_on_nonempty, of c s] by (metis append_Cons append_Nil append_assoc)

lemma deliver_torn:
  assumes d: "prefix d (b @ [newline])" and b: "newline \<notin> set b" and ok: "ok \<longrightarrow> d = b @ [newline]"
  shows "log_step (view_of s True) b ok (view_of (s @ newline # d) (\<not> ok))"
    and "ok \<longrightarrow> last (split_on newline (s @ newline # d)) = []"
proof -
  have 1: "d = b @ [newline] \<or> prefix d b" using d by simp
  have 2: "split_on newline (s @ newline # b @ [newline]) = split_on newline s @ [b, []]"
    by (simp add: split_on_sep split_on_plain [OF b])
  have 3: "split_on newline (s @ newline # d) = split_on newline s @ [d]" if "prefix d b"
  proof -
    have "newline \<notin> set d" using that b set_mono_prefix by blast
    then show ?thesis by (simp add: split_on_sep split_on_plain)
  qed
  show "log_step (view_of s True) b ok (view_of (s @ newline # d) (\<not> ok))"
  proof (cases "d = b @ [newline]")
    case True
    then show ?thesis
      using acked [of "view_of s True" b] unacked [of "view_of s True" b]
      by (cases ok) (simp_all add: view_of_def closed_fragment_def 2 butlast_append)
  next
    case False
    then have p: "prefix d b" and "\<not> ok" using 1 ok by auto
    then show ?thesis
      using cut_short [of d b "view_of s True"] by (simp add: view_of_def closed_fragment_def 3)
  qed
  show "ok \<longrightarrow> last (split_on newline (s @ newline # d)) = []" using ok 2 by auto
qed

lemma deliver_clean:
  assumes d: "prefix d (b @ [newline])" and b: "newline \<notin> set b" and ok: "ok \<longrightarrow> d = b @ [newline]"
    and clean: "last (split_on newline s) = []"
  shows "log_step (view_of s False) b ok (view_of (s @ d) (\<not> ok \<and> d \<noteq> []))"
    and "\<not> (\<not> ok \<and> d \<noteq> []) \<longrightarrow> last (split_on newline (s @ d)) = []"
proof -
  have 1: "d = b @ [newline] \<or> prefix d b" using d by simp
  have 2: "split_on newline (s @ b @ [newline]) = butlast (split_on newline s) @ [b, []]"
    using split_on_sep [of newline "s @ b" "[]"] split_on_extend [OF b, of s] clean by simp
  have 3: "split_on newline (s @ d) = butlast (split_on newline s) @ [d]" if "prefix d b"
  proof -
    have "newline \<notin> set d" using that b set_mono_prefix by blast
    then show ?thesis using clean by (simp add: split_on_extend)
  qed
  show "log_step (view_of s False) b ok (view_of (s @ d) (\<not> ok \<and> d \<noteq> []))"
  proof (cases "d = b @ [newline]")
    case True
    then show ?thesis
      using acked [of "view_of s False" b] unacked [of "view_of s False" b]
      by (cases ok) (simp_all add: view_of_def closed_fragment_def 2 butlast_append)
  next
    case False
    then have p: "prefix d b" and n: "\<not> ok" using 1 ok by auto
    show ?thesis
      using n cut_short [OF p, of "view_of s False"] lost [of "view_of s False" b] p
      by (cases "d = []") (simp_all add: view_of_def closed_fragment_def 3)
  qed
  show "\<not> (\<not> ok \<and> d \<noteq> []) \<longrightarrow> last (split_on newline (s @ d)) = []" using ok 2 clean by auto
qed

text \<open>One publish of a record without a newline is a step of the abstract sink.\<close>

lemma publishLine_refines:
  assumes pub: "publishLine w wr torn b = (err, w', wr', torn')"
    and inv: "sink_inv w wr torn" and b: "newline \<notin> set b"
  shows "sink_inv w' wr' torn'"
    and "log_step (view_of (out wr) torn) b (err = None) (view_of (out wr') torn')"
proof -
  have w: "w = buf_new" and clean: "\<not> torn \<longrightarrow> last (split_on newline (out wr)) = []"
    using inv by (simp_all add: sink_inv_def)
  obtain d where d: "w' = buf_new" "out wr' = out wr @ d"
      "prefix d ((if torn then [newline] else []) @ b @ [newline])"
      "err = None \<longrightarrow> d = (if torn then [newline] else []) @ b @ [newline]"
      "torn' = (err \<noteq> None \<and> (torn \<or> d \<noteq> []))"
    using publish_delivers [OF pub [unfolded w]] by auto
  have "sink_inv w' wr' torn' \<and> log_step (view_of (out wr) torn) b (err = None) (view_of (out wr') torn')"
  proof (cases torn)
    case False
    then show ?thesis using d clean b deliver_clean [of d b "err = None" "out wr"] by (auto simp: sink_inv_def)
  next
    case True
    show ?thesis
    proof (cases d)
      case Nil
      then show ?thesis using d True lost [of "view_of (out wr) True" b] by (auto simp: sink_inv_def)
    next
      case (Cons c d')
      then have "c = newline" "prefix d' (b @ [newline])" "err = None \<longrightarrow> d' = b @ [newline]"
        using d True by auto
      then show ?thesis using d True Cons b deliver_torn [of d' b "err = None" "out wr"]
        by (auto simp: sink_inv_def)
    qed
  qed
  then show "sink_inv w' wr' torn'"
    "log_step (view_of (out wr) torn) b (err = None) (view_of (out wr') torn')" by auto
qed

section \<open>The interface EventSink\<close>

text \<open>
  A run of calls and their errors, and the records whose Publish returned nil.
\<close>

fun publish_all :: "('e \<Rightarrow> 's \<Rightarrow> goerr option \<times> 's) \<Rightarrow> 'e list \<Rightarrow> 's \<Rightarrow> goerr option list \<times> 's" where
  "publish_all publish [] s = ([], s)"
| "publish_all publish (e # es) s =
     (case publish e s of (r, s1) \<Rightarrow> (case publish_all publish es s1 of (rs, s2) \<Rightarrow> (r # rs, s2)))"

fun acknowledged :: "('e \<Rightarrow> goerr + string) \<Rightarrow> 'e list \<Rightarrow> goerr option list \<Rightarrow> string list" where
  "acknowledged marshal (e # es) (r # rs) =
     (case (r, marshal e) of (None, Inr b) \<Rightarrow> b # acknowledged marshal es rs
      | _ \<Rightarrow> acknowledged marshal es rs)"
| "acknowledged marshal es rs = []"

text \<open>The marshalled form of an event holds no newline (compact JSON).\<close>

definition newline_free :: "('e \<Rightarrow> goerr + string) \<Rightarrow> bool" where
  "newline_free marshal \<longleftrightarrow> (\<forall>e b. marshal e = Inr b \<longrightarrow> newline \<notin> set b)"

text \<open>The front parts of the records of a run.\<close>

definition fronts :: "('e \<Rightarrow> goerr + string) \<Rightarrow> 'e list \<Rightarrow> string set" where
  "fronts marshal es = {p. \<exists>e \<in> set es. \<exists>b. marshal e = Inr b \<and> prefix p b}"

lemma log_step_effect:
  assumes "log_step l b ok l'"
  shows "\<exists>new. complete l' = complete l @ new \<and> subseq (if ok then [b] else []) new \<and>
    set new \<subseteq> insert (fragment l) {p. prefix p b} \<and> fragment l' \<in> insert (fragment l) {p. prefix p b}"
  using assms by cases (auto simp: closed_fragment_def)

locale event_sink =
  fixes marshal :: "'e \<Rightarrow> goerr + string"
    and publish :: "'e \<Rightarrow> 's \<Rightarrow> goerr option \<times> 's"
    and view :: "'s \<Rightarrow> jsonl_log"
    and inv :: "'s \<Rightarrow> bool"
  assumes marshal_error: "marshal e = Inl x \<Longrightarrow> publish e s = (r, s') \<Longrightarrow> r \<noteq> None \<and> s' = s"
    and publish_step: "marshal e = Inr b \<Longrightarrow> newline \<notin> set b \<Longrightarrow> inv s \<Longrightarrow> publish e s = (r, s') \<Longrightarrow>
      inv s' \<and> log_step (view s) b (r = None) (view s')"
begin

lemma run_reader:
  assumes "newline_free marshal" "inv s" "publish_all publish es s = (rs, s')"
  shows "inv s' \<and> (\<exists>new. complete (view s') = complete (view s) @ new \<and>
    subseq (acknowledged marshal es rs) new \<and> set new \<subseteq> insert (fragment (view s)) (fronts marshal es))"
  using assms
proof (induction es arbitrary: s rs)
  case (Cons e es)
  obtain r s1 where p: "publish e s = (r, s1)" by (cases "publish e s")
  obtain rs1 where q: "publish_all publish es s1 = (rs1, s')" and rs: "rs = r # rs1"
    using Cons.prems p by (auto split: prod.splits)
  show ?case
  proof (cases "marshal e")
    case (Inl x)
    then have "r \<noteq> None" "s1 = s" using marshal_error p by auto
    moreover have "fronts marshal es \<subseteq> fronts marshal (e # es)" by (auto simp: fronts_def)
    ultimately show ?thesis using Cons.IH [OF Cons.prems(1) Cons.prems(2)] q rs Inl by auto blast
  next
    case (Inr b)
    then have nb: "newline \<notin> set b" using Cons.prems(1) by (auto simp: newline_free_def)
    have st: "inv s1" "log_step (view s) b (r = None) (view s1)"
      using publish_step [OF Inr nb Cons.prems(2) p] by auto
    obtain n1 where n1: "complete (view s1) = complete (view s) @ n1" "subseq (if r = None then [b] else []) n1"
        "set n1 \<subseteq> insert (fragment (view s)) {p. prefix p b}"
        "fragment (view s1) \<in> insert (fragment (view s)) {p. prefix p b}"
      using log_step_effect [OF st(2)] by blast
    obtain n2 where n2: "inv s'" "complete (view s') = complete (view s1) @ n2"
        "subseq (acknowledged marshal es rs1) n2" "set n2 \<subseteq> insert (fragment (view s1)) (fronts marshal es)"
      using Cons.IH [OF Cons.prems(1) st(1) q] by blast
    have "acknowledged marshal (e # es) rs = (if r = None then [b] else []) @ acknowledged marshal es rs1"
      using rs Inr by (cases r) auto
    then have "subseq (acknowledged marshal (e # es) rs) (n1 @ n2)"
      using list_emb_append_mono [OF n1(2) n2(3)] by simp
    moreover have "set (n1 @ n2) \<subseteq> insert (fragment (view s)) (fronts marshal (e # es))"
      using n1(3,4) n2(4) Inr by (auto simp: fronts_def)
    ultimately show ?thesis using n1(1) n2(1,2) by (intro conjI exI [of _ "n1 @ n2"]) auto
  qed
qed simp

end

definition stdout_inv :: "stdout_sink \<Rightarrow> bool" where
  "stdout_inv s \<longleftrightarrow> sink_inv (out_w s) (out_raw s) (out_torn s)"

definition stdout_view :: "stdout_sink \<Rightarrow> jsonl_log" where
  "stdout_view s = view_of (out (out_raw s)) (out_torn s)"

definition file_inv :: "file_sink \<Rightarrow> bool" where
  "file_inv s \<longleftrightarrow> sink_inv (fs_w s) (fs_f s) (fs_torn s)"

definition file_view :: "file_sink \<Rightarrow> jsonl_log" where
  "file_view s = view_of (out (fs_f s)) (fs_torn s)"

lemmas sink_views = stdout_inv_def stdout_view_def file_inv_def file_view_def

interpretation osink: event_sink marshal "StdoutSink_Publish marshal" stdout_view stdout_inv
  for marshal :: "'e \<Rightarrow> goerr + string"
proof (standard, goal_cases)
  case (1 e x s r s')
  then show ?case by (auto simp: StdoutSink_Publish_def)
next
  case (2 e b s r s')
  then show ?case
    using publishLine_refines [of "out_w s" "out_raw s" "out_torn s" b]
    by (auto simp: StdoutSink_Publish_def sink_views split: prod.splits)
qed

interpretation fsink: event_sink marshal "FileSink_Publish marshal" file_view file_inv
  for marshal :: "'e \<Rightarrow> goerr + string"
proof (standard, goal_cases)
  case (1 e x s r s')
  then show ?case by (auto simp: FileSink_Publish_def)
next
  case (2 e b s r s')
  then show ?case
    using publishLine_refines [of "fs_w s" "fs_f s" "fs_torn s" b]
    by (auto simp: FileSink_Publish_def sink_views split: prod.splits)
qed

section \<open>Opening and closing a file\<close>

lemma last_split_on: "last (split_on c s) = [] \<longleftrightarrow> s = [] \<or> last s = c"
proof (cases s rule: rev_cases)
  case (snoc a x)
  show ?thesis
  proof (cases "x = c")
    case True
    then show ?thesis using snoc split_on_sep [of c a "[]"] by simp
  next
    case False
    then show ?thesis using snoc split_on_extend [of c "[x]" a] by simp
  qed
qed simp

lemma endsWithoutNewline_content:
  "endsWithoutNewline env = Inr torn \<Longrightarrow> is_regular env \<Longrightarrow>
   torn = (content env \<noteq> [] \<and> last (content env) \<noteq> newline)"
  by (auto simp: endsWithoutNewline_def last_conv_nth split: option.splits if_splits)

lemma NewFileSink_inv:
  assumes "NewFileSink env p = Inr s" "is_regular env"
  shows "file_inv s" and "file_view s = view_of (content env) (last (split_on newline (content env)) \<noteq> [])"
  using assms endsWithoutNewline_content [of env]
  by (auto simp: NewFileSink_def sink_views sink_inv_def out_def last_split_on split: option.splits sum.splits)

lemma NewStdoutSink_inv:
  assumes "out wr = [] \<or> last (out wr) = newline"
  shows "stdout_inv (NewStdoutSink wr)"
  using assms by (simp add: NewStdoutSink_def sink_views sink_inv_def last_split_on)

lemma split_on_snoc: "last (split_on c (s @ [c])) = []"
  by (simp add: last_split_on)

lemma Close_cases:
  assumes inv: "file_inv s" and open_f: "\<not> shut (fs_f s)" and close: "FileSink_Close answer s = (err, s')"
  shows "shut (fs_f s')"
    and "\<not> fs_torn s \<Longrightarrow> out (fs_f s') = out (fs_f s) \<and> err = join_errs [None, answer]"
    and "fs_torn s \<Longrightarrow> raw_write (fs_f s) [newline] = (n, e, wr') \<Longrightarrow>
      out (fs_f s') = out (fs_f s) @ take n [newline] \<and> err = join_errs [e, answer]"
proof -
  have w: "fs_w s = buf_new" using inv by (simp add: sink_views sink_inv_def)
  obtain m x wr1 where r: "raw_write (fs_f s) [newline] = (m, x, wr1)" by (cases "raw_write (fs_f s) [newline]")
  note spec = raw_write_spec [OF r]
  have out_shut: "out (wr\<lparr>shut := b\<rparr>) = out wr" for wr b by (simp add: out_def)
  note defs = FileSink_Close_def buf_write_byte_fits buf_flush_def w buf_new_simps Let_def out_shut
  show "shut (fs_f s')" using close by (auto simp: FileSink_Close_def Let_def split: prod.splits)
  show "\<not> fs_torn s \<Longrightarrow> out (fs_f s') = out (fs_f s) \<and> err = join_errs [None, answer]"
    using close open_f by (auto simp: defs)
  show "fs_torn s \<Longrightarrow> raw_write (fs_f s) [newline] = (n, e, wr') \<Longrightarrow>
      out (fs_f s') = out (fs_f s) @ take n [newline] \<and> err = join_errs [e, answer]"
    using close open_f r spec by (cases x) (auto simp: defs)
qed

lemma join_errs_None [simp]: "join_errs es = None \<longleftrightarrow> set es \<subseteq> {None}"
proof -
  have "List.map_filter id es = [] \<longleftrightarrow> set es \<subseteq> {None}"
    by (induction es) (auto simp: map_filter_simps split: option.splits)
  then show ?thesis by (auto simp: join_errs_def split: list.splits)
qed

section \<open>Properties\<close>

text \<open>
  C12: Publish refines the abstract sink. On a sink whose buffer is clean and whose output is on
  a line boundary unless it is torn, publishing a record either fails to marshal and changes
  nothing, or keeps that state and takes one step of the abstract sink: an acknowledged record is
  a complete line of its own, and a failed one leaves nothing, a fragment, or one line.
\<close>

theorem Publish_refines:
  assumes "file_inv s" and "newline_free marshal" and "FileSink_Publish marshal e s = (err, s')"
  shows "file_inv s' \<and>
    (case marshal e of
       Inl x \<Rightarrow> err = Some (Errorf ''marshal event: %w'' [x]) \<and> s' = s
     | Inr b \<Rightarrow> log_step (file_view s) b (err = None) (file_view s'))"
proof (cases "marshal e")
  case (Inl x)
  then show ?thesis using assms by (auto simp: FileSink_Publish_def)
next
  case (Inr b)
  then show ?thesis using fsink.publish_step [OF Inr _ assms(1,3)] assms(2) by (auto simp: newline_free_def)
qed

definition demo_env :: file_env where
  "demo_env = \<lparr>open_err = None, chmod_err = None, stat_err = None, is_regular = True, content = ''x'',
     reopen_err = None, read_err = None, close_err = None\<rparr>"

definition demo_marshal :: "string \<Rightarrow> goerr + string" where
  "demo_marshal s = (if newline \<in> set s then Inl (Sentinel ''json'') else Inr s)"

lemma demo_newline_free: "newline_free demo_marshal"
  by (auto simp: newline_free_def demo_marshal_def)

definition demo_file :: "write_outcome list \<Rightarrow> file_sink" where
  "demo_file p = \<lparr>fs_f = \<lparr>chunks = [''x''], plan = p, shut = False\<rparr>, fs_w = buf_new, fs_torn = True\<rparr>"

lemma demo_open: "NewFileSink demo_env p = Inr (demo_file p)"
  by (simp add: NewFileSink_def endsWithoutNewline_def demo_env_def demo_file_def)

lemma demo_inv: "file_inv (demo_file p)"
  using NewFileSink_inv [OF demo_open] by (simp add: demo_env_def)

lemmas demo_eval = demo_file_def demo_marshal_def FileSink_Publish_def publishLine_ref publish_ref_def
  write_line_once_def raw_write_def buf_size_def

theorem Publish_refines_witness:
  "\<exists>err s'. FileSink_Publish demo_marshal ''ab'' (demo_file [WErr 2 os_ErrClosed]) = (err, s') \<and> err \<noteq> None \<and>
     out (fs_f s') = ''x'' @ newline # ''a'' \<and>
     log_step (file_view (demo_file [WErr 2 os_ErrClosed])) ''ab'' False (file_view s')"
proof -
  obtain err s' where p: "FileSink_Publish demo_marshal ''ab'' (demo_file [WErr 2 os_ErrClosed]) = (err, s')"
    by (cases "FileSink_Publish demo_marshal ''ab'' (demo_file [WErr 2 os_ErrClosed])")
  then have e: "err \<noteq> None" "out (fs_f s') = ''x'' @ newline # ''a''"
    by (auto simp: demo_eval out_def)
  have "demo_marshal ''ab'' = Inr ''ab''" by (simp add: demo_marshal_def)
  then show ?thesis using Publish_refines [OF demo_inv demo_newline_free p] p e by auto
qed

text \<open>
  C11: A file sink opened on any regular file, whatever its last bytes and whichever later writes
  fail or stop short, keeps every line the file had; each record whose Publish returned nil
  stands in order on a complete line of its own; and every other added line is the file's old
  unterminated fragment or the front of a record of this run.
\<close>

theorem FileSink_keeps_acknowledged:
  assumes "NewFileSink env p = Inr s" and "is_regular env" and "newline_free marshal"
    and "publish_all (FileSink_Publish marshal) es s = (rs, s')"
  shows "\<exists>new. butlast (split_on newline (out (fs_f s'))) = butlast (split_on newline (content env)) @ new \<and>
    subseq (acknowledged marshal es rs) new \<and>
    set new \<subseteq> insert (last (split_on newline (content env))) (fronts marshal es)"
  using fsink.run_reader [OF assms(3) NewFileSink_inv(1) [OF assms(1,2)] assms(4)] NewFileSink_inv(2) [OF assms(1,2)]
  by (auto simp: file_view_def view_of_def)

theorem FileSink_keeps_acknowledged_witness:
  "\<exists>rs s'. publish_all (FileSink_Publish demo_marshal) [''aa'', ''bb'', ''cc''] (demo_file [WOk, WErr 1 os_ErrClosed]) = (rs, s') \<and>
     acknowledged demo_marshal [''aa'', ''bb'', ''cc''] rs = [''aa'', ''cc''] \<and>
     (\<exists>new. butlast (split_on newline (out (fs_f s'))) = new \<and> subseq [''aa'', ''cc''] new)"
proof -
  obtain rs s' where p: "publish_all (FileSink_Publish demo_marshal) [''aa'', ''bb'', ''cc'']
      (demo_file [WOk, WErr 1 os_ErrClosed]) = (rs, s')"
    by (cases "publish_all (FileSink_Publish demo_marshal) [''aa'', ''bb'', ''cc''] (demo_file [WOk, WErr 1 os_ErrClosed])")
  then have a: "acknowledged demo_marshal [''aa'', ''bb'', ''cc''] rs = [''aa'', ''cc'']"
    by (auto simp: demo_eval)
  have "is_regular demo_env" "butlast (split_on newline (content demo_env)) = []" by (simp_all add: demo_env_def)
  then show ?thesis using FileSink_keeps_acknowledged [OF demo_open _ demo_newline_free p] p a by auto
qed

text \<open>
  Close always closes the file. It writes one newline exactly when the sink is torn, so the
  output ends on a line boundary unless that write failed; it returns nil exactly when neither
  the write nor the close failed.
\<close>

theorem Close_contract:
  assumes "file_inv s" and "\<not> shut (fs_f s)" and "FileSink_Close answer s = (err, s')"
    and "raw_write (fs_f s) [newline] = (n, e, wr')"
  shows "shut (fs_f s') \<and>
    out (fs_f s') = out (fs_f s) @ (if fs_torn s then take n [newline] else []) \<and>
    (err = None) = (answer = None \<and> (fs_torn s \<longrightarrow> e = None)) \<and>
    (fs_torn s \<and> e \<noteq> None \<or> last (split_on newline (out (fs_f s'))) = [])"
proof -
  note c = Close_cases [OF assms(1-3)]
  show ?thesis
  proof (cases "fs_torn s")
    case True
    then show ?thesis using c(1) c(3) [OF True assms(4)] raw_write_spec(3) [OF assms(4)]
      by (cases e) (auto simp: split_on_snoc)
  next
    case False
    then show ?thesis using c(1) c(2) [OF False] assms(1) by (auto simp: sink_views sink_inv_def)
  qed
qed

theorem Close_contract_witness:
  "\<exists>err s'. FileSink_Close None (demo_file []) = (err, s') \<and> err = None \<and> shut (fs_f s') \<and>
     out (fs_f s') = ''x'' @ [newline]"
proof -
  obtain err s' where c: "FileSink_Close None (demo_file []) = (err, s')" by (cases "FileSink_Close None (demo_file [])")
  have r: "raw_write (fs_f (demo_file [])) [newline] =
      (1, None, \<lparr>chunks = [''x'', [newline]], plan = [], shut = False\<rparr>)" "\<not> shut (fs_f (demo_file []))"
      "fs_torn (demo_file [])" "out (fs_f (demo_file [])) = ''x''"
    by (simp_all add: raw_write_def demo_file_def out_def)
  show ?thesis using Close_contract [OF demo_inv r(2) c r(1)] r(3,4) c by auto
qed

end
