(* ===== verification/Simulation.thy ===== *)
theory Simulation
  imports Prelude
begin

text \<open>
  Executions of a labelled transition relation, and simulation by an abstraction function: what an
  implementation promises its specification. The implementation's steps keep an invariant, and
  each of them is a sequence of the specification's steps with the same observations.
\<close>

inductive trace :: "('s \<Rightarrow> 'e list \<Rightarrow> 's \<Rightarrow> bool) \<Rightarrow> 's \<Rightarrow> 'e list \<Rightarrow> 's \<Rightarrow> bool" for stp s0 where
  trace_refl [intro]: "trace stp s0 [] s0"
| trace_step: "trace stp s0 evs s \<Longrightarrow> stp s evs' s' \<Longrightarrow> trace stp s0 (evs @ evs') s'"

lemma trace_one: "stp s evs s' \<Longrightarrow> trace stp s evs s'"
  using trace_step [OF trace_refl [of stp s]] by simp

lemma trace_append:
  assumes "trace stp s evs s'" "trace stp s' evs' s''"
  shows "trace stp s (evs @ evs') s''"
  using assms(2,1)
proof (induction rule: trace.induct)
  case (trace_step evs1 t evs2 t')
  then show ?case using trace.trace_step [of stp s "evs @ evs1" t evs2 t'] by simp
qed simp

lemma trace_two: "stp s e t \<Longrightarrow> stp t e' s' \<Longrightarrow> trace stp s (e @ e') s'"
  by (rule trace_append) (rule trace_one; assumption)+

lemma trace_inv:
  assumes "trace stp s evs s'" "P s" "\<And>s evs s'. stp s evs s' \<Longrightarrow> P s \<Longrightarrow> P s'"
  shows "P s'"
  using assms by (induction rule: trace.induct) auto

locale simulation =
  fixes cstep :: "'c \<Rightarrow> 'e list \<Rightarrow> 'c \<Rightarrow> bool" and cinv :: "'c \<Rightarrow> bool"
    and astep :: "'a \<Rightarrow> 'f list \<Rightarrow> 'a \<Rightarrow> bool"
    and absf :: "'c \<Rightarrow> 'a" and obs :: "'e list \<Rightarrow> 'f list"
  assumes keeps: "cstep s evs s' \<Longrightarrow> cinv s \<Longrightarrow> cinv s'"
    and simulates: "cstep s evs s' \<Longrightarrow> cinv s \<Longrightarrow> trace astep (absf s) (obs evs) (absf s')"
    and obs_Nil: "obs [] = []"
    and obs_append: "obs (xs @ ys) = obs xs @ obs ys"
begin

lemma trace_inclusion:
  assumes "trace cstep s evs s'" "cinv s"
  shows "cinv s' \<and> trace astep (absf s) (obs evs) (absf s')"
  using assms
proof (induction rule: trace.induct)
  case trace_refl
  then show ?case by (simp add: obs_Nil trace.trace_refl)
next
  case (trace_step evs t evs' t')
  then show ?case using keeps simulates trace_append [of astep] by (simp add: obs_append) blast
qed

end

end
