(* ===== verification/Delivery.thy ===== *)
theory Delivery
  imports RunnerAcct Sink Simulation
begin

text \<open>
  The runner together with the check it runs and the sink it publishes to: every call of Check.Run
  and of Publish in an execution is answered by a model of the check and by the sink's own Publish,
  and the sink's state is carried along. A lock makes each Publish of a sink one step (sink/sink.go,
  sink/file.go).
\<close>

section \<open>The composed system\<close>

text \<open>\<open>DProbe w x\<close>: worker \<open>w\<close>'s check returns, \<open>x\<close> standing for what its world answers.\<close>

datatype 'x daction = DProbe nat 'x | DPublish nat | DMove action

text \<open>What happens: the runner's events, a check that answered for an entry, a call of Publish and its result.\<close>

datatype ('x, 'u) dev = Did ev | Probed nat 'x | Called nat "'u event" "goerr option"

fun outside :: "action \<Rightarrow> bool" where
  "outside (Worker w (CheckReturns res)) = False"
| "outside (Worker w (PublishReturns r)) = False"
| "outside a = True"

fun dact ::
    "('p, 'u) sdk \<Rightarrow> ('x \<Rightarrow> target \<Rightarrow> goerr + observation) \<Rightarrow> ('u event \<Rightarrow> 's \<Rightarrow> goerr option \<times> 's) \<Rightarrow>
     'x daction \<Rightarrow> 'u sys \<times> 's \<Rightarrow> (('u sys \<times> 's) \<times> ('x, 'u) dev list) option" where
  "dact k probe publish (DProbe w x) (s, snk) =
     (if length (workers s) \<le> w then None
      else case workers s ! w of
        WCheck i \<Rightarrow>
          map_option (\<lambda>(s', evs). ((s', snk), Probed i x # map Did evs))
            (worker_step k w (CheckReturns (probe x (ent_t (entries s ! i)))) s)
      | _ \<Rightarrow> None)"
| "dact k probe publish (DPublish w) (s, snk) =
     (if length (workers s) \<le> w then None
      else case workers s ! w of
        WPublish i e a \<Rightarrow>
          (case publish e snk of (r, snk') \<Rightarrow>
             map_option (\<lambda>(s', evs). ((s', snk'), Called i e r # map Did evs)) (worker_step k w (PublishReturns r) s))
      | _ \<Rightarrow> None)"
| "dact k probe publish (DMove a) (s, snk) =
     (if outside a then map_option (\<lambda>(s', evs). ((s', snk), map Did evs)) (act k a s) else None)"

inductive dstep ::
    "('p, 'u) sdk \<Rightarrow> ('x \<Rightarrow> target \<Rightarrow> goerr + observation) \<Rightarrow> ('u event \<Rightarrow> 's \<Rightarrow> goerr option \<times> 's) \<Rightarrow>
     'u sys \<times> 's \<Rightarrow> ('x, 'u) dev list \<Rightarrow> 'u sys \<times> 's \<Rightarrow> bool" for k probe publish where
  dstep: "\<not> panicked (fst st) \<Longrightarrow> dact k probe publish a st = Some (st', evs) \<Longrightarrow> dstep k probe publish st evs st'"

fun dplay ::
    "('p, 'u) sdk \<Rightarrow> ('x \<Rightarrow> target \<Rightarrow> goerr + observation) \<Rightarrow> ('u event \<Rightarrow> 's \<Rightarrow> goerr option \<times> 's) \<Rightarrow>
     'x daction list \<Rightarrow> 'u sys \<times> 's \<Rightarrow> (('u sys \<times> 's) \<times> ('x, 'u) dev list) option" where
  "dplay k probe publish [] st = Some (st, [])"
| "dplay k probe publish (a # as) st =
     (if panicked (fst st) then None
      else case dact k probe publish a st of None \<Rightarrow> None
      | Some (st', evs) \<Rightarrow> map_option (\<lambda>(st'', evs'). (st'', evs @ evs')) (dplay k probe publish as st'))"

lemma dplay_trace: "dplay k probe publish as st = Some (st', evs) \<Longrightarrow> trace (dstep k probe publish) st evs st'"
proof (induction k probe publish as st arbitrary: st' evs rule: dplay.induct)
  case (2 k probe publish a as st)
  then obtain st1 evs1 evs2 where q: "\<not> panicked (fst st)" "dact k probe publish a st = Some (st1, evs1)"
    "dplay k probe publish as st1 = Some (st', evs2)" "evs = evs1 @ evs2"
    by (auto split: if_splits option.splits)
  have "trace (dstep k probe publish) st evs1 st1" by (rule trace_one) (rule dstep [OF q(1,2)])
  moreover have "trace (dstep k probe publish) st1 evs2 st'" using "2.IH" q by simp
  ultimately show ?case unfolding q(4) by (rule trace_append)
qed (simp add: trace_refl)

section \<open>What an observer sees\<close>

fun did :: "('x, 'u) dev list \<Rightarrow> ev list" where
  "did [] = []"
| "did (Did ev # devs) = ev # did devs"
| "did (Probed i x # devs) = did devs"
| "did (Called i e r # devs) = did devs"

text \<open>
  The last answer of the check for each entry, \<open>m\<close> at first; the calls of Publish, each with the
  answer its run had; and the runs that ended without an error, likewise.
\<close>

fun last_probe :: "(nat \<rightharpoonup> 'x) \<Rightarrow> ('x, 'u) dev list \<Rightarrow> nat \<rightharpoonup> 'x" where
  "last_probe m [] = m"
| "last_probe m (Did ev # devs) = last_probe m devs"
| "last_probe m (Probed i x # devs) = last_probe (m(i \<mapsto> x)) devs"
| "last_probe m (Called i e r # devs) = last_probe m devs"

fun publish_calls :: "(nat \<rightharpoonup> 'x) \<Rightarrow> ('x, 'u) dev list \<Rightarrow> (nat \<times> 'x option \<times> 'u event \<times> goerr option) list" where
  "publish_calls m [] = []"
| "publish_calls m (Did ev # devs) = publish_calls m devs"
| "publish_calls m (Probed i x # devs) = publish_calls (m(i \<mapsto> x)) devs"
| "publish_calls m (Called i e r # devs) = (i, m i, e, r) # publish_calls m devs"

fun answered :: "(nat \<rightharpoonup> 'x) \<Rightarrow> ('x, 'u) dev list \<Rightarrow> (nat \<times> 'x option) list" where
  "answered m [] = []"
| "answered m (Did ev # devs) = (case ev of EvDone i None \<Rightarrow> [(i, m i)] | _ \<Rightarrow> []) @ answered m devs"
| "answered m (Probed i x # devs) = answered (m(i \<mapsto> x)) devs"
| "answered m (Called i e r # devs) = answered m devs"

lemma did_append [simp]: "did (devs @ devs') = did devs @ did devs'"
  by (induction devs rule: did.induct) simp_all

lemma dev_append [simp]:
  "last_probe m (devs @ devs') = last_probe (last_probe m devs) devs'"
  "publish_calls m (devs @ devs') = publish_calls m devs @ publish_calls (last_probe m devs) devs'"
  "answered m (devs @ devs') = answered m devs @ answered (last_probe m devs) devs'"
  by (induction m devs rule: last_probe.induct) simp_all

text \<open>The entries of the runs that ended without an error, in order.\<close>

fun successes :: "ev list \<Rightarrow> nat list" where
  "successes [] = []"
| "successes (EvDone i None # evs) = i # successes evs"
| "successes (e # evs) = successes evs"

lemma successes_append [simp]: "successes (evs @ evs') = successes evs @ successes evs'"
  by (induction evs rule: successes.induct) simp_all

lemma dev_map [simp]:
  "did (map Did evs) = evs" "last_probe m (map Did evs) = m" "publish_calls m (map Did evs) = []"
  "answered m (map Did evs) = map (\<lambda>i. (i, m i)) (successes evs)"
proof -
  show "did (map Did evs) = evs" "last_probe m (map Did evs) = m" "publish_calls m (map Did evs) = []"
    by (induction evs) simp_all
  show "answered m (map Did evs) = map (\<lambda>i. (i, m i)) (successes evs)"
    by (induction evs rule: successes.induct) simp_all
qed

lemma answered_successes: "map fst (answered m devs) = successes (did devs)"
proof (induction devs arbitrary: m rule: did.induct)
  case (2 ev devs)
  then show ?case by (cases ev) (auto split: option.split)
qed simp_all

text \<open>A transition of the composed system is one of the runner's, and says what the sink did.\<close>

lemma dact_cases [consumes 2]:
  assumes "dact k probe publish a (s, snk) = Some ((s', snk'), evs)" "\<not> panicked s"
  obtains (probe) w x i es where "w < length (workers s)" "workers s ! w = WCheck i" "snk' = snk"
      "worker_step k w (CheckReturns (probe x (ent_t (entries s ! i)))) s = Some (s', es)" "evs = Probed i x # map Did es"
  | (publish) w i e n r es where "w < length (workers s)" "workers s ! w = WPublish i e n"
      "publish e snk = (r, snk')" "worker_step k w (PublishReturns r) s = Some (s', es)" "evs = Called i e r # map Did es"
  | (move) b es where "outside b" "act k b s = Some (s', es)" "snk' = snk" "evs = map Did es"
proof (cases a)
  case (DProbe w x)
  then show thesis using assms(1) probe by (auto simp: not_le split: if_splits wpc.splits)
next
  case (DPublish w)
  then show thesis using assms(1) publish by (auto simp: not_le split: if_splits wpc.splits prod.splits)
next
  case (DMove b)
  then show thesis using assms(1) move by (auto split: if_splits)
qed

lemma dact_step:
  assumes "dact k probe publish a (s, snk) = Some ((s', snk'), evs)" "\<not> panicked s"
  shows "step k s (did evs) s'"
  using assms by (cases rule: dact_cases) (use assms(2) in \<open>auto intro: step.worker act_step\<close>)

section \<open>Successes are reported as such\<close>

text \<open>The runner's ledger of Results, counting those without an error.\<close>

definition no_error :: "goerr option \<Rightarrow> int" where
  "no_error err = of_bool (err = None)"

text \<open>The entry's Results without an error that were put on the channel.\<close>

definition n_ok_sent :: "nat \<Rightarrow> ev list \<Rightarrow> nat" where
  "n_ok_sent i = n_ev (\<lambda>e. case e of EvSent j res \<Rightarrow> i = j \<and> ResErr res = None | _ \<Rightarrow> False)"
definition n_ok_dropped :: "nat \<Rightarrow> ev list \<Rightarrow> nat" where
  "n_ok_dropped i = n_ev (\<lambda>e. case e of EvDropped j res \<Rightarrow> i = j \<and> ResErr res = None | _ \<Rightarrow> False)"

lemma posted_ok:
  "posted (result_wt no_error i) evs = int (count_list (successes evs) i) - int (n_ok_sent i evs) - int (n_ok_dropped i evs)"
proof (induction evs)
  case (Cons e evs)
  show ?case
  proof (cases e)
    case (EvDone j err)
    then show ?thesis using Cons.IH by (cases err) (simp_all add: n_ok_sent_def n_ok_dropped_def n_ev_def no_error_def)
  qed (use Cons.IH in \<open>simp_all add: n_ok_sent_def n_ok_dropped_def n_ev_def no_error_def\<close>)
qed (simp add: n_ok_sent_def n_ok_dropped_def n_ev_def no_error_def)

lemma over_workers_nonneg: "(\<And>p. 0 \<le> f p) \<Longrightarrow> 0 \<le> over_workers f ws"
  unfolding over_workers_def by (induction ws) auto

lemma owed_nonneg: "(\<And>err. 0 \<le> g err) \<Longrightarrow> 0 \<le> owed g i s"
proof -
  assume g: "\<And>err. 0 \<le> g err"
  have u: "0 \<le> unsent g rp" for rp using g by (cases rp) simp_all
  have "0 \<le> sched_unsent g (spc s)" using u by (cases "spc s") auto
  moreover have "0 \<le> reporting_on g i p" for p :: "'a wpc" using u by (cases p) auto
  ultimately show ?thesis by (simp add: owed_def over_workers_nonneg)
qed

lemma ok_counts:
  assumes "exec k (launch r ctx) evs s" "runner_inv ts (launch r ctx)"
  shows "n_ok_sent i evs + n_ok_dropped i evs \<le> count_list (successes evs) i"
proof -
  have "0 \<le> owed no_error i s" by (rule owed_nonneg) (simp add: no_error_def)
  then show ?thesis using result_ledger.ledger_exec [OF assms, of no_error i] fresh_zero(2) [of no_error i r ctx]
    by (simp add: posted_ok)
qed

section \<open>What the workers hold\<close>

text \<open>\<open>e\<close> is the event of the observation that the check makes of the target in answer \<open>x\<close>.\<close>

definition event_of ::
    "('p, 'u) sdk \<Rightarrow> ('x \<Rightarrow> target \<Rightarrow> goerr + observation) \<Rightarrow> 'u encoder option \<Rightarrow> 'x \<Rightarrow> target \<Rightarrow> 'u event \<Rightarrow> bool" where
  "event_of k probe en x t e \<longleftrightarrow> (\<exists>obs uid. probe x t = Inr obs \<and> Encode k uid en obs = (e, None))"

text \<open>What a worker holds comes from the last answer for its entry.\<close>

fun holds_own ::
    "('p, 'u) sdk \<Rightarrow> ('x \<Rightarrow> target \<Rightarrow> goerr + observation) \<Rightarrow> 'u encoder option \<Rightarrow> target list \<Rightarrow> (nat \<rightharpoonup> 'x) \<Rightarrow> 'u wpc \<Rightarrow> bool" where
  "holds_own k probe en ts m (WEncode i obs) = (\<exists>x. m i = Some x \<and> probe x (ts ! i) = Inr obs)"
| "holds_own k probe en ts m (WPublish i e a) = (\<exists>x. m i = Some x \<and> event_of k probe en x (ts ! i) e)"
| "holds_own k probe en ts m (WBackoff i e a err) = (\<exists>x. m i = Some x \<and> event_of k probe en x (ts ! i) e)"
| "holds_own k probe en ts m p = True"

definition owned ::
    "('p, 'u) sdk \<Rightarrow> ('x \<Rightarrow> target \<Rightarrow> goerr + observation) \<Rightarrow> target list \<Rightarrow> (nat \<rightharpoonup> 'x) \<Rightarrow> 'u sys \<Rightarrow> bool" where
  "owned k probe ts m s \<longleftrightarrow> list_all (holds_own k probe (enc s) ts m) (workers s)"

lemma holds_own_upd:
  "i \<notin> set (held p) \<Longrightarrow> holds_own k probe en ts (m(i \<mapsto> x)) p = holds_own k probe en ts m p"
  by (cases p) auto

text \<open>An answer for the entry of one worker leaves what the others hold.\<close>

lemma owned_probe:
  assumes "owned k probe ts m s" "token_inv s" "w < length (workers s)" "held (workers s ! w) = [i]"
    "holds_own k probe (enc s) ts (m(i \<mapsto> x)) p"
  shows "list_all (holds_own k probe (enc s) ts (m(i \<mapsto> x))) ((workers s)[w := p])"
  unfolding list_all_length
proof (intro allI impI)
  fix v assume v: "v < length ((workers s)[w := p])"
  show "holds_own k probe (enc s) ts (m(i \<mapsto> x)) ((workers s)[w := p] ! v)"
  proof (cases "v = w")
    case False
    have "held_by (workers s) i \<le> 1" using token_invD(1) [OF assms(2), of i] by (simp add: tok_def)
    then have "count_list (held (workers s ! v)) i = 0"
      using held_by_two [OF assms(3), of v i] v False assms(4) by simp
    then have "i \<notin> set (held (workers s ! v))" by (simp add: count_list_0_iff)
    then show ?thesis using False v assms(1) by (simp add: holds_own_upd owned_def list_all_length)
  qed (use assms(5) v in simp)
qed

lemma report_no_success: "report_step i rp inp s = Some (rp', t, evs) \<Longrightarrow> successes evs = []"
  by (cases "(i, rp, inp, s)" rule: report_step.cases) (auto simp: Let_def split: if_splits)

lemma sched_no_success:
  assumes "sched_step inp s = Some (s', evs)"
  shows "successes evs = []"
  using assms
proof (cases rule: sched_step_cases)
  case (report now rp rp' t)
  then show ?thesis using report_no_success by blast
qed (auto simp: sched_defs split: list.splits if_splits option.splits choice.splits)

text \<open>A run succeeds in the transition in which its Publish returns nil, and in no other.\<close>

lemma outside_worker:
  assumes "worker_step k w inp s = Some (s', evs)" "outside (Worker w inp)" "owned k probe ts m s" "w < length (workers s)"
  shows "successes evs = []" "owned k probe ts m s'"
proof -
  have h: "holds_own k probe (enc s) ts m (workers s ! w)" using assms(3,4) by (simp add: owned_def list_all_length)
  have e: "enc s' = enc s" using worker_frame(5) [OF assms(1)] .
  have upd: "list_all (holds_own k probe (enc s) ts m) ((workers s)[w := p])" if "holds_own k probe (enc s) ts m p" for p
    using that assms(3) by (auto simp: owned_def intro: list_all_upd)
  have "successes evs = [] \<and> list_all (holds_own k probe (enc s) ts m) (workers s')"
    using assms(1)
  proof (cases rule: worker_step_cases)
    case (check i out)
    then show ?thesis using assms(1,2) by (cases inp) (auto simp: worker_step.simps)
  next
    case (publish i ev a out)
    then show ?thesis using assms(1,2) by (cases inp) (auto simp: worker_step.simps)
  next
    case (encode i obs uid)
    obtain ev err where enc: "Encode k uid (enc s) obs = (ev, err)" by fastforce
    then have "holds_own k probe (enc s) ts m (WPublish i ev 0)" if "err = None"
      using h encode(1) that by (auto simp: event_of_def)
    then show ?thesis using encode(2) enc
      by (auto simp: encode_obs_def report_run_def intro!: upd split: option.splits)
  next
    case (report i rp rp' t)
    then show ?thesis using report_no_success [OF report(2)] report_step_frame(4) [OF report(2)]
      by (auto intro!: upd split: option.splits)
  next
    case (backoff i ev a err c)
    then show ?thesis using h
      by (auto simp: backoff_def report_run_def intro!: upd split: choice.splits if_splits)
  qed (auto simp: worker_defs intro!: upd split: list.splits if_splits)
  then show "successes evs = []" "owned k probe ts m s'" using e by (simp_all add: owned_def)
qed

lemma outside_act:
  assumes "act k a s = Some (s', evs)" "outside a" "owned k probe ts m s"
  shows "successes evs = [] \<and> owned k probe ts m s'"
proof (cases a)
  case (Sched inp)
  then have st: "sched_step inp s = Some (s', evs)" using assms(1) by simp
  have "workers s' = workers s" "enc s' = enc s" using sched_frame [OF st] by simp_all
  then show ?thesis using sched_no_success [OF st] assms(3) by (simp add: owned_def)
next
  case (Worker w inp)
  then have w: "w < length (workers s)" "worker_step k w inp s = Some (s', evs)" using assms(1) by (auto split: if_splits)
  show ?thesis using outside_worker [OF w(2) _ assms(3) w(1)] assms(2) Worker by blast
qed (use assms in \<open>auto simp: owned_def split: if_splits list.splits\<close>)

section \<open>The composed invariant\<close>

lemma held_in_range:
  assumes "runner_inv ts s" "w < length (workers s)" "held (workers s ! w) = [i]"
  shows "i < length ts" "ent_t (entries s ! i) = ts ! i"
proof -
  note inv = runner_invD [OF assms(1)]
  have "count_list (held (workers s ! w)) i \<le> tok s i"
    using held_by_pos [OF assms(2), of i] by (simp add: tok_def)
  then have "inflight s i" using token_invD(2) [OF inv(4)] assms(3) by simp
  then have "i < length (entries s)" by (simp add: inflight_def)
  moreover have "map ent_t (entries s) = ts" using inv(1) by (simp add: shape_def)
  ultimately show "i < length ts" "ent_t (entries s ! i) = ts ! i" by (auto simp: nth_map [symmetric])
qed

lemma publish_all_snoc:
  "publish_all publish es s = (rs, s') \<Longrightarrow> publish e s' = (r, s'') \<Longrightarrow>
   publish_all publish (es @ [e]) s = (rs @ [r], s'')"
  by (induction es arbitrary: s rs) (auto split: prod.splits)

definition acked_runs :: "(nat \<times> 'x option \<times> 'u event \<times> goerr option) list \<Rightarrow> (nat \<times> 'x option) list" where
  "acked_runs cs = map (\<lambda>(i, w, e, r). (i, w)) (filter (\<lambda>(i, w, e, r). r = None) cs)"

definition called_events :: "(nat \<times> 'x option \<times> 'u event \<times> goerr option) list \<Rightarrow> 'u event list" where
  "called_events cs = map (\<lambda>(i, w, e, r). e) cs"

definition called_results :: "(nat \<times> 'x option \<times> 'u event \<times> goerr option) list \<Rightarrow> goerr option list" where
  "called_results cs = map (\<lambda>(i, w, e, r). r) cs"

lemmas called_defs = acked_runs_def called_events_def called_results_def

definition delivery_inv ::
    "('p, 'u) sdk \<Rightarrow> ('x \<Rightarrow> target \<Rightarrow> goerr + observation) \<Rightarrow> ('u event \<Rightarrow> 's \<Rightarrow> goerr option \<times> 's) \<Rightarrow>
     target list \<Rightarrow> 'u sys \<times> 's \<Rightarrow> ('x, 'u) dev list \<Rightarrow> 'u sys \<times> 's \<Rightarrow> bool" where
  "delivery_inv k probe publish ts st0 devs st \<longleftrightarrow>
     exec k (fst st0) (did devs) (fst st) \<and> owned k probe ts (last_probe Map.empty devs) (fst st) \<and>
     enc (fst st) = enc (fst st0) \<and>
     publish_all publish (called_events (publish_calls Map.empty devs)) (snd st0) = (called_results (publish_calls Map.empty devs), snd st) \<and>
     answered Map.empty devs = acked_runs (publish_calls Map.empty devs) \<and>
     (\<forall>(i, w, e, r) \<in> set (publish_calls Map.empty devs). i < length ts \<and>
       (\<exists>x. w = Some x \<and> event_of k probe (enc (fst st0)) x (ts ! i) e))"

lemma step_enc: "step k s evs s' \<Longrightarrow> enc s' = enc s"
  by (erule step.cases) (auto dest: sched_frame worker_frame(5))

lemma delivery_step:
  assumes inv: "delivery_inv k probe publish ts st0 devs (s, snk)" and run: "runner_inv ts s"
    and a: "dact k probe publish a (s, snk) = Some ((s', snk'), evs)" and np: "\<not> panicked s"
  shows "delivery_inv k probe publish ts st0 (devs @ evs) (s', snk')"
proof -
  have st: "step k s (did evs) s'" using dact_step [OF a np] .
  have x: "exec k (fst st0) (did (devs @ evs)) s'" using exec_step [OF _ st] inv by (simp add: delivery_inv_def)
  have e: "enc s' = enc (fst st0)" using step_enc [OF st] inv by (simp add: delivery_inv_def)
  let ?m = "last_probe Map.empty devs"
  have own: "owned k probe ts ?m s" using inv by (simp add: delivery_inv_def)
  have en: "enc s = enc (fst st0)" using inv by (simp add: delivery_inv_def)
  from a np show ?thesis
  proof (cases rule: dact_cases)
    case (probe w xx i es)
    have t: "ent_t (entries s ! i) = ts ! i" using held_in_range(2) [OF run probe(1)] probe(2) by simp
    have c: "check_returns w i (probe xx (ts ! i)) s = (s', es)"
      using probe(4) by (simp add: worker_step.simps probe(2) t)
    have h: "held (workers s ! w) = [i]" using probe(2) by simp
    note upd = owned_probe [OF own runner_invD(4) [OF run] probe(1) h]
    have "successes es = [] \<and> owned k probe ts (?m(i \<mapsto> xx)) s'"
    proof (cases "probe xx (ts ! i)")
      case (Inl err)
      then show ?thesis using c by (auto simp: check_returns_def report_run_def owned_def intro!: upd)
    next
      case (Inr obs)
      then show ?thesis using c by (auto simp: check_returns_def owned_def intro!: upd)
    qed
    then show ?thesis using inv x e probe(3,5) by (simp add: delivery_inv_def)
  next
    case (publish w i ev n r es)
    have h: "\<exists>x. ?m i = Some x \<and> event_of k probe (enc s) x (ts ! i) ev"
      using own publish(1,2) unfolding owned_def list_all_length by fastforce
    have c: "publish_returns w i ev n r s = (s', es)"
      using publish(4) by (simp add: worker_step.simps publish(2))
    have "successes es = (if r = None then [i] else []) \<and> owned k probe ts ?m s'"
      using c own h
      by (auto simp: publish_returns_def report_run_def owned_def intro!: list_all_upd split: option.splits if_splits)
    moreover have "i < length ts" using held_in_range(1) [OF run publish(1)] publish(2) by simp
    moreover have "publish_all publish (called_events (publish_calls Map.empty devs) @ [ev]) (snd st0) =
        (called_results (publish_calls Map.empty devs) @ [r], snk')"
      using inv by (intro publish_all_snoc [where s' = snk]) (simp_all add: delivery_inv_def publish(3))
    ultimately show ?thesis using inv x e h en publish(5) by (auto simp: delivery_inv_def called_defs)
  next
    case (move b es)
    then show ?thesis using inv x e outside_act [OF move(2,1) own] by (simp add: delivery_inv_def)
  qed
qed

lemma delivery_trace:
  assumes "trace (dstep k probe publish) st0 devs st" "runner_inv ts (fst st0)" "owned k probe ts Map.empty (fst st0)"
  shows "delivery_inv k probe publish ts st0 devs st"
  using assms(1)
proof (induction rule: trace.induct)
  case trace_refl
  then show ?case using assms(3) by (simp add: delivery_inv_def exec_refl called_defs)
next
  case (trace_step devs st evs st')
  obtain s snk s' snk' where p: "st = (s, snk)" "st' = (s', snk')" by (cases st; cases st') auto
  obtain a where a: "\<not> panicked s" "dact k probe publish a (s, snk) = Some ((s', snk'), evs)"
    using trace_step.hyps(2) p by (auto elim: dstep.cases)
  have inv: "delivery_inv k probe publish ts st0 devs (s, snk)" using trace_step.IH p by simp
  then have "exec k (fst st0) (did devs) s" by (simp add: delivery_inv_def)
  then have "runner_inv ts s" using assms(2) runner_inv_step by (rule exec_inv)
  then show ?case using delivery_step [OF inv _ a(2,1)] p by simp
qed

text \<open>The acknowledged records are those of the acknowledged calls.\<close>

lemma acked_records:
  assumes "list_all (\<lambda>(i, w, e, r). (\<exists>x. marshal e = Inl x) \<longrightarrow> r \<noteq> None) cs"
  shows "list_all2 (\<lambda>(i, w) b. \<exists>e. (i, w, e, None) \<in> set cs \<and> marshal e = Inr b) (acked_runs cs)
    (acknowledged marshal (called_events cs) (called_results cs))"
  using assms
proof (induction cs)
  case (Cons c cs)
  obtain i w e r where c: "c = (i, w, e, r)" by (cases c)
  have "list_all2 (\<lambda>(i, w) b. \<exists>e. (i, w, e, None) \<in> set cs \<and> marshal e = Inr b) (acked_runs cs)
      (acknowledged marshal (called_events cs) (called_results cs))"
    by (rule Cons.IH) (use Cons.prems in simp)
  then have mono: "list_all2 (\<lambda>(i, w) b. \<exists>e. (i, w, e, None) \<in> set (c # cs) \<and> marshal e = Inr b) (acked_runs cs)
      (acknowledged marshal (called_events cs) (called_results cs))"
    by (rule list_all2_mono) auto
  show ?case
  proof (cases r)
    case None
    then obtain b where "marshal e = Inr b" using Cons.prems c by (cases "marshal e") auto
    then show ?thesis using mono None c by (auto simp: called_defs)
  next
    case (Some x)
    then show ?thesis using mono c by (auto simp: called_defs)
  qed
qed (simp add: called_defs)

text \<open>An error of Marshal is an error of Publish, for any sink.\<close>

context event_sink
begin

lemma run_errors:
  "publish_all publish es s = (rs, s') \<Longrightarrow> length rs = length es \<and>
   (\<forall>n < length es. (\<exists>x. marshal (es ! n) = Inl x) \<longrightarrow> rs ! n \<noteq> None)"
proof (induction es arbitrary: s rs)
  case (Cons e es)
  obtain r s1 rs1 where q: "publish e s = (r, s1)" "publish_all publish es s1 = (rs1, s')" "rs = r # rs1"
    using Cons.prems by (auto split: prod.splits)
  have "(\<exists>x. marshal e = Inl x) \<longrightarrow> r \<noteq> None" using marshal_error q(1) by blast
  then show ?case using Cons.IH [OF q(2)] q(3) by (auto simp: less_Suc_eq_0_disj)
qed simp

end

end
