(* ===== verification/UrlParts.thy ===== *)
theory UrlParts
  imports NetUrl
begin

text \<open>
  What \<open>url_Parse\<close> makes of a URL put together from a scheme, credentials, a host-and-path
  and a tail (query or fragment): the facts the label and redaction theorems rest on. The text
  model's \<open>abs_url sch auth\<close> is \<open>sch://auth\<close>.
\<close>

definition abs_url :: "string \<Rightarrow> string \<Rightarrow> string" where
  "abs_url sch r = sch @ CHR '':'' # ''//'' @ r"

lemma abs_url_append: "abs_url sch r @ t = abs_url sch (r @ t)"
  by (simp add: abs_url_def)

section \<open>Cutting the fragment and the query off\<close>

lemma scheme_notin:
  assumes "valid_scheme sch" "\<not> scheme_char c"
  shows "c \<notin> set sch"
  using assms by (auto simp: valid_scheme_def list_all_iff)

lemma abs_url_notin:
  assumes "valid_scheme sch" "c \<in> {CHR ''?'', CHR ''#'', CHR ''@''}"
  shows "c \<in> set (abs_url sch r) \<longleftrightarrow> c \<in> set r"
  using assms scheme_notin [OF assms(1), of c] scheme_char_delims by (auto simp: abs_url_def)

lemma abs_url_count:
  assumes "valid_scheme sch"
  shows "count_list (abs_url sch r) CHR ''@'' = count_list r CHR ''@''"
  using scheme_notin [OF assms, of "CHR ''@''"] scheme_char_delims
  by (simp add: abs_url_def count_list_0_iff)

lemma before_frag:
  assumes "valid_scheme sch"
  shows "before CHR ''#'' (abs_url sch r) = abs_url sch (before CHR ''#'' r)"
    and "after CHR ''#'' (abs_url sch r) = after CHR ''#'' r"
proof -
  have n: "CHR ''#'' \<notin> set (sch @ CHR '':'' # ''//'')"
    using scheme_notin [OF assms, of "CHR ''#''"] scheme_char_delims by auto
  show "before CHR ''#'' (abs_url sch r) = abs_url sch (before CHR ''#'' r)"
    using before_pre [OF n, of r] by (simp add: abs_url_def)
  show "after CHR ''#'' (abs_url sch r) = after CHR ''#'' r"
    using after_pre [OF n, of r] by (simp add: abs_url_def)
qed

lemma split_query_append:
  assumes "CHR ''?'' \<notin> set p"
  shows "split_query u (p @ r) = (fst (split_query u r), p @ snd (split_query u r))"
proof -
  have c: "count_list p CHR ''?'' = 0" using assms by (simp add: count_list_0_iff)
  have s: "has_suffix ''?'' (p @ r) \<longleftrightarrow> has_suffix ''?'' r"
    using assms by (cases r rule: rev_cases) (auto simp: has_suffix_single last_neq)
  show ?thesis
  proof (cases "has_suffix ''?'' r \<and> count_list r CHR ''?'' = 1")
    case True
    then have "r \<noteq> []" by (auto simp: has_suffix_single)
    then show ?thesis using True s c by (simp add: split_query_def butlast_append)
  next
    case False
    then show ?thesis using s c assms by (auto simp: split_query_def before_pre after_pre)
  qed
qed

section \<open>The pipeline on an absolute URL\<close>

text \<open>\<open>parse_nofrag\<close> of \<open>sch://r\<close> for a URL with a scheme and a leading double slash.\<close>

definition parse_abs :: "url \<Rightarrow> string \<Rightarrow> url option" where
  "parse_abs u r =
     (let auth = before CHR ''/'' r; path = drop (length auth) r
      in case parseAuthority auth of None \<Rightarrow> None
         | Some (user, host) \<Rightarrow> setPath (u\<lparr>User := user, Host := host\<rparr>) path)"

definition scheme_url :: "string \<Rightarrow> url" where
  "scheme_url sch = empty_url\<lparr>Scheme := to_lower sch\<rparr>"

lemma scheme_url_fields [simp]:
  "Scheme (scheme_url sch) = to_lower sch" "Opaque (scheme_url sch) = []" "User (scheme_url sch) = None"
  by (simp_all add: scheme_url_def empty_url_def)

lemma to_lower_Nil [simp]: "to_lower s = [] \<longleftrightarrow> s = []"
  by (simp add: to_lower_def)

lemma parse_nofrag_abs:
  assumes sch: "valid_scheme sch"
  shows "parse_nofrag (abs_url sch r) =
    (if has_ctl (abs_url sch r) then None
     else parse_abs (fst (split_query (scheme_url sch) r)) (snd (split_query (scheme_url sch) r)))"
proof -
  have ne: "sch \<noteq> []" using sch by (simp add: valid_scheme_def)
  have star: "abs_url sch r \<noteq> ''*''"
    using ne by (auto simp: abs_url_def append_eq_Cons_conv)
  have gs: "getScheme (abs_url sch r) = Some (sch, ''//'' @ r)"
    unfolding abs_url_def by (rule getScheme_valid [OF sch])
  have sq: "split_query (scheme_url sch) (''//'' @ r) =
      (fst (split_query (scheme_url sch) r), ''//'' @ snd (split_query (scheme_url sch) r))"
    by (rule split_query_append) simp
  have pre: "has_prefix ''/'' (''//'' @ x)" "has_prefix ''//'' (''//'' @ x)" for x
    by (simp_all add: has_prefix_def)
  have hier: "parse_hier (fst (split_query (scheme_url sch) r)) (''//'' @ x) =
      parse_abs (fst (split_query (scheme_url sch) r)) x" for x
    using ne pre by (simp add: parse_hier_def parse_abs_def split_query_fields)
  show ?thesis
    using star gs sq hier pre(1) unfolding parse_nofrag_def scheme_url_def [symmetric]
    by (simp add: Let_def)
qed

definition with_frag :: "string \<Rightarrow> url option \<Rightarrow> url option" where
  "with_frag f uo = (case uo of None \<Rightarrow> None | Some u \<Rightarrow> if f = [] then Some u else setFragment u f)"

lemma with_frag_None: "with_frag f None = None"
  by (simp add: with_frag_def)

lemma url_Parse_frag: "url_Parse raw = with_frag (after CHR ''#'' raw) (parse_nofrag (before CHR ''#'' raw))"
  by (simp add: url_Parse_def with_frag_def split: option.splits)

section \<open>Userinfo\<close>

lemma parse_abs_user:
  assumes cred: "CHR ''/'' \<notin> set cred" and r: "CHR ''@'' \<notin> set r"
  shows "parse_abs u (cred @ CHR ''@'' # r) =
    (case parse_userinfo cred of None \<Rightarrow> None
     | Some ui \<Rightarrow> map_option (\<lambda>v. v\<lparr>User := Some ui\<rparr>) (parse_abs u r))"
proof -
  let ?hp = "before CHR ''/'' r"
  have b: "before CHR ''/'' (cred @ CHR ''@'' # r) = cred @ CHR ''@'' # ?hp"
    using before_pre [of "CHR ''/''" "cred @ ''@''" r] cred by simp
  have hp: "CHR ''@'' \<notin> set ?hp" using set_before r by blast
  have d: "drop (length (cred @ CHR ''@'' # ?hp)) (cred @ CHR ''@'' # r) = drop (length ?hp) r"
    by simp
  show ?thesis
    unfolding parse_abs_def b d Let_def using hp
    by (cases "parseHost ?hp"; cases "parse_userinfo cred")
       (simp_all add: parseAuthority_def setPath_def split: option.splits)
qed

text \<open>Without an \<open>@\<close> in the authority there is no userinfo.\<close>

lemma parse_abs_no_user:
  assumes "CHR ''@'' \<notin> set (before CHR ''/'' r)" "parse_abs u r = Some v"
  shows "User v = None"
  using assms setPath_fields(3)
  by (fastforce simp: parse_abs_def parseAuthority_def Let_def split: option.splits)

lemma with_frag_fields:
  assumes "with_frag f (Some v) = Some w"
  shows "Scheme w = Scheme v" "Host w = Host v" "Path w = Path v" "RawPath w = RawPath v"
    "User w = User v" "Opaque w = Opaque v"
  using assms by (auto simp: with_frag_def setFragment_def split: if_splits option.splits)

lemma with_frag_user:
  "with_frag f (map_option (\<lambda>v. v\<lparr>User := x\<rparr>) uo) = map_option (\<lambda>v. v\<lparr>User := x\<rparr>) (with_frag f uo)"
  by (auto simp: with_frag_def setFragment_def split: option.splits)

text \<open>
  Clean credentials (no delimiter of a later part) in front of a rest without an \<open>@\<close>:
  the URL parses as it does without them, with the userinfo added.
\<close>

lemma parse_clean_cred:
  assumes sch: "valid_scheme sch"
    and cred: "CHR ''/'' \<notin> set cred" "CHR ''?'' \<notin> set cred" "CHR ''#'' \<notin> set cred"
    and r: "CHR ''@'' \<notin> set r"
  shows "url_Parse (abs_url sch (cred @ CHR ''@'' # r)) =
    (if has_ctl cred then None
     else case parse_userinfo cred of None \<Rightarrow> None
       | Some ui \<Rightarrow> map_option (\<lambda>v. v\<lparr>User := Some ui\<rparr>) (url_Parse (abs_url sch r)))"
proof -
  let ?u = "scheme_url sch" let ?b = "before CHR ''#'' r"
  have b: "before CHR ''#'' (cred @ CHR ''@'' # r) = cred @ CHR ''@'' # ?b"
    "after CHR ''#'' (cred @ CHR ''@'' # r) = after CHR ''#'' r"
    using before_pre [of "CHR ''#''" "cred @ ''@''" r] after_pre [of "CHR ''#''" "cred @ ''@''" r] cred
    by simp_all
  have sq: "split_query ?u (cred @ CHR ''@'' # ?b) =
      (fst (split_query ?u ?b), cred @ CHR ''@'' # snd (split_query ?u ?b))"
    using split_query_append [of "cred @ ''@''" ?u ?b] cred by simp
  have "set (snd (split_query ?u ?b)) \<subseteq> set ?b"
    using set_before by (auto simp: split_query_def dest: in_set_butlastD)
  then have at: "CHR ''@'' \<notin> set (snd (split_query ?u ?b))" using r set_before by blast
  have ctl: "has_ctl (abs_url sch (cred @ CHR ''@'' # ?b)) \<longleftrightarrow> has_ctl cred \<or> has_ctl (abs_url sch ?b)"
    by (auto simp: has_ctl_def abs_url_def byte_of_def)
  have "parse_nofrag (abs_url sch (cred @ CHR ''@'' # ?b)) =
    (if has_ctl cred then None
     else case parse_userinfo cred of None \<Rightarrow> None
       | Some ui \<Rightarrow> map_option (\<lambda>v. v\<lparr>User := Some ui\<rparr>) (parse_nofrag (abs_url sch ?b)))"
    unfolding parse_nofrag_abs [OF sch] sq ctl
    by (simp add: parse_abs_user [OF cred(1) at] split: option.splits)
  then show ?thesis
    unfolding url_Parse_frag before_frag [OF sch] b
    by (simp add: with_frag_user with_frag_None split: option.splits)
qed

text \<open>
  Credentials that hold a delimiter, with no other \<open>@\<close> than the one after them: the
  parser never sees that \<open>@\<close> as the userinfo delimiter.
\<close>

lemma parse_spilled_cred:
  assumes sch: "valid_scheme sch" and cred: "CHR ''@'' \<notin> set cred"
    and spill: "CHR ''/'' \<in> set cred \<or> CHR ''?'' \<in> set cred \<or> CHR ''#'' \<in> set cred"
    and p: "url_Parse (abs_url sch (cred @ CHR ''@'' # r)) = Some v"
  shows "User v = None"
proof -
  let ?b = "before CHR ''#'' (cred @ CHR ''@'' # r)"
  let ?q = "snd (split_query (scheme_url sch) ?b)"
  obtain w where w: "parse_nofrag (abs_url sch ?b) = Some w" "User v = User w"
    using p unfolding url_Parse_frag before_frag [OF sch]
    by (auto simp: with_frag_def setFragment_def split: option.splits if_splits)
  have "CHR ''@'' \<notin> set (before CHR ''/'' ?q)"
  proof (cases "CHR ''#'' \<in> set cred")
    case True
    then have "set ?b \<subseteq> set cred" using before_stop [OF True] set_before by fastforce
    moreover have "set ?q \<subseteq> set ?b"
      using set_before by (auto simp: split_query_def dest: in_set_butlastD)
    ultimately show ?thesis using cred set_before by blast
  next
    case nohash: False
    then have b: "?b = cred @ CHR ''@'' # before CHR ''#'' r"
      using before_pre [of "CHR ''#''" "cred @ ''@''" r] by simp
    show ?thesis
    proof (cases "CHR ''?'' \<in> set cred")
      case True
      have "\<not> (has_suffix ''?'' ?b \<and> count_list ?b CHR ''?'' = 1)"
      proof
        assume s: "has_suffix ''?'' ?b \<and> count_list ?b CHR ''?'' = 1"
        have "0 < count_list cred CHR ''?''" using True by (metis count_list_0_iff gr0I)
        then have "CHR ''?'' \<notin> set (before CHR ''#'' r)"
          using s by (simp add: b count_list_0_iff [symmetric])
        then show False using s unfolding b
          by (auto simp: has_suffix_single last_neq split: if_splits)
      qed
      then have "?q = before CHR ''?'' ?b" by (auto simp: split_query_def)
      then have "set ?q \<subseteq> set cred" using before_stop [OF True] set_before b by fastforce
      then show ?thesis using cred set_before by blast
    next
      case False
      then have slash: "CHR ''/'' \<in> set cred" using spill nohash by blast
      have "?q = cred @ snd (split_query (scheme_url sch) (CHR ''@'' # before CHR ''#'' r))"
        unfolding b using split_query_append [OF False] by simp
      then have "before CHR ''/'' ?q = before CHR ''/'' cred" using before_stop [OF slash] by simp
      then show ?thesis using cred set_before by fastforce
    qed
  qed
  moreover have "parse_abs (fst (split_query (scheme_url sch) ?b)) ?q = Some w"
    using w(1) unfolding parse_nofrag_abs [OF sch] by (simp split: if_splits)
  ultimately show ?thesis using parse_abs_no_user w(2) by simp
qed

section \<open>Query and fragment tails\<close>

text \<open>Two URLs that agree in everything a label keeps.\<close>

definition same_kept :: "url \<Rightarrow> url \<Rightarrow> bool" where
  "same_kept u v \<longleftrightarrow> Scheme u = Scheme v \<and> Opaque u = Opaque v \<and> User u = User v \<and>
     Host u = Host v \<and> Path u = Path v \<and> RawPath u = RawPath v"

lemma parse_abs_kept:
  assumes "parse_abs u r = Some v" "Scheme u' = Scheme u" "Opaque u' = Opaque u"
  shows "\<exists>v'. parse_abs u' r = Some v' \<and> same_kept v v'"
  using assms
  by (auto simp: parse_abs_def setPath_def same_kept_def Let_def split: option.splits)

lemma with_frag_kept: "with_frag f (Some v) = Some w \<Longrightarrow> same_kept w v"
  by (auto simp: with_frag_def setFragment_def same_kept_def split: if_splits option.splits)

lemma split_query_tail:
  assumes "CHR ''?'' \<notin> set r"
  shows "snd (split_query u (r @ CHR ''?'' # q)) = r" "snd (split_query u r) = r"
proof -
  have "has_suffix ''?'' (r @ CHR ''?'' # q) \<and> count_list (r @ CHR ''?'' # q) CHR ''?'' = 1 \<Longrightarrow> q = []"
    by (cases q rule: rev_cases) (auto simp: has_suffix_single)
  then show "snd (split_query u (r @ CHR ''?'' # q)) = r"
    using assms by (auto simp: split_query_def)
  have "\<not> has_suffix ''?'' r" using assms by (auto simp: has_suffix_single last_neq)
  then show "snd (split_query u r) = r" using assms by (simp add: split_query_def)
qed

lemma has_ctl_prefix: "has_ctl r \<Longrightarrow> has_ctl (r @ t)"
  by (simp add: has_ctl_def)

lemma parse_tail:
  assumes sch: "valid_scheme sch" and r: "CHR ''?'' \<notin> set r" "CHR ''#'' \<notin> set r"
    and tail: "tail = [] \<or> hd tail = CHR ''?'' \<or> hd tail = CHR ''#''"
    and p: "url_Parse (abs_url sch (r @ tail)) = Some v"
  shows "\<exists>w. url_Parse (abs_url sch r) = Some w \<and> same_kept v w"
proof -
  let ?u = "scheme_url sch" let ?b = "before CHR ''#'' (r @ tail)"
  have b: "?b = r \<or> (\<exists>q. ?b = r @ CHR ''?'' # q)"
    using tail r before_pre [OF r(2), of tail] by (cases tail) (auto simp: before_def)
  obtain w where w: "parse_nofrag (abs_url sch ?b) = Some w" "same_kept v w"
    using p with_frag_kept unfolding url_Parse_frag before_frag [OF sch]
    by (cases "parse_nofrag (abs_url sch ?b)") (auto simp: with_frag_None)
  have sq: "snd (split_query ?u ?b) = r" "snd (split_query ?u r) = r"
    using b split_query_tail [OF r(1)] by auto
  have "parse_abs (fst (split_query ?u ?b)) r = Some w" "\<not> has_ctl (abs_url sch ?b)"
    using w(1) unfolding parse_nofrag_abs [OF sch] sq by (auto split: if_splits)
  moreover from this(2) have "\<not> has_ctl (abs_url sch r)"
    using b has_ctl_prefix [of "abs_url sch r"] by (auto simp: abs_url_append [symmetric])
  ultimately obtain w' where "parse_nofrag (abs_url sch r) = Some w'" "same_kept w w'"
    using parse_abs_kept [of "fst (split_query ?u ?b)" r w "fst (split_query ?u r)"]
    unfolding parse_nofrag_abs [OF sch] sq by (auto simp: split_query_fields)
  moreover have "url_Parse (abs_url sch r) = parse_nofrag (abs_url sch r)"
    unfolding url_Parse_frag before_frag [OF sch] using r(2)
    by (simp add: with_frag_def split: option.splits)
  ultimately show ?thesis using w(2) by (auto simp: same_kept_def)
qed

text \<open>Userinfo needs an \<open>@\<close> of the input.\<close>

lemma parse_user_at:
  assumes sch: "valid_scheme sch" and p: "url_Parse (abs_url sch r) = Some v" "User v \<noteq> None"
  shows "CHR ''@'' \<in> set r"
proof (rule ccontr)
  assume at: "CHR ''@'' \<notin> set r"
  let ?u = "scheme_url sch" let ?b = "before CHR ''#'' r"
  obtain w where w: "parse_nofrag (abs_url sch ?b) = Some w" "User v = User w"
    using p(1) unfolding url_Parse_frag before_frag [OF sch]
    by (auto simp: with_frag_def setFragment_def split: option.splits if_splits)
  have "set (snd (split_query ?u ?b)) \<subseteq> set ?b"
    using set_before by (auto simp: split_query_def dest: in_set_butlastD)
  then have "CHR ''@'' \<notin> set (before CHR ''/'' (snd (split_query ?u ?b)))"
    using at set_before by blast
  moreover have "parse_abs (fst (split_query ?u ?b)) (snd (split_query ?u ?b)) = Some w"
    using w(1) unfolding parse_nofrag_abs [OF sch] by (simp split: if_splits)
  ultimately show False using parse_abs_no_user p(2) w(2) by simp
qed

section \<open>Any input\<close>

lemma split_query_set: "set (snd (split_query u r)) \<subseteq> set r"
  using set_before by (auto simp: split_query_def dest: in_set_butlastD)

lemma parse_hier_no_at:
  assumes "CHR ''@'' \<notin> set r" "User u = None" "parse_hier u r = Some v"
  shows "User v = None"
proof -
  have "CHR ''@'' \<notin> set (before CHR ''/'' (drop 2 r))"
    using assms(1) set_before set_drop_subset by fastforce
  then show ?thesis using assms(2,3) setPath_fields(3)
    by (fastforce simp: parse_hier_def parseAuthority_def Let_def split: if_splits option.splits)
qed

lemma parse_nofrag_cases:
  assumes "parse_nofrag raw = Some v"
  obtains "v = empty_url\<lparr>Path := ''*''\<rparr>"
  | s r u q where "getScheme raw = Some (s, r)" "split_query (empty_url\<lparr>Scheme := to_lower s\<rparr>) r = (u, q)"
      "v = u\<lparr>Opaque := q\<rparr> \<or> parse_hier u q = Some v"
  using assms that
  by (cases "getScheme raw") (auto simp: parse_nofrag_def Let_def split: if_splits prod.splits)

lemma parse_nofrag_no_at:
  assumes at: "CHR ''@'' \<notin> set raw" and p: "parse_nofrag raw = Some v"
  shows "User v = None"
proof (cases rule: parse_nofrag_cases [OF p])
  case (2 s r u q)
  have "set r \<subseteq> set raw" using getScheme_set [OF 2(1) [unfolded getScheme_def]] by blast
  then have "CHR ''@'' \<notin> set q" using split_query_set [of _ r] at by (metis 2(2) snd_conv subsetD)
  moreover have "User u = None" using split_query_fields(3) by (metis 2(2) fst_conv empty_url_def
        select_convs(3) update_convs(1))
  ultimately show ?thesis using 2(3) parse_hier_no_at by auto
qed (simp add: empty_url_def)

lemma url_Parse_no_at:
  assumes "url_Parse raw = Some v" "CHR ''@'' \<notin> set raw"
  shows "User v = None"
proof -
  obtain w where w: "parse_nofrag (before CHR ''#'' raw) = Some w" "User v = User w"
    using assms(1) unfolding url_Parse_frag
    by (auto simp: with_frag_def setFragment_def split: option.splits if_splits)
  then show ?thesis using parse_nofrag_no_at [OF _ w(1)] assms(2) set_before by auto
qed

lemma setPath_tail: "setPath u p = Some v \<Longrightarrow>
    RawQuery v = RawQuery u \<and> ForceQuery v = ForceQuery u \<and> Fragment v = Fragment u"
  by (auto simp: setPath_def split: option.splits)

lemma parse_hier_tail: "parse_hier u r = Some v \<Longrightarrow>
    RawQuery v = RawQuery u \<and> ForceQuery v = ForceQuery u \<and> Fragment v = Fragment u"
  using setPath_tail by (fastforce simp: parse_hier_def Let_def split: if_splits option.splits)

lemma split_query_none:
  "CHR ''?'' \<notin> set r \<Longrightarrow> split_query u r = (u\<lparr>RawQuery := []\<rparr>, r)"
  by (auto simp: split_query_def has_suffix_single last_neq)

lemma parse_nofrag_tail:
  assumes q: "CHR ''?'' \<notin> set raw" and p: "parse_nofrag raw = Some v"
  shows "RawQuery v = [] \<and> \<not> ForceQuery v \<and> Fragment v = []"
proof (cases rule: parse_nofrag_cases [OF p])
  case (2 s r u q)
  have "set r \<subseteq> set raw" using getScheme_set [OF 2(1) [unfolded getScheme_def]] by blast
  then have "CHR ''?'' \<notin> set r" using q by blast
  then have "RawQuery u = [] \<and> \<not> ForceQuery u \<and> Fragment u = []"
    using 2(2) by (auto simp: split_query_none empty_url_def)
  then show ?thesis using 2(3) parse_hier_tail [of u q v] by auto
qed (simp add: empty_url_def)

lemma url_Parse_no_tail:
  assumes p: "url_Parse raw = Some v" and "CHR ''?'' \<notin> set raw" "CHR ''#'' \<notin> set raw"
  shows "RawQuery v = [] \<and> \<not> ForceQuery v \<and> Fragment v = []"
  using assms parse_nofrag_tail [of raw v] unfolding url_Parse_frag
  by (auto simp: with_frag_def split: option.splits)

end
