(* ===== verification/GoFloat.thy ===== *)
theory GoFloat
  imports Prelude
begin

text \<open>
  What the program uses of float64: conversion from an integer, sum, product and quotient, and
  truncation, as IEEE 754 rounding to 53 significant bits with ties to even. A finite double is a
  fraction of two integers with a positive denominator; the values that occur stay far inside the
  exponent range, so overflow and subnormals do not arise.
\<close>

type_synonym double = "int \<times> int"

function bit_len :: "int \<Rightarrow> nat" where
  "bit_len n = (if n \<le> 0 then 0 else Suc (bit_len (n div 2)))"
  by pat_completeness auto
termination by (relation "measure nat") auto

declare bit_len.simps [simp del]

text \<open>A positive fraction, rounded.\<close>

definition round_pos :: "int \<Rightarrow> int \<Rightarrow> double" where
  "round_pos p q =
     (let e = int (bit_len p) - int (bit_len q) - 53;
          scale = (\<lambda>e. if 0 \<le> e then (p, q * 2 ^ nat e) else (p * 2 ^ nat (- e), q));
          e = (if 2 ^ 53 \<le> fst (scale e) div snd (scale e) then e + 1 else e);
          (a, b) = scale e; m = a div b; r = a mod b;
          m = (if b < 2 * r \<or> 2 * r = b \<and> m mod 2 = 1 then m + 1 else m)
      in if 0 \<le> e then (m * 2 ^ nat e, 1) else (m, 2 ^ nat (- e)))"

definition round_double :: "int \<Rightarrow> int \<Rightarrow> double" where
  "round_double p q =
     (if p = 0 then (0, 1)
      else if 0 < p then round_pos p q
      else (case round_pos (- p) q of (a, b) \<Rightarrow> (- a, b)))"

definition double_of_int :: "int \<Rightarrow> double" where
  "double_of_int n = round_double n 1"

definition double_add :: "double \<Rightarrow> double \<Rightarrow> double" where
  "double_add x y = round_double (fst x * snd y + fst y * snd x) (snd x * snd y)"

definition double_mult :: "double \<Rightarrow> double \<Rightarrow> double" where
  "double_mult x y = round_double (fst x * fst y) (snd x * snd y)"

text \<open>Division by a positive double.\<close>

definition double_div :: "double \<Rightarrow> double \<Rightarrow> double" where
  "double_div x y = round_double (fst x * snd y) (snd x * fst y)"

text \<open>Truncation of a double that is not negative.\<close>

definition double_trunc :: "double \<Rightarrow> int" where
  "double_trunc x = fst x div snd x"

text \<open>0.1 + 0.2 is the double after 0.3; ten tenths make one.\<close>

lemma double_examples:
  "double_add (double_div (1, 1) (10, 1)) (double_div (2, 1) (10, 1)) \<noteq> double_div (3, 1) (10, 1)"
  "double_mult (10, 1) (double_div (1, 1) (10, 1)) = (4503599627370496, 4503599627370496)"
  "double_of_int (2 ^ 53 + 1) = (2 ^ 53, 1)"
  by code_simp+

end
