(* ===== verification/Metrics.thy ===== *)
theory Metrics
  imports Label GoFloat
begin

text \<open>
  metrics/metrics.go: the Collector, its cache of per-target series, the check decorator and what
  a scrape reads. The Prometheus client is third-party code, so a collector carries the list of
  the calls it makes on it: which child is resolved, set or incremented, in order. A child is
  known by its metric name and label values; the client gives the same child for the same ones.
\<close>

section \<open>Data\<close>

type_synonym series = "string \<times> string list"

datatype prom_call =
    WithLabelValues series
  | GaugeSet series double
  | CounterInc series
  | HistObserve string double
  | Register string
  | NewHistogram string "double list"

type_synonym skipKind = string
definition SkipInFlight :: skipKind where "SkipInFlight = ''in_flight''"
definition SkipQueued :: skipKind where "SkipQueued = ''queued''"

text \<open>\<open>RunnerStats\<close>: two readings of the state of the program at scrape time.\<close>

record 's runner_stats =
  Skipped :: "'s \<Rightarrow> int"
  Dropped :: "'s \<Rightarrow> int"

record 's metrics_options =
  OptVersion :: string
  OptCommit :: string
  DisablePerTarget :: bool
  ResultErrors :: "('s \<Rightarrow> int) option"

definition errorClasses :: "errorClass list" where
  "errorClasses = [ErrTimeout, ErrConnectionRefused, ErrDNSFailure, ErrTLSError, ErrSSRFBlockedClass,
     ErrHTTPError, ErrUnknown]"

text \<open>The bounds are decimal constants: each is the double nearest to its thousandths of a second.\<close>

definition durationBuckets :: "double list" where
  "durationBuckets = [round_double 5 1000, round_double 10 1000, round_double 25 1000, round_double 50 1000,
     round_double 100 1000, round_double 250 1000, round_double 500 1000, round_double 1000 1000,
     round_double 2500 1000, round_double 5000 1000, round_double 10000 1000, round_double 30000 1000]"

definition check_up :: string where "check_up = ''descry_check_up''"
definition check_status_code :: string where "check_status_code = ''descry_check_status_code''"
definition check_latency :: string where "check_latency = ''descry_check_latency_seconds''"
definition check_last_run :: string where "check_last_run = ''descry_check_last_run_timestamp_seconds''"
definition check_tls_expiry :: string where "check_tls_expiry = ''descry_check_tls_expiry_timestamp_seconds''"
definition check_runs :: string where "check_runs = ''descry_check_runs_total''"
definition check_duration :: string where "check_duration = ''descry_check_duration_seconds''"
definition check_errors :: string where "check_errors = ''descry_check_errors_total''"
definition skips_observed :: string where "skips_observed = ''descry_runner_skips_observed_total''"
definition runner_targets :: string where "runner_targets = ''descry_runner_targets''"
definition build_info :: string where "build_info = ''descry_build_info''"
definition skipped_slots :: string where "skipped_slots = ''descry_runner_skipped_slots_total''"
definition dropped_results :: string where "dropped_results = ''descry_runner_dropped_results_total''"
definition result_errors :: string where "result_errors = ''descry_runner_result_errors_total''"

lemmas metric_names = check_up_def check_status_code_def check_latency_def check_last_run_def
  check_tls_expiry_def check_runs_def check_duration_def check_errors_def skips_observed_def
  runner_targets_def build_info_def skipped_slots_def dropped_results_def result_errors_def

record targetSeries =
  ts_label :: string
  ts_up :: series
  ts_statusCode :: series
  ts_latency :: series
  ts_last :: series
  ts_runsUp :: series
  ts_runsDown :: series
  ts_tls :: "series option"

record 's collector =
  stats :: "'s runner_stats option"
  perTargetActive :: bool
  byURL :: "string \<rightharpoonup> targetSeries"
  errsBy :: "errorClass \<rightharpoonup> series"
  errUnknown :: series
  skipsInFlight :: series
  skipsQueued :: series
  resultErrors :: "'s \<Rightarrow> int"
  calls :: "prom_call list"

definition emit :: "prom_call list \<Rightarrow> 's collector \<Rightarrow> 's collector" where
  "emit xs c = c\<lparr>calls := calls c @ xs\<rparr>"

section \<open>New\<close>

text \<open>The registered families, in the order of registration.\<close>

definition per_target_families :: "string list" where
  "per_target_families = [check_up, check_status_code, check_latency, check_last_run, check_tls_expiry, check_runs]"

definition fleet_families :: "string list" where
  "fleet_families = [check_duration, check_errors, skips_observed, runner_targets, build_info,
     skipped_slots, dropped_results, result_errors]"

text \<open>Registration stops at the first error; \<open>register\<close> is the answer of the registry.\<close>

fun register_all :: "(string \<Rightarrow> goerr option) \<Rightarrow> string list \<Rightarrow> goerr option" where
  "register_all register [] = None"
| "register_all register (n # ns) =
     (case register n of Some err \<Rightarrow> Some err | None \<Rightarrow> register_all register ns)"

definition NewCollector :: "(string \<Rightarrow> goerr option) \<Rightarrow> 's metrics_options \<Rightarrow> goerr + 's collector" where
  "NewCollector register opts =
     (let active = \<not> DisablePerTarget opts;
          cs = (if active then per_target_families else []) @ fleet_families;
          infl = (skips_observed, [SkipInFlight]); queued = (skips_observed, [SkipQueued]);
          info = (build_info, [OptVersion opts, OptCommit opts])
      in case register_all register cs of
           Some err \<Rightarrow> Inl err
         | None \<Rightarrow> Inr
             \<lparr>stats = None, perTargetActive = active, byURL = Map.empty,
              errsBy = map_of (map (\<lambda>ec. (ec, (check_errors, [ec]))) errorClasses),
              errUnknown = (check_errors, [ErrUnknown]), skipsInFlight = infl, skipsQueued = queued,
              resultErrors = (case ResultErrors opts of None \<Rightarrow> (\<lambda>s. 0) | Some f \<Rightarrow> f),
              calls = NewHistogram check_duration durationBuckets #
                map (\<lambda>ec. WithLabelValues (check_errors, [ec])) errorClasses @
                [WithLabelValues infl, WithLabelValues queued, GaugeSet info (double_of_int 1)] @
                map Register cs\<rparr>)"

section \<open>Operations\<close>

definition SetRunner :: "'s runner_stats option \<Rightarrow> 's collector \<Rightarrow> 's collector" where
  "SetRunner st c = (case st of None \<Rightarrow> c | Some r \<Rightarrow> c\<lparr>stats := Some r\<rparr>)"

definition ObserveSkip :: "skipKind \<Rightarrow> 's collector \<Rightarrow> 's collector" where
  "ObserveSkip kind c =
     (if kind = SkipInFlight then emit [CounterInc (skipsInFlight c)] c
      else if kind = SkipQueued then emit [CounterInc (skipsQueued c)] c
      else c)"

definition SetTargetCount :: "int \<Rightarrow> 's collector \<Rightarrow> 's collector" where
  "SetTargetCount n c = emit [GaugeSet (runner_targets, []) (double_of_int n)] c"

text \<open>What a scrape reads of the runner and of the drain, in the state \<open>s\<close> of the program.\<close>

definition scrape_skipped :: "'s collector \<Rightarrow> 's \<Rightarrow> double" where
  "scrape_skipped c s = (case stats c of Some r \<Rightarrow> double_of_int (Skipped r s) | None \<Rightarrow> (0, 1))"

definition scrape_dropped :: "'s collector \<Rightarrow> 's \<Rightarrow> double" where
  "scrape_dropped c s = (case stats c of Some r \<Rightarrow> double_of_int (Dropped r s) | None \<Rightarrow> (0, 1))"

definition scrape_result_errors :: "'s collector \<Rightarrow> 's \<Rightarrow> double" where
  "scrape_result_errors c s = double_of_int (resultErrors c s)"

text \<open>
  \<open>unixSeconds\<close>: the zero time of Go is 62135596800 seconds before the epoch.
\<close>

definition unixSeconds :: "time \<Rightarrow> double" where
  "unixSeconds t =
     double_add (double_of_int (t div Second - 62135596800))
       (double_div (double_of_int (t mod Second)) (1000000000, 1))"

text \<open>
  \<open>series\<close> in its three parts: the lookup under the read lock, the resolution of the
  children outside any lock, and the insertion under the write lock, where an earlier entry wins.
\<close>

definition resolve_series :: "string \<Rightarrow> targetSeries \<times> prom_call list" where
  "resolve_series rawURL =
     (let label = TargetLabel rawURL;
          ts = \<lparr>ts_label = label, ts_up = (check_up, [label]), ts_statusCode = (check_status_code, [label]),
                ts_latency = (check_latency, [label]), ts_last = (check_last_run, [label]),
                ts_runsUp = (check_runs, [label, StatusUp]), ts_runsDown = (check_runs, [label, StatusDown]),
                ts_tls = None\<rparr>
      in (ts, map WithLabelValues [ts_up ts, ts_statusCode ts, ts_latency ts, ts_last ts, ts_runsUp ts, ts_runsDown ts]))"

definition insert_series ::
  "string \<Rightarrow> targetSeries \<Rightarrow> (string \<rightharpoonup> targetSeries) \<Rightarrow> targetSeries \<times> (string \<rightharpoonup> targetSeries)" where
  "insert_series rawURL ts cache =
     (case cache rawURL of Some prior \<Rightarrow> (prior, cache) | None \<Rightarrow> (ts, cache(rawURL \<mapsto> ts)))"

definition target_series :: "string \<Rightarrow> 's collector \<Rightarrow> targetSeries \<times> 's collector" where
  "target_series rawURL c =
     (case byURL c rawURL of Some ts \<Rightarrow> (ts, c)
      | None \<Rightarrow>
          (case resolve_series rawURL of (ts, xs) \<Rightarrow>
             (case insert_series rawURL ts (byURL c) of (ts', cache) \<Rightarrow> (ts', emit xs (c\<lparr>byURL := cache\<rparr>)))))"

text \<open>\<open>tlsGauge\<close> on the series cached for a URL; the swap stores the child only once.\<close>

definition tlsGauge :: "string \<Rightarrow> targetSeries \<Rightarrow> 's collector \<Rightarrow> series \<times> 's collector" where
  "tlsGauge rawURL ts c =
     (case ts_tls ts of Some g \<Rightarrow> (g, c)
      | None \<Rightarrow> (let g = (check_tls_expiry, [ts_label ts])
                 in (g, emit [WithLabelValues g] (c\<lparr>byURL := (byURL c)(rawURL \<mapsto> ts\<lparr>ts_tls := Some g\<rparr>)\<rparr>))))"

text \<open>\<open>record\<close>; \<open>now\<close> is the collector's clock.\<close>

definition record_error :: "time \<Rightarrow> targetSeries option \<Rightarrow> 's collector \<Rightarrow> 's collector" where
  "record_error now ts c =
     (let c = emit [CounterInc (errUnknown c)] c
      in case ts of None \<Rightarrow> c
         | Some ts \<Rightarrow> emit [GaugeSet (ts_up ts) (double_of_int 0), GaugeSet (ts_statusCode ts) (double_of_int 0),
             GaugeSet (ts_last ts) (unixSeconds now), CounterInc (ts_runsDown ts)] c)"

definition record_fleet :: "observation \<Rightarrow> 's collector \<Rightarrow> 's collector" where
  "record_fleet obs c =
     (let latency = double_div (double_of_int (LatencyMs obs)) (1000, 1);
          c = emit [HistObserve check_duration latency] c
      in if ErrorClass obs \<noteq> ErrNone then
           emit [CounterInc (case errsBy c (ErrorClass obs) of Some ec \<Rightarrow> ec | None \<Rightarrow> errUnknown c)] c
         else c)"

definition record_target :: "time \<Rightarrow> string \<Rightarrow> observation \<Rightarrow> targetSeries \<Rightarrow> 's collector \<Rightarrow> 's collector" where
  "record_target now rawURL obs ts c =
     (let latency = double_div (double_of_int (LatencyMs obs)) (1000, 1);
          c = (if Status obs = StatusUp
               then emit [GaugeSet (ts_up ts) (double_of_int 1), CounterInc (ts_runsUp ts)] c
               else emit [GaugeSet (ts_up ts) (double_of_int 0), CounterInc (ts_runsDown ts)] c);
          at = (if time_is_zero (ObservedAt obs) then now else ObservedAt obs);
          c = emit [GaugeSet (ts_statusCode ts) (double_of_int (StatusCode obs)),
                    GaugeSet (ts_latency ts) latency, GaugeSet (ts_last ts) (unixSeconds at)] c
      in case TLSExpiry obs of None \<Rightarrow> c
         | Some exp \<Rightarrow> (case tlsGauge rawURL ts c of (g, c) \<Rightarrow> emit [GaugeSet g (unixSeconds exp)] c))"

definition record_run :: "time \<Rightarrow> string \<Rightarrow> observation \<Rightarrow> goerr option \<Rightarrow> 's collector \<Rightarrow> 's collector" where
  "record_run now rawURL obs err c =
     (let (ts, c) = (if perTargetActive c then (case target_series rawURL c of (ts, c) \<Rightarrow> (Some ts, c)) else (None, c))
      in if err \<noteq> None then record_error now ts c
         else let c = record_fleet obs c
              in case ts of None \<Rightarrow> c | Some ts \<Rightarrow> record_target now rawURL obs ts c)"

text \<open>The decorator: the inner check's observation and error pass through.\<close>

definition instrumented_Run ::
  "(target \<Rightarrow> observation \<times> goerr option) \<Rightarrow> time \<Rightarrow> target \<Rightarrow> 's collector \<Rightarrow>
     (observation \<times> goerr option) \<times> 's collector" where
  "instrumented_Run inner now t c =
     (case inner t of (obs, err) \<Rightarrow> ((obs, err), record_run now (URL t) obs err c))"

section \<open>The cache under racing resolvers\<close>

text \<open>A map whose insertion keeps an earlier entry and returns the one that is stored.\<close>

locale put_once =
  fixes look :: "'m \<Rightarrow> 'k \<Rightarrow> 'v option"
    and put :: "'k \<Rightarrow> 'v \<Rightarrow> 'm \<Rightarrow> 'v \<times> 'm"
    and ok :: "'k \<Rightarrow> 'v \<Rightarrow> bool"
  assumes put_stored: "put k v m = (w, m') \<Longrightarrow> look m' k = Some w"
    and put_returns: "put k v m = (w, m') \<Longrightarrow> w = (case look m k of Some p \<Rightarrow> p | None \<Rightarrow> v)"
    and put_other: "put k v m = (w, m') \<Longrightarrow> j \<noteq> k \<Longrightarrow> look m' j = look m j"
begin

lemma put_keeps: "put k v m = (w, m') \<Longrightarrow> look m j = Some p \<Longrightarrow> look m' j = Some p"
  by (cases "j = k") (auto simp: put_stored put_other dest: put_returns)

lemma put_ok:
  assumes "put k v m = (w, m')" "ok k v" "\<And>j p. look m j = Some p \<Longrightarrow> ok j p" "look m' j = Some p"
  shows "ok j p"
  using assms put_stored [OF assms(1)] put_returns [OF assms(1)] put_other [OF assms(1)]
  by (cases "j = k") (auto split: option.splits)

end

text \<open>Where a goroutine in \<open>series\<close> is: before the lookup, after a miss, with its own children, done.\<close>

datatype series_pc =
    SpLookup string
  | SpMiss string
  | SpInsert string targetSeries
  | SpGot string targetSeries

fun series_step :: "series_pc \<Rightarrow> (string \<rightharpoonup> targetSeries) \<Rightarrow> series_pc \<times> (string \<rightharpoonup> targetSeries)" where
  "series_step (SpLookup url) cache =
     (case cache url of Some ts \<Rightarrow> (SpGot url ts, cache) | None \<Rightarrow> (SpMiss url, cache))"
| "series_step (SpMiss url) cache = (SpInsert url (fst (resolve_series url)), cache)"
| "series_step (SpInsert url ts) cache = (case insert_series url ts cache of (ts', cache') \<Rightarrow> (SpGot url ts', cache'))"
| "series_step (SpGot url ts) cache = (SpGot url ts, cache)"

inductive series_race ::
  "series_pc list \<Rightarrow> (string \<rightharpoonup> targetSeries) \<Rightarrow> series_pc list \<Rightarrow> (string \<rightharpoonup> targetSeries) \<Rightarrow> bool" where
  start: "series_race pcs cache pcs cache"
| step: "series_race pcs cache pcs' cache' \<Longrightarrow> i < length pcs' \<Longrightarrow> series_step (pcs' ! i) cache' = (pc, cache'') \<Longrightarrow>
    series_race pcs cache (pcs'[i := pc]) cache''"

text \<open>The children of a URL, whichever tls child is there.\<close>

definition series_for :: "string \<Rightarrow> targetSeries \<Rightarrow> bool" where
  "series_for url ts \<longleftrightarrow>
     ts\<lparr>ts_tls := None\<rparr> = fst (resolve_series url) \<and> ts_tls ts \<in> {None, Some (check_tls_expiry, [TargetLabel url])}"

interpretation cache: put_once "\<lambda>m. m" insert_series series_for
  by standard (auto simp: insert_series_def split: option.splits)

definition cache_ok :: "(string \<rightharpoonup> targetSeries) \<Rightarrow> bool" where
  "cache_ok m \<longleftrightarrow> (\<forall>url ts. m url = Some ts \<longrightarrow> series_for url ts)"

lemma series_for_resolve: "series_for url (fst (resolve_series url))"
  by (simp add: series_for_def resolve_series_def Let_def)

fun pc_ok :: "(string \<rightharpoonup> targetSeries) \<Rightarrow> series_pc \<Rightarrow> bool" where
  "pc_ok m (SpInsert url ts) = series_for url ts"
| "pc_ok m (SpGot url ts) = (m url = Some ts)"
| "pc_ok m pc = True"

fun pc_start :: "series_pc \<Rightarrow> bool" where
  "pc_start (SpLookup url) = True"
| "pc_start pc = False"

lemma series_step_ok:
  assumes "series_step pc m = (pc', m')" "cache_ok m" "pc_ok m pc"
  shows "cache_ok m' \<and> pc_ok m' pc' \<and> (\<forall>url ts. m url = Some ts \<longrightarrow> m' url = Some ts)"
proof (cases pc)
  case (SpInsert url ts)
  then obtain ts' where i: "insert_series url ts m = (ts', m')" "pc' = SpGot url ts'"
    using assms(1) by (auto split: prod.splits)
  then show ?thesis
    using assms SpInsert cache.put_stored [OF i(1)] cache.put_keeps [OF i(1)] cache.put_ok [OF i(1)]
    by (auto simp: cache_ok_def)
qed (use assms series_for_resolve in \<open>auto split: option.splits\<close>)

lemma pc_ok_mono: "pc_ok m pc \<Longrightarrow> \<forall>url ts. m url = Some ts \<longrightarrow> m' url = Some ts \<Longrightarrow> pc_ok m' pc"
  by (cases pc) auto

lemma series_race_inv:
  assumes "series_race pcs m pcs' m'" "cache_ok m" "list_all pc_start pcs"
  shows "cache_ok m' \<and> list_all (pc_ok m') pcs' \<and> (\<forall>url ts. m url = Some ts \<longrightarrow> m' url = Some ts)"
  using assms
proof (induction rule: series_race.induct)
  case (start pcs m)
  have "pc_start pc \<Longrightarrow> pc_ok m pc" for pc by (cases pc) auto
  then show ?case using start by (auto simp: list_all_iff)
next
  case (step pcs m pcs' m' i pc m'')
  then have inv: "cache_ok m'" "list_all (pc_ok m') pcs'" "\<forall>url ts. m url = Some ts \<longrightarrow> m' url = Some ts" by auto
  have s: "cache_ok m'' \<and> pc_ok m'' pc \<and> (\<forall>url ts. m' url = Some ts \<longrightarrow> m'' url = Some ts)"
    using series_step_ok [OF step.hyps(3) inv(1)] inv(2) step.hyps(2) by (simp add: list_all_length)
  then have "list_all (pc_ok m'') pcs'" using inv(2) pc_ok_mono by (metis (no_types, lifting) list_all_iff)
  then have "list_all (pc_ok m'') (pcs'[i := pc])" using s by (intro list_all_upd) auto
  then show ?case using s inv(3) by auto
qed

section \<open>What every run records\<close>

text \<open>The status and the error class that a run counts under.\<close>

definition run_status :: "observation \<Rightarrow> goerr option \<Rightarrow> status" where
  "run_status obs err = (if err = None \<and> Status obs = StatusUp then StatusUp else StatusDown)"

definition run_class :: "observation \<Rightarrow> goerr option \<Rightarrow> errorClass option" where
  "run_class obs err =
     (if err \<noteq> None then Some ErrUnknown
      else if ErrorClass obs = ErrNone then None
      else if ErrorClass obs \<in> set errorClasses then Some (ErrorClass obs) else Some ErrUnknown)"

text \<open>The counters of a run.\<close>

definition run_counters :: "bool \<Rightarrow> string \<Rightarrow> observation \<Rightarrow> goerr option \<Rightarrow> series list" where
  "run_counters active url obs err =
     (case run_class obs err of None \<Rightarrow> [] | Some ec \<Rightarrow> [(check_errors, [ec])]) @
     (if active then [(check_runs, [TargetLabel url, run_status obs err])] else [])"

fun counter_of :: "prom_call \<Rightarrow> series list" where
  "counter_of (CounterInc k) = [k]"
| "counter_of x = []"

definition counted :: "'s collector \<Rightarrow> series list" where
  "counted c = concat (map counter_of (calls c))"

text \<open>The label values of a call.\<close>

fun labels_of :: "prom_call \<Rightarrow> string list" where
  "labels_of (WithLabelValues k) = snd k"
| "labels_of (GaugeSet k v) = snd k"
| "labels_of (CounterInc k) = snd k"
| "labels_of (HistObserve n v) = []"
| "labels_of (Register n) = []"
| "labels_of (NewHistogram n bs) = []"

text \<open>The constant parts of a collector and its cache.\<close>

definition collector_inv :: "'s collector \<Rightarrow> bool" where
  "collector_inv c \<longleftrightarrow>
     cache_ok (byURL c) \<and> errsBy c = map_of (map (\<lambda>ec. (ec, (check_errors, [ec]))) errorClasses) \<and>
     errUnknown c = (check_errors, [ErrUnknown]) \<and> skipsInFlight c = (skips_observed, [SkipInFlight]) \<and>
     skipsQueued c = (skips_observed, [SkipQueued])"

lemma counted_emit [simp]: "counted (emit xs c) = counted c @ concat (map counter_of xs)"
  by (simp add: counted_def emit_def)

lemma counted_byURL [simp]: "counted (c\<lparr>byURL := m\<rparr>) = counted c"
  by (simp add: counted_def)

lemma emit_simps [simp]:
  "byURL (emit xs c) = byURL c" "errsBy (emit xs c) = errsBy c" "errUnknown (emit xs c) = errUnknown c"
  "skipsInFlight (emit xs c) = skipsInFlight c" "skipsQueued (emit xs c) = skipsQueued c"
  "perTargetActive (emit xs c) = perTargetActive c" "calls (emit xs c) = calls c @ xs"
  "stats (emit xs c) = stats c" "resultErrors (emit xs c) = resultErrors c"
  by (simp_all add: emit_def)

lemma errsBy_lookup:
  "map_of (map (\<lambda>ec. (ec, (check_errors, [ec]))) ecs) ec = (if ec \<in> set ecs then Some (check_errors, [ec]) else None)"
  by (induction ecs) auto

definition run_labels :: "string \<Rightarrow> string set" where
  "run_labels url = {TargetLabel url, StatusUp, StatusDown} \<union> set errorClasses"

text \<open>A collector that differs in its cache and in calls about one target.\<close>

definition extends :: "string \<Rightarrow> series list \<Rightarrow> 's collector \<Rightarrow> 's collector \<Rightarrow> bool" where
  "extends url ks c c' \<longleftrightarrow>
     collector_inv c' \<and> perTargetActive c' = perTargetActive c \<and> counted c' = counted c @ ks \<and>
     dom (byURL c') \<subseteq> insert url (dom (byURL c)) \<and> dom (byURL c) \<subseteq> dom (byURL c') \<and>
     (\<exists>xs. calls c' = calls c @ xs \<and> (\<forall>x \<in> set xs. set (labels_of x) \<subseteq> run_labels url))"

lemma extends_trans:
  assumes "extends url ks c c'" "extends url ls c' c''"
  shows "extends url (ks @ ls) c c''"
proof -
  obtain xs ys where x: "calls c' = calls c @ xs" "\<forall>x \<in> set xs. set (labels_of x) \<subseteq> run_labels url"
    and y: "calls c'' = calls c' @ ys" "\<forall>x \<in> set ys. set (labels_of x) \<subseteq> run_labels url"
    using assms by (auto simp: extends_def)
  then have "calls c'' = calls c @ (xs @ ys)" "\<forall>x \<in> set (xs @ ys). set (labels_of x) \<subseteq> run_labels url" by auto
  moreover have "dom (byURL c'') \<subseteq> insert url (dom (byURL c))" "dom (byURL c) \<subseteq> dom (byURL c'')"
    using assms unfolding extends_def by blast+
  ultimately show ?thesis using assms unfolding extends_def by (metis append_assoc)
qed

lemma extends_emit:
  assumes "collector_inv c" "\<And>x. x \<in> set xs \<Longrightarrow> set (labels_of x) \<subseteq> run_labels url"
  shows "extends url (concat (map counter_of xs)) c (emit xs c)"
  using assms by (auto simp: extends_def collector_inv_def)

lemma extends_emitI:
  assumes "collector_inv c" "concat (map counter_of xs) = ks" "list_all (\<lambda>x. set (labels_of x) \<subseteq> run_labels url) xs"
  shows "extends url ks c (emit xs c)"
  using assms extends_emit [of c xs url] by (auto simp: list_all_iff)

lemma resolve_labels:
  "x \<in> set (snd (resolve_series url)) \<Longrightarrow> set (labels_of x) \<subseteq> run_labels url"
  "concat (map counter_of (snd (resolve_series url))) = []"
  by (auto simp: resolve_series_def Let_def run_labels_def)

lemma extends_cache:
  assumes "collector_inv c" "series_for url ts"
  shows "extends url [] c (c\<lparr>byURL := (byURL c)(url \<mapsto> ts)\<rparr>)"
  using assms by (auto simp: extends_def collector_inv_def cache_ok_def)

lemma target_series_extends:
  assumes "collector_inv c" "target_series url c = (ts, c')"
  shows "extends url [] c c' \<and> series_for url ts \<and> byURL c' url = Some ts"
proof (cases "byURL c url")
  case (Some ts0)
  then show ?thesis using assms extends_emit [of c "[]" url]
    by (auto simp: target_series_def collector_inv_def cache_ok_def emit_def)
next
  case None
  obtain t xs where r: "resolve_series url = (t, xs)" by (cases "resolve_series url")
  then have t: "series_for url t" using series_for_resolve [of url] by simp
  let ?c = "c\<lparr>byURL := (byURL c)(url \<mapsto> t)\<rparr>"
  have e: "ts = t" "c' = emit xs ?c"
    using assms(2) None r by (auto simp: target_series_def insert_series_def)
  have "extends url [] c ?c" using extends_cache [OF assms(1) t] .
  moreover have "extends url [] ?c (emit xs ?c)"
    using extends_emit [of ?c xs url] calculation resolve_labels(1) [of _ url] resolve_labels(2) [of url] r by (simp add: extends_def)
  ultimately show ?thesis using extends_trans [of url "[]" c ?c "[]" "emit xs ?c"] e t by simp
qed

lemma series_for_fields:
  assumes "series_for url ts"
  shows "ts_label ts = TargetLabel url" "ts_up ts = (check_up, [TargetLabel url])"
    "ts_statusCode ts = (check_status_code, [TargetLabel url])" "ts_latency ts = (check_latency, [TargetLabel url])"
    "ts_last ts = (check_last_run, [TargetLabel url])"
    "ts_runsUp ts = (check_runs, [TargetLabel url, StatusUp])"
    "ts_runsDown ts = (check_runs, [TargetLabel url, StatusDown])"
    "ts_tls ts = None \<or> ts_tls ts = Some (check_tls_expiry, [TargetLabel url])"
  using assms by (cases ts; auto simp: series_for_def resolve_series_def Let_def)+

lemma errUnknown_listed: "ErrUnknown \<in> set errorClasses"
  by (simp add: errorClasses_def)

lemma inc_class_extends:
  assumes "collector_inv c" "ec \<in> set errorClasses"
  shows "extends url [(check_errors, [ec])] c (emit [CounterInc (check_errors, [ec])] c)"
  using extends_emit [OF assms(1), of "[CounterInc (check_errors, [ec])]" url] assms(2)
  by (simp add: run_labels_def)

lemma record_error_extends:
  assumes "collector_inv c" "\<And>ts. mts = Some ts \<Longrightarrow> series_for url ts"
  shows "extends url ([(check_errors, [ErrUnknown])] @
     (case mts of None \<Rightarrow> [] | Some ts \<Rightarrow> [(check_runs, [TargetLabel url, StatusDown])])) c (record_error now mts c)"
proof -
  let ?c = "emit [CounterInc (check_errors, [ErrUnknown])] c"
  have u: "errUnknown c = (check_errors, [ErrUnknown])" using assms(1) by (simp add: collector_inv_def)
  have e: "extends url [(check_errors, [ErrUnknown])] c ?c"
    using inc_class_extends [OF assms(1) errUnknown_listed] .
  show ?thesis
  proof (cases mts)
    case None
    then show ?thesis using e u by (simp add: record_error_def Let_def)
  next
    case (Some ts)
    note f = series_for_fields [OF assms(2) [OF Some]]
    let ?xs = "[GaugeSet (ts_up ts) (double_of_int 0), GaugeSet (ts_statusCode ts) (double_of_int 0),
      GaugeSet (ts_last ts) (unixSeconds now), CounterInc (ts_runsDown ts)]"
    have "extends url [(check_runs, [TargetLabel url, StatusDown])] ?c (emit ?xs ?c)"
      using e f by (intro extends_emitI) (simp_all add: extends_def run_labels_def)
    from extends_trans [OF e this] show ?thesis using Some u by (simp add: record_error_def Let_def)
  qed
qed

lemma record_fleet_extends:
  assumes "collector_inv c"
  shows "extends url (case run_class obs None of None \<Rightarrow> [] | Some ec \<Rightarrow> [(check_errors, [ec])]) c (record_fleet obs c)"
proof -
  let ?h = "HistObserve check_duration (double_div (double_of_int (LatencyMs obs)) (1000, 1))"
  have e: "extends url [] c (emit [?h] c)" using extends_emit [OF assms, of "[?h]" url] by simp
  then have i: "collector_inv (emit [?h] c)" by (simp add: extends_def)
  let ?ec = "if ErrorClass obs \<in> set errorClasses then ErrorClass obs else ErrUnknown"
  have r: "record_fleet obs c =
      (if ErrorClass obs \<noteq> ErrNone then emit [CounterInc (check_errors, [?ec])] (emit [?h] c) else emit [?h] c)"
    using assms by (simp add: record_fleet_def Let_def collector_inv_def errsBy_lookup)
  have "extends url [(check_errors, [?ec])] (emit [?h] c) (emit [CounterInc (check_errors, [?ec])] (emit [?h] c))"
    using inc_class_extends [OF i] errUnknown_listed by simp
  from extends_trans [OF e this] show ?thesis using e r
    by (cases "ErrorClass obs \<in> set errorClasses") (simp_all add: run_class_def)
qed

lemma tls_extends:
  assumes "collector_inv c" "series_for url ts" "tlsGauge url ts c = (g, c')"
  shows "extends url [] c c' \<and> g = (check_tls_expiry, [TargetLabel url])"
proof (cases "ts_tls ts")
  case (Some g')
  then show ?thesis using assms series_for_fields(8) [OF assms(2)] extends_emit [OF assms(1), of "[]" url]
    by (auto simp: tlsGauge_def emit_def)
next
  case None
  let ?g = "(check_tls_expiry, [TargetLabel url])"
  let ?ts = "ts\<lparr>ts_tls := Some ?g\<rparr>"
  have "series_for url ?ts" using assms(2) by (auto simp: series_for_def)
  then have e: "extends url [] c (c\<lparr>byURL := (byURL c)(url \<mapsto> ?ts)\<rparr>)" by (rule extends_cache [OF assms(1)])
  let ?c = "c\<lparr>byURL := (byURL c)(url \<mapsto> ?ts)\<rparr>"
  have "extends url [] ?c (emit [WithLabelValues ?g] ?c)"
    using extends_emit [of ?c "[WithLabelValues ?g]" url] e by (simp add: extends_def run_labels_def)
  from extends_trans [OF e this] show ?thesis
    using assms(3) None series_for_fields(1) [OF assms(2)] by (auto simp: tlsGauge_def Let_def)
qed

lemma record_target_extends:
  assumes "collector_inv c" "series_for url ts"
  shows "extends url [(check_runs, [TargetLabel url, run_status obs None])] c (record_target now url obs ts c)"
proof -
  note f = series_for_fields [OF assms(2)]
  let ?at = "if time_is_zero (ObservedAt obs) then now else ObservedAt obs"
  let ?up = "if Status obs = StatusUp then [GaugeSet (ts_up ts) (double_of_int 1), CounterInc (ts_runsUp ts)]
    else [GaugeSet (ts_up ts) (double_of_int 0), CounterInc (ts_runsDown ts)]"
  let ?xs = "?up @ [GaugeSet (ts_statusCode ts) (double_of_int (StatusCode obs)),
    GaugeSet (ts_latency ts) (double_div (double_of_int (LatencyMs obs)) (1000, 1)), GaugeSet (ts_last ts) (unixSeconds ?at)]"
  have ee: "emit ys (emit xs d) = emit (xs @ ys) d" for xs ys and d :: "'a collector" by (simp add: emit_def)
  have n: "concat (map counter_of ?xs) = [(check_runs, [TargetLabel url, run_status obs None])]"
    using f by (simp add: run_status_def)
  have "set (labels_of x) \<subseteq> run_labels url" if "x \<in> set ?xs" for x
    using that f by (auto simp: run_labels_def split: if_splits)
  then have e: "extends url [(check_runs, [TargetLabel url, run_status obs None])] c (emit ?xs c)"
    using extends_emit [OF assms(1), of ?xs url] unfolding n by blast
  have r: "record_target now url obs ts c =
     (case TLSExpiry obs of None \<Rightarrow> emit ?xs c
      | Some exp \<Rightarrow> (case tlsGauge url ts (emit ?xs c) of (g, c) \<Rightarrow> emit [GaugeSet g (unixSeconds exp)] c))"
    by (cases "TLSExpiry obs"; cases "Status obs = StatusUp") (simp_all add: record_target_def Let_def ee)
  show ?thesis
  proof (cases "TLSExpiry obs")
    case None
    then show ?thesis using r e by simp
  next
    case (Some exp)
    obtain g c' where t: "tlsGauge url ts (emit ?xs c) = (g, c')" by (cases "tlsGauge url ts (emit ?xs c)")
    have i: "collector_inv (emit ?xs c)" using e by (simp add: extends_def)
    have e2: "extends url [] (emit ?xs c) c'" and g: "g = (check_tls_expiry, [TargetLabel url])"
      using tls_extends [OF i assms(2) t] by auto
    have "extends url [] c' (emit [GaugeSet g (unixSeconds exp)] c')"
      using extends_emit [of c' "[GaugeSet g (unixSeconds exp)]" url] e2 g by (simp add: extends_def run_labels_def)
    from extends_trans [OF e extends_trans [OF e2 this]] show ?thesis using r Some t by simp
  qed
qed

lemma record_error_byURL: "byURL (record_error now None c) = byURL c"
  by (simp add: record_error_def)

lemma record_fleet_byURL: "byURL (record_fleet obs c) = byURL c"
  by (simp add: record_fleet_def Let_def)

lemma record_run_extends:
  assumes inv: "collector_inv c"
  shows "extends url (run_counters (perTargetActive c) url obs err) c (record_run now url obs err c) \<and>
    dom (byURL (record_run now url obs err c)) =
      (if perTargetActive c then insert url (dom (byURL c)) else dom (byURL c))"
proof (cases "perTargetActive c")
  case False
  show ?thesis
  proof (cases err)
    case None
    then show ?thesis using False record_fleet_extends [OF inv, of url obs]
      by (simp add: record_run_def run_counters_def record_fleet_byURL)
  next
    case (Some e)
    then show ?thesis using False record_error_extends [OF inv, of None url now]
      by (simp add: record_run_def run_counters_def run_class_def record_error_byURL)
  qed
next
  case True
  obtain ts c1 where t: "target_series url c = (ts, c1)" by (cases "target_series url c")
  have e1: "extends url [] c c1" and f: "series_for url ts" and d: "byURL c1 url = Some ts"
    using target_series_extends [OF inv t] by auto
  have i1: "collector_inv c1" using e1 by (simp add: extends_def)
  have "\<exists>c'. record_run now url obs err c = c' \<and> extends url (run_counters True url obs err) c1 c'"
  proof (cases err)
    case (Some e)
    then show ?thesis using True t f record_error_extends [OF i1, of "Some ts" url now]
      by (simp add: record_run_def run_counters_def run_class_def run_status_def)
  next
    case None
    note e2 = record_fleet_extends [OF i1, of url obs]
    then have "collector_inv (record_fleet obs c1)" by (simp add: extends_def)
    note e3 = record_target_extends [OF this f, of obs now]
    show ?thesis using None True t extends_trans [OF e2 e3]
      by (simp add: record_run_def run_counters_def)
  qed
  then have e: "extends url (run_counters True url obs err) c1 (record_run now url obs err c)" by blast
  have "extends url (run_counters True url obs err) c (record_run now url obs err c)"
    using extends_trans [OF e1 e] by simp
  moreover have "url \<in> dom (byURL (record_run now url obs err c))" using e d unfolding extends_def by blast
  ultimately show ?thesis using True unfolding extends_def by auto
qed

section \<open>Runs of the collector\<close>

text \<open>What main does to a collector after New, in any order.\<close>

datatype 's mevent =
    MRun time string observation "goerr option"
  | MSkip skipKind
  | MTargets int
  | MRunner "'s runner_stats option"

fun apply_mevent :: "'s mevent \<Rightarrow> 's collector \<Rightarrow> 's collector" where
  "apply_mevent (MRun now url obs err) c = record_run now url obs err c"
| "apply_mevent (MSkip kind) c = ObserveSkip kind c"
| "apply_mevent (MTargets n) c = SetTargetCount n c"
| "apply_mevent (MRunner st) c = SetRunner st c"

fun mevent_counters :: "bool \<Rightarrow> 's mevent \<Rightarrow> series list" where
  "mevent_counters active (MRun now url obs err) = run_counters active url obs err"
| "mevent_counters active (MSkip kind) =
     (if kind \<in> {SkipInFlight, SkipQueued} then [(skips_observed, [kind])] else [])"
| "mevent_counters active x = []"

fun mevent_urls :: "'s mevent \<Rightarrow> string set" where
  "mevent_urls (MRun now url obs err) = {url}"
| "mevent_urls x = {}"

definition known_labels :: "string \<Rightarrow> string \<Rightarrow> string set \<Rightarrow> string set" where
  "known_labels ver com urls = {ver, com, StatusUp, StatusDown, SkipInFlight, SkipQueued} \<union> set errorClasses \<union> TargetLabel ` urls"

lemma SetRunner_calls: "calls (SetRunner st c) = calls c \<and> byURL (SetRunner st c) = byURL c \<and>
    perTargetActive (SetRunner st c) = perTargetActive c \<and> collector_inv (SetRunner st c) = collector_inv c"
  by (auto simp: SetRunner_def collector_inv_def split: option.splits)

lemma apply_mevent_step:
  assumes "collector_inv c"
  shows "collector_inv (apply_mevent e c) \<and> perTargetActive (apply_mevent e c) = perTargetActive c \<and>
    counted (apply_mevent e c) = counted c @ mevent_counters (perTargetActive c) e \<and>
    dom (byURL (apply_mevent e c)) = dom (byURL c) \<union> (if perTargetActive c then mevent_urls e else {}) \<and>
    (\<exists>xs. calls (apply_mevent e c) = calls c @ xs \<and>
       (\<forall>x \<in> set xs. set (labels_of x) \<subseteq> known_labels ver com (mevent_urls e)))"
proof (cases e)
  case (MRun now url obs err)
  have k: "run_labels url \<subseteq> known_labels ver com {url}" by (auto simp: run_labels_def known_labels_def)
  note r = record_run_extends [OF assms, of url obs err now]
  then obtain xs where "calls (record_run now url obs err c) = calls c @ xs"
      "\<forall>x \<in> set xs. set (labels_of x) \<subseteq> run_labels url"
    unfolding extends_def by blast
  then have "\<exists>xs. calls (record_run now url obs err c) = calls c @ xs \<and>
      (\<forall>x \<in> set xs. set (labels_of x) \<subseteq> known_labels ver com {url})" using k by blast
  then show ?thesis using r MRun by (simp add: extends_def)
next
  case (MSkip kind)
  have n: "SkipInFlight \<noteq> SkipQueued" by (simp add: SkipInFlight_def SkipQueued_def)
  show ?thesis using assms MSkip n by (auto simp: ObserveSkip_def collector_inv_def known_labels_def)
next
  case (MTargets n)
  then show ?thesis using assms by (auto simp: SetTargetCount_def collector_inv_def)
next
  case (MRunner st)
  then show ?thesis using assms SetRunner_calls [of st c] by (auto simp: counted_def)
qed

lemma apply_mevents:
  assumes "collector_inv c"
  shows "collector_inv (fold apply_mevent es c) \<and> perTargetActive (fold apply_mevent es c) = perTargetActive c \<and>
    counted (fold apply_mevent es c) = counted c @ concat (map (mevent_counters (perTargetActive c)) es) \<and>
    dom (byURL (fold apply_mevent es c)) =
      dom (byURL c) \<union> (if perTargetActive c then \<Union> (mevent_urls ` set es) else {}) \<and>
    (\<exists>xs. calls (fold apply_mevent es c) = calls c @ xs \<and>
       (\<forall>x \<in> set xs. set (labels_of x) \<subseteq> known_labels ver com (\<Union> (mevent_urls ` set es))))"
  using assms
proof (induction es arbitrary: c)
  case Nil
  then show ?case by simp
next
  case (Cons e es)
  let ?c = "apply_mevent e c"
  have s: "collector_inv ?c \<and> perTargetActive ?c = perTargetActive c \<and>
    counted ?c = counted c @ mevent_counters (perTargetActive c) e \<and>
    dom (byURL ?c) = dom (byURL c) \<union> (if perTargetActive c then mevent_urls e else {})"
    using apply_mevent_step [OF Cons.prems] by blast
  obtain xs where x: "calls ?c = calls c @ xs"
      "\<forall>x \<in> set xs. set (labels_of x) \<subseteq> known_labels ver com (mevent_urls e)"
    using apply_mevent_step [OF Cons.prems, of e ver com] by blast
  obtain ys where y: "calls (fold apply_mevent es ?c) = calls ?c @ ys"
      "\<forall>x \<in> set ys. set (labels_of x) \<subseteq> known_labels ver com (\<Union> (mevent_urls ` set es))"
    using Cons.IH [of ?c] s by blast
  have m: "known_labels ver com u \<subseteq> known_labels ver com v" if "u \<subseteq> v" for u v
    using that by (auto simp: known_labels_def)
  have "set (labels_of x) \<subseteq> known_labels ver com (\<Union> (mevent_urls ` set (e # es)))"
    if "x \<in> set (xs @ ys)" for x
  proof (cases "x \<in> set xs")
    case True
    then show ?thesis using x(2) m [of "mevent_urls e" "\<Union> (mevent_urls ` set (e # es))"] by force
  next
    case False
    then have "set (labels_of x) \<subseteq> known_labels ver com (\<Union> (mevent_urls ` set es))" using that y(2) by simp
    then show ?thesis using m [of "\<Union> (mevent_urls ` set es)" "\<Union> (mevent_urls ` set (e # es))"] by force
  qed
  moreover have "calls (fold apply_mevent (e # es) c) = calls c @ (xs @ ys)" using x(1) y(1) by simp
  ultimately have "\<exists>xs. calls (fold apply_mevent (e # es) c) = calls c @ xs \<and>
       (\<forall>x \<in> set xs. set (labels_of x) \<subseteq> known_labels ver com (\<Union> (mevent_urls ` set (e # es))))" by blast
  then show ?case using Cons.IH [of ?c] s by auto
qed

lemma NewCollector_inv:
  assumes "NewCollector register opts = Inr c"
  shows "collector_inv c \<and> counted c = [] \<and> byURL c = Map.empty \<and> perTargetActive c = (\<not> DisablePerTarget opts) \<and>
    (\<forall>x \<in> set (calls c). set (labels_of x) \<subseteq> known_labels (OptVersion opts) (OptCommit opts) {})"
  using assms
  by (auto simp: NewCollector_def Let_def collector_inv_def cache_ok_def counted_def known_labels_def comp_def
      split: option.splits)

lemma count_list_concat: "count_list (concat xss) k = sum_list (map (\<lambda>xs. count_list xs k) xss)"
  by (induction xss) auto

text \<open>The events that a predicate on runs holds for.\<close>

fun run_where :: "(string \<Rightarrow> observation \<Rightarrow> goerr option \<Rightarrow> bool) \<Rightarrow> 's mevent \<Rightarrow> bool" where
  "run_where P (MRun now url obs err) = P url obs err"
| "run_where P x = False"

lemma families_distinct [simp]:
  "check_errors \<noteq> check_runs" "check_runs \<noteq> check_errors" "check_errors \<noteq> skips_observed" "skips_observed \<noteq> check_errors"
  "check_runs \<noteq> skips_observed" "skips_observed \<noteq> check_runs"
  by (simp_all add: metric_names)

lemma count_counters:
  "count_list (mevent_counters active e) (check_errors, [ec]) =
     (if run_where (\<lambda>url obs err. run_class obs err = Some ec) e then 1 else 0)"
  "count_list (mevent_counters active e) (check_runs, [l, st]) =
     (if active \<and> run_where (\<lambda>url obs err. TargetLabel url = l \<and> run_status obs err = st) e then 1 else 0)"
  by (cases e; auto simp: run_counters_def split: option.splits)+

lemma sum_list_indicator: "sum_list (map (\<lambda>x. if P x then 1 else 0) xs) = length (filter P xs)"
  by (induction xs) auto

text \<open>
  C24: The counters are exact. After any sequence of recorded runs, skips, target counts and
  runner attachments, the error counter of a class has counted every run with that class once (a
  Run error and a class outside the closed set count as unknown), and the run counter of a label
  and status has counted every run of a URL with that label and that status once, or nothing at
  all when the per-target series are disabled.
\<close>

theorem Collector_counts_runs:
  assumes "NewCollector register opts = Inr c"
  shows "count_list (counted (fold apply_mevent es c)) (check_errors, [ec]) =
      length (filter (run_where (\<lambda>url obs err. run_class obs err = Some ec)) es) \<and>
    count_list (counted (fold apply_mevent es c)) (check_runs, [l, st]) =
      (if DisablePerTarget opts then 0
       else length (filter (run_where (\<lambda>url obs err. TargetLabel url = l \<and> run_status obs err = st)) es))"
  using apply_mevents [of c es] NewCollector_inv [OF assms]
  by (simp add: count_list_concat comp_def count_counters sum_list_indicator)

definition demo_opts :: "unit metrics_options" where
  "demo_opts = \<lparr>OptVersion = ''dev'', OptCommit = ''none'', DisablePerTarget = False, ResultErrors = None\<rparr>"

definition demo_run :: "observation \<Rightarrow> unit mevent" where
  "demo_run obs = MRun 5 ''https://u:p@h/x?q'' obs None"

definition demo_up :: observation where
  "demo_up = \<lparr>Status = StatusUp, LatencyMs = 12, ErrorClass = ErrNone, StatusCode = 200,
     FinalURL = ''https://x/'', TLSExpiry = None, ObservedAt = 7, ObsLabels = Map.empty, Extra = Map.empty\<rparr>"

definition demo_down :: observation where
  "demo_down = demo_up\<lparr>Status := StatusDown, ErrorClass := ''custom''\<rparr>"

lemma demo_NewCollector: "\<exists>c. NewCollector (\<lambda>n. None) demo_opts = Inr c"
  by (simp add: NewCollector_def demo_opts_def Let_def per_target_families_def fleet_families_def)

lemma demo_label: "TargetLabel ''https://u:p@h/x?q'' = ''https://h/x''"
  by code_simp

theorem Collector_counts_runs_witness:
  "\<exists>c. NewCollector (\<lambda>n. None) demo_opts = Inr c \<and>
     count_list (counted (fold apply_mevent [demo_run demo_up, MSkip SkipQueued, demo_run demo_down] c))
       (check_errors, [ErrUnknown]) = 1 \<and>
     count_list (counted (fold apply_mevent [demo_run demo_up, MSkip SkipQueued, demo_run demo_down] c))
       (check_runs, [''https://h/x'', StatusUp]) = 1"
proof -
  obtain c where c: "NewCollector (\<lambda>n. None) demo_opts = Inr c" using demo_NewCollector by blast
  have "run_class demo_up None = None" "run_class demo_down None = Some ErrUnknown"
    "run_status demo_up None = StatusUp" "run_status demo_down None \<noteq> StatusUp" "\<not> DisablePerTarget demo_opts"
    by (simp_all add: run_class_def run_status_def demo_up_def demo_down_def demo_opts_def errorClasses_def
        errorClass_defs status_defs)
  then show ?thesis
    using Collector_counts_runs [OF c, of "[demo_run demo_up, MSkip SkipQueued, demo_run demo_down]" ErrUnknown
        "''https://h/x''" StatusUp] c
    by (intro exI [of _ c]) (simp add: demo_run_def demo_label)
qed

text \<open>
  C30: Bounded labels and a bounded cache. Whatever is recorded, every label value handed to the
  client is the version, the commit, one of the fixed statuses, classes and skip kinds, or the
  TargetLabel of a recorded URL, never a raw URL; and the cache holds exactly the recorded URLs,
  or nothing when the per-target series are disabled.
\<close>

theorem Collector_labels_bounded:
  assumes "NewCollector register opts = Inr c"
  shows "(\<forall>x \<in> set (calls (fold apply_mevent es c)).
      set (labels_of x) \<subseteq> known_labels (OptVersion opts) (OptCommit opts) (\<Union> (mevent_urls ` set es))) \<and>
    dom (byURL (fold apply_mevent es c)) =
      (if DisablePerTarget opts then {} else \<Union> (mevent_urls ` set es))"
proof -
  note n = NewCollector_inv [OF assms]
  then obtain xs where x: "calls (fold apply_mevent es c) = calls c @ xs"
      "\<forall>x \<in> set xs. set (labels_of x) \<subseteq> known_labels (OptVersion opts) (OptCommit opts) (\<Union> (mevent_urls ` set es))"
    using apply_mevents [of c es "OptVersion opts" "OptCommit opts"] by blast
  let ?K = "known_labels (OptVersion opts) (OptCommit opts) (\<Union> (mevent_urls ` set es))"
  have "known_labels (OptVersion opts) (OptCommit opts) {} \<subseteq> ?K" by (auto simp: known_labels_def)
  then have "\<forall>y \<in> set (calls c @ xs). set (labels_of y) \<subseteq> ?K" using n x(2) by force
  moreover have "dom (byURL (fold apply_mevent es c)) = (if DisablePerTarget opts then {} else \<Union> (mevent_urls ` set es))"
    using n apply_mevents [of c es] by simp
  ultimately show ?thesis using x(1) by simp
qed

theorem Collector_labels_bounded_witness:
  "\<exists>c. NewCollector (\<lambda>n. None) demo_opts = Inr c \<and>
     dom (byURL (fold apply_mevent [demo_run demo_up, demo_run demo_down] c)) = {''https://u:p@h/x?q''}"
proof -
  obtain c where c: "NewCollector (\<lambda>n. None) demo_opts = Inr c" using demo_NewCollector by blast
  then show ?thesis
    using Collector_labels_bounded [OF c, of "[demo_run demo_up, demo_run demo_down]"]
    by (auto simp: demo_run_def demo_opts_def)
qed

text \<open>
  Racing resolvers agree. Whatever the interleaving of goroutines in \<open>series\<close>, an
  entry of the cache is never replaced, and all goroutines that get the series of a URL get the
  one entry the cache holds, whose children carry the URL's label.
\<close>

theorem series_race_agree:
  assumes "series_race pcs m pcs' m'" and "cache_ok m" and "list_all pc_start pcs"
    and "SpGot url ts \<in> set pcs'" and "SpGot url ts' \<in> set pcs'"
  shows "ts = ts' \<and> m' url = Some ts \<and> ts_label ts = TargetLabel url \<and> m \<subseteq>\<^sub>m m'"
proof -
  have inv: "cache_ok m'" "list_all (pc_ok m') pcs'" "\<forall>url ts. m url = Some ts \<longrightarrow> m' url = Some ts"
    using series_race_inv [OF assms(1-3)] by auto
  then have g: "m' url = Some ts" "m' url = Some ts'" using assms(4,5) by (auto simp: list_all_iff)
  then show ?thesis
    using inv(1,3) series_for_fields(1) by (auto simp: cache_ok_def map_le_def)
qed

theorem series_race_agree_witness:
  "\<exists>ts m. series_race [SpLookup ''u'', SpLookup ''u''] Map.empty [SpGot ''u'' ts, SpGot ''u'' ts] m \<and>
     m ''u'' = Some ts \<and> ts_label ts = TargetLabel ''u''"
proof -
  let ?t = "fst (resolve_series ''u'')"
  have s0: "series_race [SpLookup ''u'', SpLookup ''u''] Map.empty [SpLookup ''u'', SpLookup ''u''] Map.empty"
    by (rule series_race.start)
  have s1: "series_race [SpLookup ''u'', SpLookup ''u''] Map.empty [SpMiss ''u'', SpLookup ''u''] Map.empty"
    using series_race.step [OF s0, of 0] by simp
  have s2: "series_race [SpLookup ''u'', SpLookup ''u''] Map.empty [SpMiss ''u'', SpMiss ''u''] Map.empty"
    using series_race.step [OF s1, of 1] by simp
  have s3: "series_race [SpLookup ''u'', SpLookup ''u''] Map.empty [SpInsert ''u'' ?t, SpMiss ''u''] Map.empty"
    using series_race.step [OF s2, of 0] by simp
  have s4: "series_race [SpLookup ''u'', SpLookup ''u''] Map.empty [SpInsert ''u'' ?t, SpInsert ''u'' ?t] Map.empty"
    using series_race.step [OF s3, of 1] by simp
  have s5: "series_race [SpLookup ''u'', SpLookup ''u''] Map.empty [SpGot ''u'' ?t, SpInsert ''u'' ?t] [''u'' \<mapsto> ?t]"
    using series_race.step [OF s4, of 0] by (simp add: insert_series_def)
  have s6: "series_race [SpLookup ''u'', SpLookup ''u''] Map.empty [SpGot ''u'' ?t, SpGot ''u'' ?t] [''u'' \<mapsto> ?t]"
    using series_race.step [OF s5, of 1] by (simp add: insert_series_def)
  have "cache_ok Map.empty" by (simp add: cache_ok_def)
  then have t: "[''u'' \<mapsto> ?t] ''u'' = Some ?t \<and> ts_label ?t = TargetLabel ''u''"
    using series_race_agree [OF s6, of "''u''" ?t ?t] by simp
  show ?thesis by (rule exI [of _ ?t], rule exI [of _ "[''u'' \<mapsto> ?t]"], rule conjI [OF s6 t])
qed

end
