(* ===== verification/Config.thy ===== *)
theory Config
  imports GoStrings GoTime GoFloat
begin

text \<open>
  config/config.go: \<open>ValidateSink\<close> and \<open>Load\<close>, with Go's \<open>time.ParseDuration\<close>
  written out. The YAML decoder is third-party code: what its two Decode calls answer is an
  argument, as are the answers of opening and closing the file.
\<close>

section \<open>time.ParseDuration\<close>

text \<open>\<open>uint64(float64(f) * (float64(unit) / scale))\<close>\<close>

definition frac_part :: "int \<Rightarrow> int \<Rightarrow> int \<Rightarrow> int" where
  "frac_part f unit scale =
     double_trunc (double_mult (double_of_int f) (double_div (double_of_int unit) (double_of_int scale)))"

text \<open>\<open>leadingInt\<close>: None is an overflow.\<close>

fun leading_int :: "int \<Rightarrow> string \<Rightarrow> (int \<times> string) option" where
  "leading_int x [] = Some (x, [])"
| "leading_int x (c # s) =
     (if \<not> is_digit c then Some (x, c # s)
      else if 2 ^ 63 div 10 < x then None
      else let x' = x * 10 + (byte_of c - 48) in if 2 ^ 63 < x' then None else leading_int x' s)"

text \<open>\<open>leadingFraction\<close>: further digits are dropped once the value would overflow.\<close>

fun leading_fraction :: "int \<Rightarrow> int \<Rightarrow> bool \<Rightarrow> string \<Rightarrow> int \<times> int \<times> string" where
  "leading_fraction x scale ovf [] = (x, scale, [])"
| "leading_fraction x scale ovf (c # s) =
     (if \<not> is_digit c then (x, scale, c # s)
      else if ovf \<or> (2 ^ 63 - 1) div 10 < x then leading_fraction x scale True s
      else let y = x * 10 + (byte_of c - 48)
           in if 2 ^ 63 < y then leading_fraction x scale True s
              else leading_fraction y (scale * 10) False s)"

text \<open>The two spellings of micro are U+00B5 and U+03BC in UTF-8.\<close>

definition unit_of :: "string \<Rightarrow> int option" where
  "unit_of u =
     (if u = ''ns'' then Some 1
      else if u = ''us'' \<or> u = [CHR 0xC2, CHR 0xB5, CHR ''s''] \<or> u = [CHR 0xCE, CHR 0xBC, CHR ''s''] then Some 1000
      else if u = ''ms'' then Some 1000000
      else if u = ''s'' then Some 1000000000
      else if u = ''m'' then Some 60000000000
      else if u = ''h'' then Some 3600000000000
      else None)"

definition number_char :: "char \<Rightarrow> bool" where
  "number_char c \<longleftrightarrow> c = CHR ''.'' \<or> is_digit c"

text \<open>One number with its unit: its nanoseconds (a uint64) and the rest.\<close>

definition duration_item :: "string \<Rightarrow> (int \<times> string) option" where
  "duration_item s =
     (if s = [] \<or> \<not> number_char (hd s) then None
      else case leading_int 0 s of None \<Rightarrow> None
      | Some (v, s1) \<Rightarrow>
          (let pre = (length s \<noteq> length s1);
               (f, scale, s2, post) =
                 (if s1 \<noteq> [] \<and> hd s1 = CHR ''.'' then
                    (case leading_fraction 0 1 False (tl s1) of
                       (f, scale, r) \<Rightarrow> (f, scale, r, length (tl s1) \<noteq> length r))
                  else (0, 1, s1, False));
               u = takeWhile (\<lambda>c. \<not> number_char c) s2
           in if \<not> pre \<and> \<not> post then None
              else case unit_of u of None \<Rightarrow> None
                | Some unit \<Rightarrow>
                    if 2 ^ 63 div unit < v then None
                    else let v = v * unit; v = (if 0 < f then v + frac_part f unit scale else v)
                         in if 2 ^ 63 < v then None else Some (v, drop (length u) s2)))"

lemma unit_of_pos: "unit_of u = Some unit \<Longrightarrow> 0 < unit \<and> u \<noteq> []"
  by (auto simp: unit_of_def split: if_splits)

lemma leading_int_length: "leading_int x s = Some (v, r) \<Longrightarrow> length r \<le> length s"
  by (induction x s rule: leading_int.induct) (auto simp: Let_def split: if_splits)

lemma leading_fraction_length: "leading_fraction x scale ovf s = (f, sc, r) \<Longrightarrow> length r \<le> length s"
  by (induction x scale ovf s rule: leading_fraction.induct) (auto simp: Let_def split: if_splits)

lemma duration_item_shorter:
  assumes "duration_item s = Some (v, r)"
  shows "length r < length s"
proof -
  obtain v1 s1 where 1: "leading_int 0 s = Some (v1, s1)"
    using assms by (auto simp: duration_item_def split: if_splits option.splits)
  obtain f sc r2 where 2: "leading_fraction 0 1 False (tl s1) = (f, sc, r2)"
    by (cases "leading_fraction 0 1 False (tl s1)")
  have l: "length s1 \<le> length s" "length r2 \<le> length (tl s1)"
    using leading_int_length [OF 1] leading_fraction_length [OF 2] by auto
  have s: "s \<noteq> []" using assms by (auto simp: duration_item_def split: if_splits)
  let ?s2 = "if s1 \<noteq> [] \<and> hd s1 = CHR ''.'' then r2 else s1"
  have "r = drop (length (takeWhile (\<lambda>c. \<not> number_char c) ?s2)) ?s2"
    and "\<exists>unit. unit_of (takeWhile (\<lambda>c. \<not> number_char c) ?s2) = Some unit"
    using assms 1 2 by (auto simp: duration_item_def Let_def split: if_splits option.splits)
  then have "length r < length ?s2"
    using unit_of_pos by (cases ?s2) (fastforce split: if_splits)+
  then show ?thesis using l by (auto split: if_splits)
qed

text \<open>The loop, with the uint64 sum.\<close>

function duration_loop :: "int \<Rightarrow> string \<Rightarrow> int option" where
  "duration_loop d s =
     (if s = [] then Some d
      else case duration_item s of None \<Rightarrow> None
        | Some (v, r) \<Rightarrow>
            let d' = (d + v) mod 2 ^ 64 in if 2 ^ 63 < d' then None else duration_loop d' r)"
  by pat_completeness auto
termination by (relation "measure (\<lambda>(d, s). length s)") (auto dest: duration_item_shorter)

declare duration_loop.simps [simp del]

definition ParseDuration :: "string \<Rightarrow> duration option" where
  "ParseDuration s0 =
     (let signed = (s0 \<noteq> [] \<and> (hd s0 = CHR ''-'' \<or> hd s0 = CHR ''+''));
          neg = (signed \<and> hd s0 = CHR ''-'');
          s = (if signed then tl s0 else s0)
      in if s = ''0'' then Some 0
         else if s = [] then None
         else case duration_loop 0 s of None \<Rightarrow> None
           | Some d \<Rightarrow> if neg then Some (- d) else if 2 ^ 63 - 1 < d then None else Some d)"

lemma ParseDuration_examples:
  "ParseDuration ''1h30m'' = Some 5400000000000"
  "ParseDuration ''-1.5ms'' = Some (-1500000)"
  "ParseDuration ''.3333h'' = Some 1199880000000"
  "ParseDuration ''1'' = None" "ParseDuration ''1d'' = None" "ParseDuration ''0'' = Some 0"
  by code_simp+

lemma duration_loop_range: "duration_loop d s = Some x \<Longrightarrow> 0 \<le> d \<Longrightarrow> d \<le> 2 ^ 63 \<Longrightarrow> 0 \<le> x \<and> x \<le> 2 ^ 63"
proof (induction d s rule: duration_loop.induct)
  case (1 d s)
  show ?case
  proof (cases "s = []")
    case True
    then show ?thesis using 1 by (simp add: duration_loop.simps)
  next
    case False
    then obtain v r where i: "duration_item s = Some (v, r)"
      using "1.prems"(1) by (auto simp: duration_loop.simps [of d s] split: option.splits)
    let ?d = "(d + v) mod 2 ^ 64"
    have d: "\<not> 2 ^ 63 < ?d" and l: "duration_loop ?d r = Some x"
      using "1.prems"(1) i False by (simp_all add: duration_loop.simps [of d s] Let_def split: if_splits)
    have "0 \<le> ?d" by (rule pos_mod_sign) simp
    then show ?thesis using "1.IH" [OF False i refl refl d l] d by simp
  qed
qed

text \<open>Every parsed duration is an int64.\<close>

lemma ParseDuration_range:
  assumes "ParseDuration s = Some d"
  shows "min64 \<le> d \<and> d \<le> max64"
proof (cases "d = 0")
  case False
  then obtain r x where x: "duration_loop 0 r = Some x" "d = - x \<or> d = x \<and> x \<le> 2 ^ 63 - 1"
    using assms by (auto simp: ParseDuration_def Let_def split: if_splits option.splits)
  from duration_loop_range [OF x(1)] x(2) show ?thesis by (auto simp: int64_defs)
qed (simp add: int64_defs)

section \<open>The code: data\<close>

definition MinInterval :: duration where "MinInterval = Millisecond"

record cfg_target =
  CtURL :: string
  CtLabels :: "string \<rightharpoonup> string"
  CtInterval :: duration

record rawTarget =
  RtURL :: string
  RtLabels :: "string \<rightharpoonup> string"
  RtInterval :: string

record rawConfig =
  RcSource :: string
  RcSink :: string
  RcFilePath :: string
  RcInterval :: string
  RcTimeout :: string
  RcConcurrency :: int
  RcTargets :: "rawTarget list"
  RcLabels :: "string \<rightharpoonup> string"

record app_config =
  AcSource :: string
  AcSink :: string
  AcFilePath :: string
  AcInterval :: duration
  AcTimeout :: duration
  AcConcurrency :: int
  AcTargets :: "cfg_target list"

text \<open>
  The answers of the outside: opening and closing the file, the Decode of the first document,
  and the error of the second Decode (\<open>io.EOF\<close> when there is no second document).
\<close>

record load_env =
  LeOpen :: "goerr option"
  LeDecode :: "goerr + rawConfig"
  LeExtra :: "goerr option"
  LeClose :: "goerr option"

definition io_EOF :: goerr where "io_EOF = Sentinel ''EOF''"

section \<open>The code: operations\<close>

definition ValidateSink :: "string \<Rightarrow> string \<Rightarrow> goerr option" where
  "ValidateSink sink filePath =
     (if sink \<noteq> ''stdout'' \<and> sink \<noteq> ''file'' then Some (Errorf ''sink %q must be %q or %q'' [])
      else if sink = ''file'' \<and> filePath = [] then Some (Errorf ''file_path is required when sink is %q'' [])
      else None)"

definition time_invalid_duration :: goerr where
  "time_invalid_duration = Sentinel ''time: invalid duration''"

text \<open>The top-level interval and timeout, zero when the field is empty.\<close>

definition load_interval :: "string \<Rightarrow> goerr + duration" where
  "load_interval s =
     (if s = [] then Inr 0
      else case ParseDuration s of None \<Rightarrow> Inl (Errorf ''parse interval %q: %w'' [time_invalid_duration])
      | Some d \<Rightarrow> if 0 < d \<and> d < MinInterval then Inl (Errorf ''interval %q is below the %v floor'' []) else Inr d)"

definition load_timeout :: "string \<Rightarrow> goerr + duration" where
  "load_timeout s =
     (if s = [] then Inr 0
      else case ParseDuration s of None \<Rightarrow> Inl (Errorf ''parse timeout %q: %w'' [time_invalid_duration])
      | Some d \<Rightarrow> Inr d)"

definition apply_defaults :: "app_config \<Rightarrow> app_config" where
  "apply_defaults cfg =
     (let cfg = (if AcInterval cfg \<le> 0 then cfg\<lparr>AcInterval := 30 * Second\<rparr> else cfg);
          cfg = (if AcTimeout cfg \<le> 0 then cfg\<lparr>AcTimeout := 10 * Second\<rparr> else cfg);
          cfg = (if AcConcurrency cfg \<le> 0 then cfg\<lparr>AcConcurrency := 4\<rparr> else cfg)
      in if AcSink cfg = [] then cfg\<lparr>AcSink := ''stdout''\<rparr> else cfg)"

text \<open>One target; the error names its index.\<close>

definition load_target :: "rawTarget \<Rightarrow> goerr + cfg_target" where
  "load_target rt =
     (if RtURL rt = [] then Inl (Errorf ''target %d: url is required'' [])
      else let t = \<lparr>CtURL = RtURL rt, CtLabels = RtLabels rt, CtInterval = 0\<rparr>
           in if RtInterval rt = [] then Inr t
              else case ParseDuration (RtInterval rt) of
                None \<Rightarrow> Inl (Errorf ''target %d: parse interval %q: %w'' [time_invalid_duration])
              | Some d \<Rightarrow>
                  if d < 0 then Inl (Errorf ''target %d: interval %q must not be negative'' [])
                  else if 0 < d \<and> d < MinInterval then Inl (Errorf ''target %d: interval %q is below the %v floor'' [])
                  else Inr (t\<lparr>CtInterval := d\<rparr>))"

text \<open>The loop stops at the first bad target.\<close>

fun load_targets :: "rawTarget list \<Rightarrow> goerr + cfg_target list" where
  "load_targets [] = Inr []"
| "load_targets (rt # rts) =
     (case load_target rt of Inl err \<Rightarrow> Inl err
      | Inr t \<Rightarrow> (case load_targets rts of Inl err \<Rightarrow> Inl err | Inr ts \<Rightarrow> Inr (t # ts)))"

text \<open>What \<open>Load\<close> makes of the decoded document.\<close>

definition load_raw :: "rawConfig \<Rightarrow> goerr + app_config" where
  "load_raw raw =
     (case load_interval (RcInterval raw) of Inl err \<Rightarrow> Inl err
      | Inr iv \<Rightarrow>
        (case load_timeout (RcTimeout raw) of Inl err \<Rightarrow> Inl err
         | Inr timeout \<Rightarrow>
           (let cfg = apply_defaults
                  \<lparr>AcSource = RcSource raw, AcSink = RcSink raw, AcFilePath = RcFilePath raw,
                   AcInterval = iv, AcTimeout = timeout, AcConcurrency = RcConcurrency raw, AcTargets = []\<rparr>
            in if AcSource cfg = [] then Inl (Errorf ''source is required'' [])
               else case ValidateSink (AcSink cfg) (AcFilePath cfg) of Some err \<Rightarrow> Inl err
               | None \<Rightarrow>
                   if RcTargets raw = [] then Inl (Errorf ''at least one target is required'' [])
                   else case load_targets (RcTargets raw) of Inl err \<Rightarrow> Inl err
                     | Inr ts \<Rightarrow> Inr (cfg\<lparr>AcTargets := ts\<rparr>))))"

text \<open>
  \<open>Load\<close>. The deferred Close turns a nil error into its own; the config returned beside an
  error is left out.
\<close>

definition Load :: "load_env \<Rightarrow> goerr + app_config" where
  "Load env =
     (case LeOpen env of Some err \<Rightarrow> Inl (Errorf ''open config: %w'' [err])
      | None \<Rightarrow>
        (let res =
           (case LeDecode env of Inl err \<Rightarrow> Inl (Errorf ''decode config: %w'' [err])
            | Inr raw \<Rightarrow>
              (case LeExtra env of
                 None \<Rightarrow> Inl (Sentinel ''decode config: multiple YAML documents; expected exactly one'')
               | Some err \<Rightarrow>
                   if \<not> errors_is err io_EOF then Inl (Errorf ''decode config: %w'' [err])
                   else load_raw raw))
         in case (res, LeClose env) of
              (Inr _, Some cerr) \<Rightarrow> Inl (Errorf ''close config: %w'' [cerr])
            | _ \<Rightarrow> res))"

section \<open>Loading\<close>

lemma ValidateSink_None:
  "ValidateSink sink path = None \<longleftrightarrow> sink = ''stdout'' \<or> sink = ''file'' \<and> path \<noteq> []"
  by (auto simp: ValidateSink_def)

text \<open>A duration field of the document: zero when empty.\<close>

definition field_duration :: "string \<Rightarrow> duration option" where
  "field_duration s = (if s = [] then Some 0 else ParseDuration s)"

lemma field_duration_range: "field_duration s = Some d \<Longrightarrow> min64 \<le> d \<and> d \<le> max64"
  using ParseDuration_range [of s d] by (auto simp: field_duration_def int64_defs split: if_splits)

text \<open>The documents that are accepted, and the config they give.\<close>

definition target_ok :: "rawTarget \<Rightarrow> bool" where
  "target_ok rt \<longleftrightarrow> RtURL rt \<noteq> [] \<and>
     (case field_duration (RtInterval rt) of None \<Rightarrow> False | Some d \<Rightarrow> d = 0 \<or> MinInterval \<le> d)"

definition raw_ok :: "rawConfig \<Rightarrow> bool" where
  "raw_ok raw \<longleftrightarrow>
     (case field_duration (RcInterval raw) of None \<Rightarrow> False | Some d \<Rightarrow> d \<le> 0 \<or> MinInterval \<le> d) \<and>
     field_duration (RcTimeout raw) \<noteq> None \<and> RcSource raw \<noteq> [] \<and>
     (RcSink raw \<in> {[], ''stdout''} \<or> RcSink raw = ''file'' \<and> RcFilePath raw \<noteq> []) \<and>
     RcTargets raw \<noteq> [] \<and> list_all target_ok (RcTargets raw)"

definition or_default :: "int \<Rightarrow> int \<Rightarrow> int" where
  "or_default x d = (if x \<le> 0 then d else x)"

definition target_of :: "rawTarget \<Rightarrow> cfg_target" where
  "target_of rt = \<lparr>CtURL = RtURL rt, CtLabels = RtLabels rt, CtInterval = the (field_duration (RtInterval rt))\<rparr>"

definition config_of :: "rawConfig \<Rightarrow> app_config" where
  "config_of raw =
     \<lparr>AcSource = RcSource raw, AcSink = (if RcSink raw = [] then ''stdout'' else RcSink raw),
      AcFilePath = RcFilePath raw,
      AcInterval = or_default (the (field_duration (RcInterval raw))) (30 * Second),
      AcTimeout = or_default (the (field_duration (RcTimeout raw))) (10 * Second),
      AcConcurrency = or_default (RcConcurrency raw) 4,
      AcTargets = map target_of (RcTargets raw)\<rparr>"

lemma load_target_eq:
  "load_target rt = Inr t \<longleftrightarrow> target_ok rt \<and> t = target_of rt"
  by (auto simp: load_target_def target_ok_def target_of_def field_duration_def MinInterval_def Millisecond_def
      split: option.splits)

lemma load_targets_eq:
  "load_targets rts = Inr ts \<longleftrightarrow> list_all target_ok rts \<and> ts = map target_of rts"
proof (induction rts arbitrary: ts)
  case (Cons rt rts)
  have "load_targets (rt # rts) = Inr ts \<longleftrightarrow>
      (\<exists>t ts'. load_target rt = Inr t \<and> load_targets rts = Inr ts' \<and> ts = t # ts')"
    by (auto split: sum.splits)
  then show ?case by (auto simp: load_target_eq Cons.IH)
qed auto

lemma load_interval_eq:
  "load_interval s = Inr d \<longleftrightarrow> field_duration s = Some d \<and> (d \<le> 0 \<or> MinInterval \<le> d)"
  by (auto simp: load_interval_def field_duration_def split: option.splits)

lemma load_timeout_eq: "load_timeout s = Inr d \<longleftrightarrow> field_duration s = Some d"
  by (auto simp: load_timeout_def field_duration_def split: option.splits)

lemma apply_defaults_eq:
  "apply_defaults \<lparr>AcSource = src, AcSink = sink, AcFilePath = path, AcInterval = iv, AcTimeout = to,
     AcConcurrency = c, AcTargets = ts\<rparr> =
   \<lparr>AcSource = src, AcSink = (if sink = [] then ''stdout'' else sink), AcFilePath = path,
    AcInterval = or_default iv (30 * Second), AcTimeout = or_default to (10 * Second),
    AcConcurrency = or_default c 4, AcTargets = ts\<rparr>"
  by (simp add: apply_defaults_def or_default_def Let_def)

lemma load_raw_eq: "load_raw raw = Inr cfg \<longleftrightarrow> raw_ok raw \<and> cfg = config_of raw"
proof (cases "load_interval (RcInterval raw)")
  case (Inl err)
  then have "\<not> raw_ok raw"
    using load_interval_eq [of "RcInterval raw"] by (auto simp: raw_ok_def split: option.splits)
  then show ?thesis using Inl by (simp add: load_raw_def)
next
  case iv: (Inr iv)
  show ?thesis
  proof (cases "load_timeout (RcTimeout raw)")
    case (Inl err)
    then have "\<not> raw_ok raw"
      using load_timeout_eq [of "RcTimeout raw"] by (auto simp: raw_ok_def)
    then show ?thesis using Inl iv by (simp add: load_raw_def)
  next
    case (Inr to)
    let ?sink = "if RcSink raw = [] then ''stdout'' else RcSink raw"
    have f: "field_duration (RcInterval raw) = Some iv" "iv \<le> 0 \<or> MinInterval \<le> iv"
      "field_duration (RcTimeout raw) = Some to"
      using iv Inr load_interval_eq load_timeout_eq by auto
    have v: "(ValidateSink ?sink (RcFilePath raw) = None) =
        (RcSink raw \<in> {[], ''stdout''} \<or> RcSink raw = ''file'' \<and> RcFilePath raw \<noteq> [])"
      by (auto simp: ValidateSink_None)
    show ?thesis
    proof (cases "RcSource raw \<noteq> [] \<and> ValidateSink ?sink (RcFilePath raw) = None \<and> RcTargets raw \<noteq> []")
      case True
      then have "load_raw raw = Inr cfg \<longleftrightarrow>
          list_all target_ok (RcTargets raw) \<and> cfg = config_of raw"
        using iv Inr f load_targets_eq [of "RcTargets raw"]
        by (cases "load_targets (RcTargets raw)")
           (auto simp: load_raw_def apply_defaults_eq config_of_def Let_def)
      then show ?thesis using True f v by (auto simp: raw_ok_def)
    next
      case False
      then have "\<not> raw_ok raw" using v by (auto simp: raw_ok_def)
      moreover have "load_raw raw \<noteq> Inr cfg"
        using False iv Inr by (auto simp: load_raw_def apply_defaults_eq Let_def split: option.splits)
      ultimately show ?thesis by simp
    qed
  qed
qed

lemma Load_eq:
  "Load env = Inr cfg \<longleftrightarrow>
     LeOpen env = None \<and> LeClose env = None \<and>
     (\<exists>err. LeExtra env = Some err \<and> errors_is err io_EOF) \<and>
     (\<exists>raw. LeDecode env = Inr raw \<and> raw_ok raw \<and> cfg = config_of raw)"
  using load_raw_eq by (cases env) (auto simp: Load_def Let_def split: option.splits sum.splits)

section \<open>Validated configs\<close>

definition wf_target :: "cfg_target \<Rightarrow> bool" where
  "wf_target t \<longleftrightarrow> CtURL t \<noteq> [] \<and> (CtInterval t = 0 \<or> MinInterval \<le> CtInterval t \<and> CtInterval t \<le> max64)"

definition wf_config :: "app_config \<Rightarrow> bool" where
  "wf_config cfg \<longleftrightarrow>
     AcSource cfg \<noteq> [] \<and> (AcSink cfg = ''stdout'' \<or> AcSink cfg = ''file'' \<and> AcFilePath cfg \<noteq> []) \<and>
     MinInterval \<le> AcInterval cfg \<and> AcInterval cfg \<le> max64 \<and>
     0 < AcTimeout cfg \<and> AcTimeout cfg \<le> max64 \<and> 0 < AcConcurrency cfg \<and>
     AcTargets cfg \<noteq> [] \<and> list_all wf_target (AcTargets cfg)"

lemma config_of_wf:
  assumes "raw_ok raw"
  shows "wf_config (config_of raw)"
proof -
  have t: "wf_target (target_of rt)" if "target_ok rt" for rt
    using that field_duration_range [of "RtInterval rt"]
    by (auto simp: target_ok_def wf_target_def target_of_def split: option.splits)
  have b: "MinInterval \<le> 30 * Second" "30 * Second \<le> max64" "0 < 10 * Second" "10 * Second \<le> max64"
    by (simp_all add: MinInterval_def Millisecond_def Second_def max64_def)
  show ?thesis
    using assms t b field_duration_range [of "RcInterval raw"] field_duration_range [of "RcTimeout raw"]
    by (auto simp: raw_ok_def wf_config_def config_of_def or_default_def list_all_iff split: option.splits)
qed

text \<open>
  C23: A config that Load returns is well-formed: a source, a sink that is stdout or file with a
  path, a default interval of at least 1ms, a positive timeout and concurrency, at least one
  target, every target with a URL and an interval that is zero or at least 1ms; every duration
  is an int64.
\<close>

theorem Load_well_formed:
  assumes "Load env = Inr cfg"
  shows "wf_config cfg"
  using assms config_of_wf by (auto simp: Load_eq)

text \<open>
  Load succeeds exactly when the file opens and closes, holds one document that decodes, and
  the document is acceptable; the config is then the document with its durations parsed, the
  defaults in place of missing or non-positive values, and the targets in order.
\<close>

theorem Load_result:
  "Load env = Inr cfg \<longleftrightarrow>
     LeOpen env = None \<and> LeClose env = None \<and>
     (\<exists>err. LeExtra env = Some err \<and> errors_is err io_EOF) \<and>
     (\<exists>raw. LeDecode env = Inr raw \<and> raw_ok raw \<and> cfg = config_of raw)"
  by (rule Load_eq)

definition demo_raw :: rawConfig where
  "demo_raw = \<lparr>RcSource = ''descry'', RcSink = [], RcFilePath = [], RcInterval = ''1m'', RcTimeout = [],
     RcConcurrency = 0, RcTargets = [\<lparr>RtURL = ''https://x/'', RtLabels = Map.empty, RtInterval = ''1ms''\<rparr>],
     RcLabels = Map.empty\<rparr>"

definition demo_load :: load_env where
  "demo_load = \<lparr>LeOpen = None, LeDecode = Inr demo_raw, LeExtra = Some io_EOF, LeClose = None\<rparr>"

lemma demo_durations:
  "field_duration ''1m'' = Some 60000000000" "field_duration ''1ms'' = Some 1000000" "field_duration [] = Some 0"
  by code_simp+

lemma demo_raw_ok: "raw_ok demo_raw"
  by (simp add: raw_ok_def demo_raw_def demo_durations target_ok_def MinInterval_def Millisecond_def)

theorem Load_well_formed_witness:
  "\<exists>cfg. Load demo_load = Inr cfg \<and> wf_config cfg \<and> AcInterval cfg = 60 * Second \<and> AcConcurrency cfg = 4"
proof -
  have l: "Load demo_load = Inr (config_of demo_raw)" using demo_raw_ok by (auto simp: Load_eq demo_load_def)
  then show ?thesis
    using Load_well_formed [OF l]
    by (auto simp: config_of_def demo_raw_def demo_durations or_default_def Second_def)
qed

end
