(* ===== verification/Ssrf.thy ===== *)
theory Ssrf
  imports Check
begin

text \<open>
  checks/http/ssrf.go: the address classification \<open>isBlockedIP\<close>, the parse-time guard
  \<open>assertSafeURL\<close> (layer 1) and the dial-time guard \<open>controlContext\<close> (layer 2), over the
  models of net/url and net/netip. \<open>newSafeTransport\<close>, which installs layer 2, is in theory
  Transport.
\<close>

section \<open>The code\<close>

definition ErrSSRFBlocked :: goerr where "ErrSSRFBlocked = Sentinel ''ssrf blocked''"

definition allowedSchemes :: "string list" where "allowedSchemes = [''http'', ''https'']"
definition allowedPorts :: "string list" where "allowedPorts = [[], ''80'', ''443'']"

definition extraBlocked :: "prefix4 list" where
  "extraBlocked =
     [Prefix4 (v4_of 0 0 0 0) 8, Prefix4 (v4_of 100 64 0 0) 10, Prefix4 (v4_of 192 0 0 0) 24,
      Prefix4 (v4_of 192 0 2 0) 24, Prefix4 (v4_of 198 18 0 0) 15, Prefix4 (v4_of 198 51 100 0) 24,
      Prefix4 (v4_of 203 0 113 0) 24, Prefix4 (v4_of 240 0 0 0) 4]"

definition isBlockedIP :: "addr \<Rightarrow> bool" where
  "isBlockedIP ip =
     (let ip = unmap ip
      in if is_loopback ip \<or> is_private ip \<or> is_link_local_unicast ip \<or> is_link_local_multicast ip \<or>
            is_unspecified ip \<or> is_multicast ip
         then True
         else list_ex (\<lambda>p. prefix_contains p ip) extraBlocked)"

definition blocked :: "string \<Rightarrow> goerr" where
  "blocked msg = Errorf msg [ErrSSRFBlocked]"

text \<open>None is a nil error.\<close>

definition assertSafeURL :: "string \<Rightarrow> goerr option" where
  "assertSafeURL raw =
     (case url_Parse raw of None \<Rightarrow> Some (blocked ''%w: not parseable'')
      | Some u \<Rightarrow>
          if Scheme u \<notin> set allowedSchemes then Some (blocked ''%w: scheme %q not allowed'')
          else if Port u \<notin> set allowedPorts then Some (blocked ''%w: port %q not allowed'')
          else let host = to_lower (Hostname u)
               in if host = ''localhost'' \<or> has_suffix ''.localhost'' host \<or> host = ''0.0.0.0''
                  then Some (blocked ''%w: host %q is reserved'')
                  else (case ParseAddr host of
                          Some ip \<Rightarrow> (if isBlockedIP ip then Some (blocked ''%w: host %q is private or reserved'') else None)
                        | None \<Rightarrow> None))"

definition controlContext :: "string \<Rightarrow> goerr option" where
  "controlContext address =
     (case ParseAddrPort address of None \<Rightarrow> Some (blocked ''%w: unparseable dial address %q'')
      | Some (ip, port) \<Rightarrow>
          if isBlockedIP ip then Some (blocked ''%w: resolved to blocked address %s'') else None)"

section \<open>Address ranges\<close>

lemma div_eq_range:
  assumes "0 < (d :: int)"
  shows "x div d = q \<longleftrightarrow> q * d \<le> x \<and> x < (q + 1) * d"
proof
  assume q: "x div d = q"
  have "x = x div d * d + x mod d" by simp
  moreover have "0 \<le> x mod d" "x mod d < d" using assms by simp_all
  ultimately show "q * d \<le> x \<and> x < (q + 1) * d" unfolding q by (simp add: distrib_right)
next
  assume "q * d \<le> x \<and> x < (q + 1) * d"
  then show "x div d = q" by (intro int_div_pos_eq [of x d q "x - q * d"]) (auto simp: algebra_simps)
qed

definition in_range :: "int \<Rightarrow> int \<Rightarrow> int \<Rightarrow> bool" where
  "in_range lo hi x \<longleftrightarrow> lo \<le> x \<and> x < hi"

text \<open>A comparison of high bits is a range of addresses.\<close>

lemma drop_bit_range:
  "drop_bit n (w :: 'a::len word) = c \<longleftrightarrow> in_range (uint c * 2 ^ n) ((uint c + 1) * 2 ^ n) (uint w)"
proof -
  have "drop_bit n w = c \<longleftrightarrow> uint w div 2 ^ n = uint c"
    by (simp add: word_uint_eq_iff unsigned_drop_bit_eq drop_bit_eq_div [where 'a = int] take_bit_int_eq_self)
  then show ?thesis by (simp add: div_eq_range in_range_def)
qed

text \<open>The blocked IPv4 ranges, each from its first address to one past its last.\<close>

definition v4_ranges :: "(int \<times> int) list" where
  "v4_ranges =
     [(0, 2 ^ 24),
      (10 * 2 ^ 24, 11 * 2 ^ 24),
      (100 * 2 ^ 24 + 64 * 2 ^ 16, 100 * 2 ^ 24 + 128 * 2 ^ 16),
      (127 * 2 ^ 24, 128 * 2 ^ 24),
      (169 * 2 ^ 24 + 254 * 2 ^ 16, 169 * 2 ^ 24 + 255 * 2 ^ 16),
      (172 * 2 ^ 24 + 16 * 2 ^ 16, 172 * 2 ^ 24 + 32 * 2 ^ 16),
      (192 * 2 ^ 24, 192 * 2 ^ 24 + 2 ^ 8),
      (192 * 2 ^ 24 + 2 * 2 ^ 8, 192 * 2 ^ 24 + 3 * 2 ^ 8),
      (192 * 2 ^ 24 + 168 * 2 ^ 16, 192 * 2 ^ 24 + 169 * 2 ^ 16),
      (198 * 2 ^ 24 + 18 * 2 ^ 16, 198 * 2 ^ 24 + 20 * 2 ^ 16),
      (198 * 2 ^ 24 + 51 * 2 ^ 16 + 100 * 2 ^ 8, 198 * 2 ^ 24 + 51 * 2 ^ 16 + 101 * 2 ^ 8),
      (203 * 2 ^ 24 + 113 * 2 ^ 8, 203 * 2 ^ 24 + 114 * 2 ^ 8),
      (224 * 2 ^ 24, 2 ^ 32)]"

definition v4_blocked :: "int \<Rightarrow> bool" where
  "v4_blocked x \<longleftrightarrow> list_ex (\<lambda>(lo, hi). in_range lo hi x) v4_ranges"

lemma isBlockedIP_v4: "isBlockedIP (V4 w) \<longleftrightarrow> v4_blocked (uint w)"
proof -
  have z: "w = 0 \<longleftrightarrow> uint w = 0" by (simp add: word_uint_eq_iff)
  have hi: "in_range 3758096384 4294967296 (uint w) \<longleftrightarrow>
      in_range 3758096384 4026531840 (uint w) \<or> in_range 4026531840 4294967296 (uint w)"
    and sub: "in_range 3758096384 3758096640 (uint w) \<longrightarrow> in_range 3758096384 4026531840 (uint w)"
      "in_range 0 16777216 0"
    by (auto simp: in_range_def)
  show ?thesis
    apply (simp add: isBlockedIP_def extraBlocked_def is_unspecified_def drop_bit_range v4_of_def
        v4_blocked_def v4_ranges_def unsigned_drop_bit_eq drop_bit_eq_div [where 'a = int] z hi)
    using sub by blast
qed

text \<open>
  The blocked IPv6 ranges: loopback, unique local (fc00::/7), link-local (fe80::/10) and
  multicast (ff00::/8); and the unspecified address, when it has no zone.
\<close>

definition v6_blocked :: "int \<Rightarrow> string \<Rightarrow> bool" where
  "v6_blocked x zone \<longleftrightarrow>
     x = 0 \<and> zone = [] \<or> x = 1 \<or> in_range (0xfc * 2 ^ 120) (0xfe * 2 ^ 120) x \<or>
     in_range (0xfe80 * 2 ^ 112) (0xfec0 * 2 ^ 112) x \<or> in_range (0xff * 2 ^ 120) (2 ^ 128) x"

definition v4_mapped :: "int \<Rightarrow> bool" where
  "v4_mapped x \<longleftrightarrow> in_range (0xffff * 2 ^ 32) (0x10000 * 2 ^ 32) x"

lemma isBlockedIP_v6:
  "isBlockedIP (V6 w zone) \<longleftrightarrow>
     (if v4_mapped (uint w) then v4_blocked (uint w mod 2 ^ 32) else v6_blocked (uint w) zone)"
proof -
  have m: "drop_bit 32 w = 0xffff \<longleftrightarrow> v4_mapped (uint w)"
    by (simp add: drop_bit_range v4_mapped_def)
  have c: "uint (ucast w :: 32 word) = uint w mod 2 ^ 32"
    by (simp add: unsigned_ucast_eq take_bit_eq_mod)
  show ?thesis
  proof (cases "drop_bit 32 w = 0xffff")
    case True
    have "isBlockedIP (V6 w zone) = isBlockedIP (V4 (ucast w))"
      using True by (simp add: isBlockedIP_def)
    then show ?thesis using True m c by (simp only: isBlockedIP_v4 if_True)
  next
    case False
    have z: "w = 0 \<longleftrightarrow> uint w = 0" "w = 1 \<longleftrightarrow> uint w = 1"
      by (simp_all add: word_uint_eq_iff)
    show ?thesis
      using False m
      by (auto simp: isBlockedIP_def extraBlocked_def is_unspecified_def drop_bit_range v6_blocked_def z)
  qed
qed

text \<open>
  C29: \<open>isBlockedIP\<close> is membership in an explicit table of ranges: the thirteen IPv4
  ranges of \<open>v4_ranges\<close> for an IPv4 address and, by its low 32 bits, for an
  IPv4-mapped IPv6 address whatever its zone; for any other IPv6 address loopback, fc00::/7,
  fe80::/10, ff00::/8, and the unspecified address when it has no zone.
\<close>

theorem isBlockedIP_ranges:
  "isBlockedIP ip =
     (case ip of V4 w \<Rightarrow> v4_blocked (uint w)
      | V6 w zone \<Rightarrow> if v4_mapped (uint w) then v4_blocked (uint w mod 2 ^ 32) else v6_blocked (uint w) zone)"
  by (cases ip) (simp_all add: isBlockedIP_v4 isBlockedIP_v6)

section \<open>The two layers\<close>

text \<open>\<open>net.JoinHostPort\<close>: the form of the addresses the dialer passes to layer 2.\<close>

definition JoinHostPort :: "string \<Rightarrow> string \<Rightarrow> string" where
  "JoinHostPort host port =
     (if CHR '':'' \<in> set host then ''['' @ host @ '']:'' @ port else host @ '':'' @ port)"

lemma octet_loop_digits: "octet_loop v n s = Some x \<Longrightarrow> list_all is_digit s"
  by (induction v n s rule: octet_loop.induct) (auto simp: Let_def split: if_splits)

lemma is_digit_punct [simp]: "\<not> is_digit CHR '':''" "\<not> is_digit CHR ''[''"
  by (simp_all add: is_digit_def byte_of_def)

lemma set_split_on: "x \<in> set s \<Longrightarrow> x \<noteq> c \<Longrightarrow> x \<in> \<Union> (set ` set (split_on c s))"
proof (induction s)
  case (Cons y s)
  then show ?case by (cases "split_on c s") auto
qed simp

lemma parse_ipv4_chars:
  assumes "parse_ipv4 s = Some ip" "x \<in> set s"
  shows "x = CHR ''.'' \<or> is_digit x"
proof (rule ccontr)
  assume x: "\<not> ?thesis"
  then obtain w where w: "w \<in> set (split_on CHR ''.'' s)" "x \<in> set w"
    using set_split_on assms(2) by blast
  have "parse_octet w = None"
    using octet_loop_digits [of 0 0 w] w(2) x by (cases "parse_octet w") (auto simp: parse_octet_def list_all_iff)
  then have "None \<in> set (map parse_octet (split_on CHR ''.'' s))" using w(1) by force
  then have "parse_ipv4_fields s = None"
    by (auto simp: parse_ipv4_fields_def split: list.splits option.splits)
  with assms(1) show False by (simp add: parse_ipv4_def)
qed

lemma parse_ipv4_V4: "parse_ipv4 s = Some ip \<Longrightarrow> \<exists>w. ip = V4 w"
  by (auto simp: parse_ipv4_def split: option.splits)

lemma ipv6_finish_V6: "ipv6_finish z r = Some ip \<Longrightarrow> \<exists>w zone. ip = V6 w zone"
  by (auto simp: ipv6_finish_def split: prod.splits option.splits if_splits)

lemma parse_ipv6_V6: "parse_ipv6 s = Some ip \<Longrightarrow> \<exists>w zone. ip = V6 w zone"
  using ipv6_finish_V6 by (auto simp: parse_ipv6_def Let_def bind_eq_Some_conv split: if_splits)

lemma parse_addr_scan_kind:
  assumes "parse_addr_scan str s = Some ip" "set s \<subseteq> set str"
  shows "case ip of V4 w \<Rightarrow> parse_ipv4 str = Some ip | V6 w z \<Rightarrow> CHR '':'' \<in> set str"
  using assms
proof (induction str s rule: parse_addr_scan.induct)
  case (2 str c s)
  then show ?case
    using parse_ipv4_V4 [of str ip] parse_ipv6_V6 [of str ip]
    by (auto split: if_splits)
qed simp

lemma ParseAddrPort_join:
  assumes ip: "ParseAddr host = Some ip" and p: "parse_uint16 port = Some n"
  shows "ParseAddrPort (JoinHostPort host port) = Some (ip, n)"
proof -
  have pc: "CHR '':'' \<notin> set port" "port \<noteq> []"
    using p by (auto simp: parse_uint16_def list_all_iff split: if_splits)
  have h: "host \<noteq> []" using ip by (auto simp: ParseAddr_def)
  have k: "case ip of V4 w \<Rightarrow> parse_ipv4 host = Some ip | V6 w z \<Rightarrow> CHR '':'' \<in> set host"
    using parse_addr_scan_kind [of host host ip] ip by (simp add: ParseAddr_def)
  show ?thesis
  proof (cases ip)
    case (V4 w)
    have "hd host \<noteq> CHR ''[''" "CHR '':'' \<notin> set host"
      using V4 k parse_ipv4_chars [of host ip "hd host"] parse_ipv4_chars [of host ip "CHR '':''"] h by auto
    then show ?thesis using V4 k pc h ip p by (simp add: JoinHostPort_def ParseAddrPort_def Let_def)
  next
    case (V6 w z)
    have bl: "before_last CHR '':'' (''['' @ host @ '']:'' @ port) = ''['' @ host @ '']''"
      and al: "after_last CHR '':'' (''['' @ host @ '']:'' @ port) = port"
      using pc before_last_append [of "CHR '':''" port "''['' @ host @ '']''"]
        after_last_append [of "CHR '':''" port "''['' @ host @ '']''"] by simp_all
    show ?thesis using V6 k pc h ip p bl al
      by (simp add: JoinHostPort_def ParseAddrPort_def Let_def butlast_append)
  qed
qed

lemma controlContext_join:
  assumes "ParseAddr host = Some ip" "parse_uint16 port = Some n"
  shows "controlContext (JoinHostPort host port) = None \<longleftrightarrow> \<not> isBlockedIP ip"
  using ParseAddrPort_join [OF assms] by (simp add: controlContext_def)

lemma assertSafeURL_None_iff:
  "assertSafeURL raw = None \<longleftrightarrow>
     (\<exists>u. url_Parse raw = Some u \<and> Scheme u \<in> {''http'', ''https''} \<and> Port u \<in> {[], ''80'', ''443''} \<and>
        (let host = to_lower (Hostname u)
         in host \<noteq> ''localhost'' \<and> \<not> has_suffix ''.localhost'' host \<and> host \<noteq> ''0.0.0.0'' \<and>
            (case ParseAddr host of Some ip \<Rightarrow> \<not> isBlockedIP ip | None \<Rightarrow> True)))"
  by (auto simp: assertSafeURL_def allowedSchemes_def allowedPorts_def Let_def split: option.splits)

text \<open>
  The two layers agree. A URL passes the parse-time guard exactly when its scheme and port
  are allowed, its host is not a reserved name, and, where the host is a literal address, the
  dial-time guard lets a connection to that address through on any port.
\<close>

theorem guard_layers_agree:
  assumes "url_Parse raw = Some u" and "parse_uint16 port = Some n"
  defines "host \<equiv> to_lower (Hostname u)"
  shows "assertSafeURL raw = None \<longleftrightarrow>
     Scheme u \<in> {''http'', ''https''} \<and> Port u \<in> {[], ''80'', ''443''} \<and>
     host \<noteq> ''localhost'' \<and> \<not> has_suffix ''.localhost'' host \<and> host \<noteq> ''0.0.0.0'' \<and>
     (ParseAddr host = None \<or> controlContext (JoinHostPort host port) = None)"
proof (cases "ParseAddr host")
  case None
  then show ?thesis using assms by (simp add: assertSafeURL_None_iff Let_def)
next
  case (Some ip)
  then show ?thesis using assms controlContext_join [OF Some assms(2)]
    by (simp add: assertSafeURL_None_iff Let_def)
qed

text \<open>The guard on concrete URLs: a public address passes, an IPv4-mapped private one does not.\<close>

lemma assertSafeURL_examples:
  "assertSafeURL ''http://8.8.8.8/'' = None"
  "assertSafeURL ''http://[::ffff:10.0.0.1]/'' = Some (blocked ''%w: host %q is private or reserved'')"
  "assertSafeURL ''http://[::%25eth0]/'' = None"
  by code_simp+

theorem guard_layers_agree_witness:
  "\<exists>u. url_Parse ''http://[::ffff:10.0.0.1]/'' = Some u \<and>
     controlContext (JoinHostPort (to_lower (Hostname u)) ''443'') \<noteq> None"
proof -
  have p: "parse_uint16 ''443'' = Some 443" by code_simp
  have m: "(case url_Parse ''http://[::ffff:10.0.0.1]/'' of None \<Rightarrow> False
     | Some u \<Rightarrow> Scheme u = ''http'' \<and> Port u = [] \<and> to_lower (Hostname u) = ''::ffff:10.0.0.1'')" by code_simp
  then obtain u where u: "url_Parse ''http://[::ffff:10.0.0.1]/'' = Some u" "Scheme u = ''http''" "Port u = []"
    "to_lower (Hostname u) = ''::ffff:10.0.0.1''" by (auto split: option.splits)
  have "\<not> has_suffix ''.localhost'' ''::ffff:10.0.0.1''" by code_simp
  then show ?thesis
    using guard_layers_agree [OF u(1) p] u assertSafeURL_examples(2) by simp
qed

text \<open>
  Every error of either guard wraps ErrSSRFBlocked, so the caller classifies it as a
  blocked target.
\<close>

theorem guard_errors_wrap:
  assumes "assertSafeURL raw = Some e \<or> controlContext address = Some e"
  shows "errors_is e ErrSSRFBlocked"
  using assms by (auto simp: assertSafeURL_def controlContext_def blocked_def Let_def split: option.splits if_splits)

theorem guard_errors_wrap_witness:
  "\<exists>e. controlContext ''[fe80::1]:80'' = Some e \<and> errors_is e ErrSSRFBlocked"
proof -
  have "controlContext ''[fe80::1]:80'' = Some (blocked ''%w: resolved to blocked address %s'')" by code_simp
  then show ?thesis using guard_errors_wrap [of undefined] by blast
qed

text \<open>
  C37: The unspecified IPv6 address is blocked by both layers, but not with a zone:
  \<open>Addr.IsUnspecified\<close> compares with the zone-less constant, and no range covers it, so
  \<open>[::%eth0]\<close> passes the parse-time guard and the dial-time guard.
\<close>

theorem unspecified_zone_passes:
  "assertSafeURL ''http://[::]/'' \<noteq> None \<and> controlContext ''[::]:80'' \<noteq> None \<and>
   assertSafeURL ''http://[::%25eth0]/'' = None \<and> controlContext ''[::%eth0]:80'' = None"
proof -
  have "assertSafeURL ''http://[::]/'' \<noteq> None" "controlContext ''[::]:80'' \<noteq> None"
    "controlContext ''[::%eth0]:80'' = None" by code_simp+
  then show ?thesis using assertSafeURL_examples(3) by simp
qed

end
