(* ===== verification/Cli.thy ===== *)
theory Cli
  imports RunnerModel Metrics Config Ssrf
begin

text \<open>
  cmd/descry/main.go: what the command does around the engine. The drain of Results(), the
  targets and their subjects, the label collision check, the exit code; \<open>run\<close> itself is in
  theory CliRun.
\<close>

section \<open>Exit code\<close>

definition exitCodeFor :: "goerr option \<Rightarrow> int" where
  "exitCodeFor runErr =
     (case runErr of None \<Rightarrow> 0 | Some err \<Rightarrow> if errors_is err context_Canceled then 0 else 1)"

section \<open>The drain\<close>

text \<open>
  The lines printed: a failure with its error, a skip with its reason and, where it is printed, the
  suppressed count. The failures are an \<open>atomic.Int64\<close> and the suppressed count an \<open>int\<close>:
  both wrap around at 64 bits.
\<close>

datatype drain_line =
    LineFailed string goerr
  | LineSkipped string string "int option"

record skipState =
  sk_last :: time
  sk_suppressed :: int

record drain =
  dr_skips :: "string \<rightharpoonup> skipState"
  dr_failures :: int
  dr_observed :: "skipKind list"
  dr_lines :: "drain_line list"

definition new_drain :: drain where
  "new_drain = \<lparr>dr_skips = Map.empty, dr_failures = 0, dr_observed = [], dr_lines = []\<rparr>"

definition reason_queued :: string where "reason_queued = ''prior run still queued (pool too small)''"
definition reason_running :: string where "reason_running = ''prior run still running (slow check)''"

text \<open>The switch: a skip with its reason and kind, a failure, or nothing to report.\<close>

datatype drain_case = CaseSkip string skipKind | CaseFailed goerr | CaseNone

definition drain_switch :: "result \<Rightarrow> drain_case" where
  "drain_switch res =
     (case ResErr res of None \<Rightarrow> CaseNone
      | Some err \<Rightarrow>
          if errors_is err ErrSkippedQueued then CaseSkip reason_queued SkipQueued
          else if errors_is err ErrSkipped then CaseSkip reason_running SkipInFlight
          else CaseFailed err)"

text \<open>
  A skip: it is passed on where \<open>observeSkip\<close> is not nil (\<open>obs\<close>), and it gets at most one
  line per target and window; \<open>t\<close> is the clock's reading.
\<close>

definition drain_skip :: "bool \<Rightarrow> duration \<Rightarrow> time \<Rightarrow> result \<Rightarrow> string \<Rightarrow> skipKind \<Rightarrow> drain \<Rightarrow> drain" where
  "drain_skip obs iv t res reason kind d =
     (let d = (if obs then d\<lparr>dr_observed := dr_observed d @ [kind]\<rparr> else d);
          url = URL (ResTarget res);
          st = (case dr_skips d url of Some st \<Rightarrow> st | None \<Rightarrow> \<lparr>sk_last = 0, sk_suppressed = 0\<rparr>);
          window = (if Interval (ResTarget res) \<le> 0 then iv else Interval (ResTarget res))
      in if \<not> time_is_zero (sk_last st) \<and> time_sub t (sk_last st) < window \<and> 0 \<le> time_sub t (sk_last st)
         then d\<lparr>dr_skips := (dr_skips d)(url \<mapsto> st\<lparr>sk_suppressed := wrap64 (sk_suppressed st + 1)\<rparr>)\<rparr>
         else if 0 < sk_suppressed st
         then d\<lparr>dr_skips := (dr_skips d)(url \<mapsto> \<lparr>sk_last = t, sk_suppressed = 0\<rparr>),
                dr_lines := dr_lines d @ [LineSkipped (RedactURL url) reason (Some (sk_suppressed st))]\<rparr>
         else d\<lparr>dr_skips := (dr_skips d)(url \<mapsto> st\<lparr>sk_last := t\<rparr>),
                dr_lines := dr_lines d @ [LineSkipped (RedactURL url) reason None]\<rparr>)"

definition drain_result :: "bool \<Rightarrow> duration \<Rightarrow> time \<times> result \<Rightarrow> drain \<Rightarrow> drain" where
  "drain_result obs iv = (\<lambda>(t, res) d.
     (case drain_switch res of
        CaseSkip reason kind \<Rightarrow> drain_skip obs iv t res reason kind d
      | CaseFailed err \<Rightarrow>
          d\<lparr>dr_failures := wrap64 (dr_failures d + 1),
            dr_lines := dr_lines d @ [LineFailed (RedactURL (URL (ResTarget res))) err]\<rparr>
      | CaseNone \<Rightarrow> d))"

text \<open>\<open>drainResults\<close> until the channel closes, each Result with the clock's reading at it.\<close>

definition drainResults :: "bool \<Rightarrow> duration \<Rightarrow> (time \<times> result) list \<Rightarrow> drain" where
  "drainResults obs iv rs = fold (drain_result obs iv) rs new_drain"

lemma drainResults_snoc: "drainResults obs iv (rs @ [x]) = drain_result obs iv x (drainResults obs iv rs)"
  by (simp add: drainResults_def)

section \<open>Targets and subjects\<close>

definition eventURL :: "string \<Rightarrow> string" where
  "eventURL raw = (if raw = [] then [] else TargetLabel raw)"

definition unparseableLabel :: string where "unparseableLabel = TargetLabel []"

text \<open>\<open>sanitizedCheck.Run\<close> around the inner check.\<close>

definition sanitized_Run :: "(target \<Rightarrow> observation \<times> goerr option) \<Rightarrow> target \<Rightarrow> observation \<times> goerr option" where
  "sanitized_Run inner t =
     (case inner t of (obs, err) \<Rightarrow> (obs\<lparr>FinalURL := eventURL (FinalURL obs)\<rparr>, err))"

text \<open>The warnings of \<open>buildTargets\<close>.\<close>

datatype warning =
    WarnDuplicate string
  | WarnUnsafe nat
  | WarnShared string
  | WarnTimeout string duration duration

record build_state =
  bs_seen :: "string \<Rightarrow> nat"
  bs_subjects :: "string \<rightharpoonup> string"
  bs_warned :: "string set"
  bs_log :: "warning list"
  bs_targets :: "target list"

definition target_labels :: "cfg_target \<Rightarrow> string \<rightharpoonup> string" where
  "target_labels t =
     (case CtLabels t ''url'' of Some v \<Rightarrow> CtLabels t | None \<Rightarrow> (CtLabels t)(''url'' \<mapsto> eventURL (CtURL t)))"

definition subject_of :: "cfg_target \<Rightarrow> string" where
  "subject_of t = (case CtLabels t ''url'' of Some v \<Rightarrow> v | None \<Rightarrow> eventURL (CtURL t))"

text \<open>A subject seen with a second raw URL is warned about once.\<close>

definition note_subject ::
  "string \<Rightarrow> string \<Rightarrow> (string \<rightharpoonup> string) \<Rightarrow> string set \<Rightarrow> (string \<rightharpoonup> string) \<times> string set \<times> warning list" where
  "note_subject subject url subjects warned =
     (case subjects subject of
        None \<Rightarrow> (subjects(subject \<mapsto> url), warned, [])
      | Some first \<Rightarrow>
          if first \<noteq> url \<and> subject \<notin> warned then (subjects, insert subject warned, [WarnShared (RedactURL subject)])
          else (subjects, warned, []))"

text \<open>One round of the loop, for the target at index \<open>i\<close>.\<close>

definition build_step :: "app_config \<Rightarrow> nat \<times> cfg_target \<Rightarrow> build_state \<Rightarrow> build_state" where
  "build_step cfg = (\<lambda>(i, t) b.
     (let seen = (bs_seen b)(CtURL t := bs_seen b (CtURL t) + 1);
          dup = (if seen (CtURL t) = 2 then [WarnDuplicate (RedactURL (CtURL t))] else []);
          unsafe = (if CtLabels t ''url'' = None \<and> eventURL (CtURL t) = unparseableLabel then [WarnUnsafe (i + 1)] else []);
          subject = subject_of t;
          (subjects, warned, shared) = note_subject subject (CtURL t) (bs_subjects b) (bs_warned b);
          eff = (if CtInterval t \<le> 0 then AcInterval cfg else CtInterval t);
          slow = (if eff \<le> AcTimeout cfg then [WarnTimeout (RedactURL (CtURL t)) eff (AcTimeout cfg)] else [])
      in \<lparr>bs_seen = seen, bs_subjects = subjects, bs_warned = warned,
          bs_log = bs_log b @ dup @ unsafe @ shared @ slow,
          bs_targets = bs_targets b @ [\<lparr>URL = CtURL t, Labels = target_labels t, Interval = CtInterval t\<rparr>]\<rparr>))"

definition buildTargets :: "app_config \<Rightarrow> target list \<times> warning list" where
  "buildTargets cfg =
     (let b = fold (build_step cfg) (enumerate 0 (AcTargets cfg))
            \<lparr>bs_seen = (\<lambda>u. 0), bs_subjects = Map.empty, bs_warned = {}, bs_log = [], bs_targets = []\<rparr>
      in (bs_targets b, bs_log b))"

section \<open>Label collisions\<close>

text \<open>The loop that collects the positions per label, and the labels in order of appearance.\<close>

definition collect_label :: "nat \<times> string \<Rightarrow> (string \<rightharpoonup> nat list) \<times> string list \<Rightarrow> (string \<rightharpoonup> nat list) \<times> string list" where
  "collect_label = (\<lambda>(i, label) (positions, order).
     (positions(label \<mapsto> (case positions label of None \<Rightarrow> [] | Some ps \<Rightarrow> ps) @ [i + 1]),
      if positions label = None then order @ [label] else order))"

fun first_collision :: "(string \<rightharpoonup> nat list) \<Rightarrow> string list \<Rightarrow> (string \<times> nat list) option" where
  "first_collision positions [] = None"
| "first_collision positions (label # order) =
     (case positions label of
        Some ps \<Rightarrow> if length ps < 2 then first_collision positions order else Some (label, ps)
      | None \<Rightarrow> first_collision positions order)"

text \<open>\<open>joinPositions\<close>\<close>

definition itoa :: "nat \<Rightarrow> string" where "itoa n = append_int (int n) 0"

definition joinPositions :: "nat list \<Rightarrow> string" where
  "joinPositions pos =
     (let parts = map itoa pos in join_with '', '' (butlast parts) @ '' and '' @ last parts)"

text \<open>The line printed names the label and whether it is the placeholder; the result is true when all labels differ.\<close>

datatype collision_line = NoSafeLabel string string | SharedLabel string string

definition checkLabelCollisions :: "cfg_target list \<Rightarrow> bool \<times> collision_line list" where
  "checkLabelCollisions targets =
     (let labels = map (\<lambda>t. TargetLabel (CtURL t)) targets;
          (positions, order) = fold collect_label (enumerate 0 labels) (Map.empty, [])
      in case first_collision positions order of
           None \<Rightarrow> (True, [])
         | Some (label, ps) \<Rightarrow>
             (False, [if label = unparseableLabel then NoSafeLabel (joinPositions ps) label
                      else SharedLabel (joinPositions ps) label]))"

lemma joinPositions_examples:
  "joinPositions [1, 2] = ''1 and 2''" "joinPositions [1, 4, 16] = ''1, 4 and 16''"
  by code_simp+

section \<open>Lemmas on the drain\<close>

lemma errors_is_wrapped: "errors_is e t \<Longrightarrow> t = Errorf m ws \<Longrightarrow> w \<in> set ws \<Longrightarrow> errors_is e w"
proof (induction e t rule: errors_is.induct)
  case (2 m' ws' t)
  then consider "ws' = ws" | v where "v \<in> set ws'" "errors_is v t" by (auto simp: list_ex_iff)
  then show ?case
  proof cases
    case 1
    then have "list_ex (\<lambda>v. errors_is v w) ws'" using 2(4) by (auto simp: list_ex_iff intro!: bexI [of _ w])
    then show ?thesis by simp
  next
    case 2
    then have "list_ex (\<lambda>v. errors_is v w) ws'" using "2.IH" "2.prems" by (auto simp: list_ex_iff)
    then show ?thesis by simp
  qed
qed simp

lemma queued_is_skipped: "errors_is err ErrSkippedQueued \<Longrightarrow> errors_is err ErrSkipped"
  unfolding ErrSkippedQueued_def by (erule errors_is_wrapped [OF _ refl]) simp

text \<open>The kind of skip a Result reports, and whether it is a failure.\<close>

definition skip_kind :: "result \<Rightarrow> skipKind option" where
  "skip_kind res =
     (case ResErr res of None \<Rightarrow> None
      | Some err \<Rightarrow>
          if errors_is err ErrSkippedQueued then Some SkipQueued
          else if errors_is err ErrSkipped then Some SkipInFlight else None)"

definition is_failure :: "result \<Rightarrow> bool" where
  "is_failure res = (case ResErr res of None \<Rightarrow> False | Some err \<Rightarrow> \<not> errors_is err ErrSkipped)"

fun told_skips :: "drain_line \<Rightarrow> int" where
  "told_skips (LineFailed u err) = 0"
| "told_skips (LineSkipped u reason None) = 1"
| "told_skips (LineSkipped u reason (Some n)) = n + 1"

fun told_failures :: "drain_line \<Rightarrow> nat" where
  "told_failures (LineFailed u err) = 1"
| "told_failures (LineSkipped u reason n) = 0"

definition all_told :: "drain \<Rightarrow> int" where
  "all_told d = sum_list (map told_skips (dr_lines d))"

definition held_back :: "drain \<Rightarrow> int" where
  "held_back d = (\<Sum>u \<in> dom (dr_skips d). sk_suppressed (the (dr_skips d u)))"

definition suppressed_at :: "(string \<rightharpoonup> skipState) \<Rightarrow> string \<Rightarrow> int" where
  "suppressed_at m u = (case m u of None \<Rightarrow> 0 | Some st \<Rightarrow> sk_suppressed st)"

lemma sum_upd:
  assumes "finite (dom m)"
  shows "(\<Sum>v \<in> dom (m(u \<mapsto> st)). sk_suppressed (the ((m(u \<mapsto> st)) v))) =
    (\<Sum>v \<in> dom m. sk_suppressed (the (m v))) + sk_suppressed st - suppressed_at m u"
proof -
  have "(\<Sum>v \<in> insert u (dom m). sk_suppressed (the ((m(u \<mapsto> st)) v))) =
      sk_suppressed st + (\<Sum>v \<in> dom m - {u}. sk_suppressed (the (m v)))"
    using assms by (subst sum.insert_remove) (auto intro!: sum.cong)
  moreover have "(\<Sum>v \<in> dom m. sk_suppressed (the (m v))) =
      suppressed_at m u + (\<Sum>v \<in> dom m - {u}. sk_suppressed (the (m v)))"
  proof (cases "u \<in> dom m")
    case True
    then show ?thesis using assms by (simp add: sum.remove [of "dom m" u] suppressed_at_def) (auto split: option.splits)
  next
    case False
    then show ?thesis by (auto simp: suppressed_at_def domIff)
  qed
  ultimately show ?thesis by simp
qed

lemma suppressed_upd: "suppressed_at (m(u \<mapsto> st)) = (suppressed_at m)(u := sk_suppressed st)"
  by (simp add: suppressed_at_def fun_eq_iff)

text \<open>
  After \<open>n\<close> skips and \<open>m\<close> failures: the skips told and held back are \<open>n\<close> up to wrap-around,
  and exactly \<open>n\<close>, with no count negative, as long as \<open>n\<close> is an \<open>int\<close>.
\<close>

definition no_wrap :: "drain \<Rightarrow> bool" where
  "no_wrap d \<longleftrightarrow> 0 \<le> all_told d \<and> (\<forall>u. 0 \<le> suppressed_at (dr_skips d) u)"

definition drain_inv :: "nat \<Rightarrow> nat \<Rightarrow> drain \<Rightarrow> bool" where
  "drain_inv n m d \<longleftrightarrow> finite (dom (dr_skips d)) \<and>
     2 ^ 64 dvd all_told d + held_back d - int n \<and>
     (int n \<le> max64 \<longrightarrow> all_told d + held_back d = int n \<and> no_wrap d) \<and>
     sum_list (map told_failures (dr_lines d)) = m \<and> dr_failures d = wrap64 (int m)"

lemma suppressed_le_held:
  assumes "finite (dom (dr_skips d))" "no_wrap d"
  shows "suppressed_at (dr_skips d) u \<le> held_back d" "0 \<le> held_back d"
proof -
  have s: "sk_suppressed (the (dr_skips d v)) = suppressed_at (dr_skips d) v" if "v \<in> dom (dr_skips d)" for v
    using that by (auto simp: suppressed_at_def)
  then have h: "held_back d = (\<Sum>v \<in> dom (dr_skips d). suppressed_at (dr_skips d) v)"
    unfolding held_back_def by (rule sum.cong [OF refl])
  show nn: "0 \<le> held_back d" unfolding h using assms(2) by (simp add: no_wrap_def sum_nonneg)
  show "suppressed_at (dr_skips d) u \<le> held_back d"
  proof (cases "u \<in> dom (dr_skips d)")
    case True
    then show ?thesis unfolding h using assms by (intro member_le_sum) (auto simp: no_wrap_def)
  next
    case False
    then show ?thesis using nn by (auto simp: suppressed_at_def domIff)
  qed
qed

text \<open>A skip is held back, or told with those held back before it, or told alone.\<close>

lemma drain_skip_cases:
  fixes d res
  defines "u \<equiv> URL (ResTarget res)"
  assumes "finite (dom (dr_skips d))"
  obtains (hold) "all_told (drain_skip obs iv t res reason kind d) = all_told d"
      "held_back (drain_skip obs iv t res reason kind d) =
        held_back d + wrap64 (suppressed_at (dr_skips d) u + 1) - suppressed_at (dr_skips d) u"
      "suppressed_at (dr_skips (drain_skip obs iv t res reason kind d)) =
        (suppressed_at (dr_skips d))(u := wrap64 (suppressed_at (dr_skips d) u + 1))"
  | (count) "0 < suppressed_at (dr_skips d) u"
      "all_told (drain_skip obs iv t res reason kind d) = all_told d + suppressed_at (dr_skips d) u + 1"
      "held_back (drain_skip obs iv t res reason kind d) = held_back d - suppressed_at (dr_skips d) u"
      "suppressed_at (dr_skips (drain_skip obs iv t res reason kind d)) = (suppressed_at (dr_skips d))(u := 0)"
  | (alone) "all_told (drain_skip obs iv t res reason kind d) = all_told d + 1"
      "held_back (drain_skip obs iv t res reason kind d) = held_back d"
      "suppressed_at (dr_skips (drain_skip obs iv t res reason kind d)) = suppressed_at (dr_skips d)"
proof -
  let ?d = "drain_skip obs iv t res reason kind d" and ?s = "suppressed_at (dr_skips d) u"
  obtain st where st: "st = (case dr_skips d u of Some st \<Rightarrow> st | None \<Rightarrow> \<lparr>sk_last = 0, sk_suppressed = 0\<rparr>)" by simp
  obtain q where q: "q \<longleftrightarrow> \<not> time_is_zero (sk_last st) \<and>
      time_sub t (sk_last st) < (if Interval (ResTarget res) \<le> 0 then iv else Interval (ResTarget res)) \<and>
      0 \<le> time_sub t (sk_last st)" by simp
  have s: "sk_suppressed st = ?s" by (simp add: st suppressed_at_def split: option.split)
  have o: "dr_skips (if obs then d\<lparr>dr_observed := x\<rparr> else d) = dr_skips d" for x by simp
  have m: "dr_skips ?d = (dr_skips d)(u \<mapsto> if q then st\<lparr>sk_suppressed := wrap64 (?s + 1)\<rparr>
      else if 0 < ?s then \<lparr>sk_last = t, sk_suppressed = 0\<rparr> else st\<lparr>sk_last := t\<rparr>)"
    and l: "all_told ?d = all_told d + (if q then 0 else if 0 < ?s then ?s + 1 else 1)"
    unfolding drain_skip_def Let_def o u_def [symmetric] st [symmetric] q [symmetric] s by (simp_all add: all_told_def)
  have h: "held_back ?d = held_back d + suppressed_at (dr_skips ?d) u - ?s"
    unfolding held_back_def m sum_upd [OF assms(2)] by (simp add: suppressed_upd)
  have a: "suppressed_at (dr_skips ?d) = (suppressed_at (dr_skips d))(u := if q then wrap64 (?s + 1) else if 0 < ?s then 0 else ?s)"
    unfolding m suppressed_upd by (simp add: s)
  consider q | "\<not> q" "0 < ?s" | "\<not> q" "\<not> 0 < ?s" by blast
  then show thesis
  proof cases
    case 1
    then show thesis using l h a by (intro hold) simp_all
  next
    case 2
    then show thesis using l h a by (intro count) simp_all
  next
    case 3
    then show thesis using l h a by (intro alone) simp_all
  qed
qed

lemma drain_skip_inv:
  assumes "drain_inv n m d"
  shows "drain_inv (Suc n) m (drain_skip obs iv t res reason kind d)"
proof -
  let ?u = "URL (ResTarget res)" and ?d = "drain_skip obs iv t res reason kind d"
  let ?s = "suppressed_at (dr_skips d) ?u"
  note inv = assms [unfolded drain_inv_def]
  have fin: "finite (dom (dr_skips d))" using inv by simp
  have keep: "finite (dom (dr_skips ?d))" "dr_failures ?d = dr_failures d"
    "sum_list (map told_failures (dr_lines ?d)) = sum_list (map told_failures (dr_lines d))"
    using fin by (simp_all add: drain_skip_def Let_def)
  obtain w where w: "all_told ?d + held_back ?d = all_told d + held_back d + 1 + w" "2 ^ 64 dvd w"
    "int (Suc n) \<le> max64 \<longrightarrow> w = 0 \<and> no_wrap ?d"
    using fin
  proof (cases rule: drain_skip_cases [where obs = obs and iv = iv and t = t and res = res and reason = reason and kind = kind])
    case hold
    have "wrap64 (?s + 1) = ?s + 1 \<and> no_wrap ?d" if le: "int (Suc n) \<le> max64"
    proof -
      have nw: "no_wrap d" and "all_told d + held_back d = int n" using inv le by simp_all
      then have "?s + 1 \<le> max64" "0 \<le> ?s"
        using suppressed_le_held(1) [OF fin nw, of ?u] le by (auto simp: no_wrap_def)
      then have "wrap64 (?s + 1) = ?s + 1" by (intro wrap64_id) (simp_all add: min64_def)
      then show ?thesis using nw \<open>0 \<le> ?s\<close> hold by (simp add: no_wrap_def)
    qed
    then show thesis using hold wrap64_dvd [of "?s + 1"] by (intro that [of "wrap64 (?s + 1) - (?s + 1)"]) simp_all
  next
    case count
    then show thesis using inv by (intro that [of 0]) (auto simp: no_wrap_def)
  next
    case alone
    then show thesis using inv by (intro that [of 0]) (auto simp: no_wrap_def)
  qed
  have "all_told ?d + held_back ?d - int (Suc n) = (all_told d + held_back d - int n) + w" using w(1) by simp
  then have "2 ^ 64 dvd all_told ?d + held_back ?d - int (Suc n)" using inv w(2) by (metis dvd_add)
  then show ?thesis using inv w(1,3) keep by (simp add: drain_inv_def)
qed

lemma drain_result_inv:
  assumes "drain_inv n m d"
  shows "drain_inv (if skip_kind (snd x) = None then n else Suc n) (if is_failure (snd x) then Suc m else m)
    (drain_result obs iv x d)"
proof -
  obtain t res where x: "x = (t, res)" by (cases x)
  have failed: "drain_inv n (Suc m) (d\<lparr>dr_failures := wrap64 (dr_failures d + 1), dr_lines := dr_lines d @ [LineFailed u err]\<rparr>)"
    for u err
    using assms wrap64_Suc [of "int m"]
    by (simp add: drain_inv_def all_told_def held_back_def no_wrap_def add.commute [of 1])
  show ?thesis using assms drain_skip_inv [OF assms] failed queued_is_skipped
    by (auto simp: x drain_result_def drain_switch_def skip_kind_def is_failure_def split: option.splits)
qed

lemma drain_fold_inv:
  assumes "drain_inv n m d"
  shows "drain_inv (n + length (List.map_filter (skip_kind \<circ> snd) rs)) (m + length (filter (is_failure \<circ> snd) rs))
    (fold (drain_result obs iv) rs d)"
  using assms
proof (induction rs arbitrary: d n m)
  case (Cons x rs)
  show ?case using Cons.IH [OF drain_result_inv [OF Cons.prems, of x obs iv]]
    by (auto simp: map_filter_simps split: option.splits if_splits)
qed (simp add: map_filter_simps)

lemma drain_observed:
  "dr_observed (fold (drain_result obs iv) rs d) =
     dr_observed d @ (if obs then List.map_filter (skip_kind \<circ> snd) rs else [])"
proof (induction rs arbitrary: d)
  case (Cons x rs)
  have "dr_observed (drain_result obs iv x d) =
      dr_observed d @ (if obs then (case skip_kind (snd x) of None \<Rightarrow> [] | Some k \<Rightarrow> [k]) else [])"
    by (cases x) (auto simp: drain_result_def drain_switch_def drain_skip_def skip_kind_def Let_def split: option.splits)
  then show ?case by (simp add: Cons.IH map_filter_simps split: option.splits)
qed (simp add: map_filter_simps)

text \<open>What the drain counts and passes on.\<close>

lemma drainResults_inv:
  "drain_inv (length (List.map_filter (skip_kind \<circ> snd) rs)) (length (filter (is_failure \<circ> snd) rs)) (drainResults obs iv rs)"
proof -
  have "drain_inv 0 0 new_drain"
    by (simp add: drain_inv_def new_drain_def held_back_def all_told_def no_wrap_def suppressed_at_def wrap64_def)
  from drain_fold_inv [OF this, of rs obs iv] show ?thesis by (simp add: drainResults_def)
qed

lemma drainResults_counts:
  "dr_failures (drainResults obs iv rs) = wrap64 (int (length (filter (is_failure \<circ> snd) rs)))"
  "dr_observed (drainResults obs iv rs) = (if obs then List.map_filter (skip_kind \<circ> snd) rs else [])"
  using drainResults_inv [of rs obs iv] drain_observed [of obs iv rs new_drain]
  by (simp_all add: drain_inv_def drainResults_def) (simp_all add: new_drain_def)

text \<open>
  C20: the drain loses nothing. Over any sequence of Results and clock readings (the clock may step
  back): every Result with an error that is not a skip gets a line of its own, and failures is
  their number as a wrapping 64-bit counter; where there is a collector every skip is passed on to it
  once, in order, under its kind (queued before in flight, which it wraps), and without one none is; and the
  skips told by the printed lines, with those still held back by the rate limit, are all the skips, modulo
  2 ^ 64 in general and exactly as long as an \<open>int\<close> can count them.
\<close>

theorem drain_accounting:
  "dr_failures (drainResults obs iv rs) = wrap64 (int (length (filter (is_failure \<circ> snd) rs))) \<and>
   sum_list (map told_failures (dr_lines (drainResults obs iv rs))) = length (filter (is_failure \<circ> snd) rs) \<and>
   dr_observed (drainResults obs iv rs) = (if obs then List.map_filter (skip_kind \<circ> snd) rs else []) \<and>
   wrap64 (all_told (drainResults obs iv rs) + held_back (drainResults obs iv rs)) =
     wrap64 (int (length (List.map_filter (skip_kind \<circ> snd) rs))) \<and>
   (int (length (List.map_filter (skip_kind \<circ> snd) rs)) \<le> max64 \<longrightarrow>
     all_told (drainResults obs iv rs) + held_back (drainResults obs iv rs) =
       int (length (List.map_filter (skip_kind \<circ> snd) rs)))"
  using drainResults_inv [of rs obs iv] drainResults_counts [of obs iv rs]
  by (simp add: drain_inv_def wrap64_eq_iff)

definition some_skips :: "(time \<times> result) list" where
  "some_skips = map (\<lambda>(t, err). (t, \<lparr>ResTarget = \<lparr>URL = ''u'', Labels = Map.empty, Interval = 0\<rparr>, ResErr = Some err\<rparr>))
     [(100, ErrSkipped), (101, ErrSkippedQueued), (102, Sentinel ''down''), (115, ErrSkipped), (116, ErrSkipped)]"

theorem drain_accounting_witness:
  "dr_failures (drainResults True 10 some_skips) = 1 \<and> dr_observed (drainResults False 10 some_skips) = [] \<and>
   dr_observed (drainResults True 10 some_skips) = [SkipInFlight, SkipQueued, SkipInFlight, SkipInFlight] \<and>
   all_told (drainResults True 10 some_skips) = 3 \<and> held_back (drainResults True 10 some_skips) = 1"
proof -
  have n: "length (List.map_filter (skip_kind \<circ> snd) some_skips) = 4"
    "List.map_filter (skip_kind \<circ> snd) some_skips = [SkipInFlight, SkipQueued, SkipInFlight, SkipInFlight]"
    "length (filter (is_failure \<circ> snd) some_skips) = 1" "all_told (drainResults True 10 some_skips) = 3"
    by code_simp+
  have "wrap64 1 = 1" "(4 :: int) \<le> max64" by (simp_all add: wrap64_def max64_def)
  then show ?thesis
    using drain_accounting [of True 10 some_skips] drain_accounting [of False 10 some_skips] n by simp
qed

section \<open>Lemmas on collisions\<close>

text \<open>The 1-based positions at which a list has a value.\<close>

definition positions_of :: "'a \<Rightarrow> 'a list \<Rightarrow> nat list" where
  "positions_of x xs = map Suc (filter (\<lambda>i. xs ! i = x) [0..<length xs])"

lemma positions_snoc: "positions_of x (xs @ [y]) = positions_of x xs @ (if y = x then [Suc (length xs)] else [])"
proof -
  have "filter (\<lambda>i. (xs @ [y]) ! i = x) [0..<length xs] = filter (\<lambda>i. xs ! i = x) [0..<length xs]"
    by (rule filter_cong) (simp_all add: nth_append)
  then show ?thesis by (simp add: positions_of_def)
qed

lemma length_positions: "length (positions_of x xs) = count_list xs x"
  by (induction xs rule: rev_induct) (simp_all add: positions_snoc, simp add: positions_of_def)

text \<open>The values of a list in order of first appearance.\<close>

definition firsts :: "'a list \<Rightarrow> 'a list" where
  "firsts xs = fold (\<lambda>x acc. if x \<in> set acc then acc else acc @ [x]) xs []"

lemma firsts_snoc: "firsts (xs @ [y]) = (if y \<in> set (firsts xs) then firsts xs else firsts xs @ [y])"
  by (simp add: firsts_def)

lemma set_firsts [simp]: "set (firsts xs) = set xs"
  by (induction xs rule: rev_induct) (auto simp: firsts_snoc, auto simp: firsts_def)

lemma find_snoc: "find P (xs @ [y]) = (case find P xs of Some x \<Rightarrow> Some x | None \<Rightarrow> if P y then Some y else None)"
  by (induction xs) auto

lemma find_firsts: "find P (firsts xs) = find P xs"
proof (induction xs rule: rev_induct)
  case (snoc y xs)
  have "find P xs = None \<Longrightarrow> y \<in> set xs \<Longrightarrow> \<not> P y" by (auto simp: find_None_iff)
  then show ?case using snoc by (auto simp: firsts_snoc find_snoc split: option.splits)
qed (simp add: firsts_def)

lemma collect_labels:
  "fold collect_label (enumerate 0 labels) (Map.empty, []) =
     (\<lambda>l. if l \<in> set labels then Some (positions_of l labels) else None, firsts labels)"
proof (induction labels rule: rev_induct)
  case (snoc y xs)
  have p: "positions_of y xs = []" if "y \<notin> set xs"
    using that by (auto simp: positions_of_def filter_empty_conv)
  show ?case using snoc p by (auto simp: enumerate_append_eq collect_label_def positions_snoc firsts_snoc fun_eq_iff)
qed (simp add: firsts_def)

lemma first_collision_find:
  "first_collision positions order =
     map_option (\<lambda>l. (l, the (positions l))) (find (\<lambda>l. positions l \<noteq> None \<and> 2 \<le> length (the (positions l))) order)"
  by (induction order) (auto split: option.splits)

lemma collision_found:
  "(case fold collect_label (enumerate 0 labels) (Map.empty, []) of (positions, order) \<Rightarrow> first_collision positions order) =
     map_option (\<lambda>l. (l, positions_of l labels)) (find (\<lambda>l. 2 \<le> count_list labels l) labels)"
proof -
  let ?pos = "\<lambda>l. if l \<in> set labels then Some (positions_of l labels) else None"
  have "find (\<lambda>l. ?pos l \<noteq> None \<and> 2 \<le> length (the (?pos l))) labels = find (\<lambda>l. 2 \<le> count_list labels l) labels"
    by (rule find_cong) (auto simp: length_positions)
  moreover have "find P labels = Some l \<Longrightarrow> l \<in> set labels" for P l by (auto simp: find_Some_iff)
  ultimately show ?thesis
    by (auto simp: collect_labels first_collision_find find_firsts map_option_case split: option.split)
qed

lemma distinct_count: "distinct xs \<longleftrightarrow> (\<forall>x \<in> set xs. \<not> 2 \<le> count_list xs x)"
proof (induction xs)
  case (Cons y xs)
  show ?case
  proof (cases "y \<in> set xs")
    case True
    then have "2 \<le> count_list (y # xs) y" by (simp add: Suc_le_eq count_list_0_iff neq0_conv [symmetric] del: neq0_conv)
    then show ?thesis using True by auto
  next
    case False
    have a: "count_list (y # xs) x = count_list xs x" if "x \<in> set xs" for x using that False by auto
    have b: "count_list (y # xs) y = 1" using False by (simp add: count_list_0_iff)
    have "(\<forall>x \<in> set (y # xs). \<not> 2 \<le> count_list (y # xs) x) \<longleftrightarrow> (\<forall>x \<in> set xs. \<not> 2 \<le> count_list xs x)"
      by (auto simp: a b simp del: count_list.simps)
    then show ?thesis using Cons.IH False by simp
  qed
qed simp

text \<open>
  The collision check is exact. It passes exactly when the metrics labels of all targets are
  distinct; otherwise it prints one line, for the first label in config order that two or more
  targets share, with the 1-based positions of all the targets that have it.
\<close>

theorem checkLabelCollisions_exact:
  "(let labels = map (\<lambda>t. TargetLabel (CtURL t)) targets
    in case find (\<lambda>l. 2 \<le> count_list labels l) labels of
         None \<Rightarrow> distinct labels \<and> checkLabelCollisions targets = (True, [])
       | Some l \<Rightarrow> \<not> distinct labels \<and>
           checkLabelCollisions targets =
             (False, [if l = unparseableLabel then NoSafeLabel (joinPositions (positions_of l labels)) l
                      else SharedLabel (joinPositions (positions_of l labels)) l]))"
proof -
  define labels where "labels = map (\<lambda>t. TargetLabel (CtURL t)) targets"
  have d: "distinct labels \<longleftrightarrow> find (\<lambda>l. 2 \<le> count_list labels l) labels = None"
    by (auto simp: distinct_count find_None_iff)
  obtain positions order where f: "fold collect_label (enumerate 0 labels) (Map.empty, []) = (positions, order)"
    by (cases "fold collect_label (enumerate 0 labels) (Map.empty, [])")
  have c: "first_collision positions order =
      map_option (\<lambda>l. (l, positions_of l labels)) (find (\<lambda>l. 2 \<le> count_list labels l) labels)"
    using collision_found [of labels] f by simp
  show ?thesis
    unfolding Let_def labels_def [symmetric]
    using d f c by (auto simp: checkLabelCollisions_def labels_def [symmetric] Let_def split: option.split)
qed

section \<open>Lemmas on buildTargets\<close>

definition init_build :: build_state where
  "init_build = \<lparr>bs_seen = (\<lambda>u. 0), bs_subjects = Map.empty, bs_warned = {}, bs_log = [], bs_targets = []\<rparr>"

definition build_all :: "app_config \<Rightarrow> cfg_target list \<Rightarrow> build_state" where
  "build_all cfg ts = fold (build_step cfg) (enumerate 0 ts) init_build"

lemma build_snoc: "build_all cfg (ts @ [t]) = build_step cfg (length ts, t) (build_all cfg ts)"
  by (simp add: build_all_def enumerate_append_eq)

lemma buildTargets_all: "buildTargets cfg = (bs_targets (build_all cfg (AcTargets cfg)), bs_log (build_all cfg (AcTargets cfg)))"
  by (simp add: buildTargets_def build_all_def init_build_def Let_def)

text \<open>The target made of a config target, and the two kinds of clashes.\<close>

definition built_target :: "cfg_target \<Rightarrow> target" where
  "built_target t = \<lparr>URL = CtURL t, Labels = target_labels t, Interval = CtInterval t\<rparr>"

definition repeated_urls :: "cfg_target list \<Rightarrow> string set" where
  "repeated_urls ts = {u. 2 \<le> count_list (map CtURL ts) u}"

definition clashing_subjects :: "cfg_target list \<Rightarrow> string set" where
  "clashing_subjects ts = {s. \<exists>t \<in> set ts. \<exists>t' \<in> set ts. subject_of t = s \<and> subject_of t' = s \<and> CtURL t \<noteq> CtURL t'}"

lemma finite_repeated: "finite (repeated_urls ts)"
proof -
  have "u \<in> set (map CtURL ts)" if "u \<in> repeated_urls ts" for u
  proof (rule ccontr)
    assume "u \<notin> set (map CtURL ts)"
    then have "count_list (map CtURL ts) u = 0" by (subst count_list_0_iff)
    then show False using that by (simp add: repeated_urls_def)
  qed
  then have "repeated_urls ts \<subseteq> set (map CtURL ts)" by blast
  then show ?thesis using finite_subset by blast
qed

lemma finite_clashing: "finite (clashing_subjects ts)"
proof -
  have "clashing_subjects ts \<subseteq> set (map subject_of ts)" by (auto simp: clashing_subjects_def)
  then show ?thesis using finite_subset by blast
qed

lemma repeated_snoc:
  "repeated_urls (ts @ [t]) = (if 1 \<le> count_list (map CtURL ts) (CtURL t) then insert (CtURL t) (repeated_urls ts) else repeated_urls ts)"
  by (auto simp: repeated_urls_def)

lemma clashing_snoc:
  "clashing_subjects (ts @ [t]) =
     (if \<exists>t' \<in> set ts. subject_of t' = subject_of t \<and> CtURL t' \<noteq> CtURL t
      then insert (subject_of t) (clashing_subjects ts) else clashing_subjects ts)"
  by (auto simp: clashing_subjects_def)

definition subject_map :: "cfg_target list \<Rightarrow> string \<rightharpoonup> string" where
  "subject_map ts = (\<lambda>s. map_option CtURL (find (\<lambda>t. subject_of t = s) ts))"

lemma subject_map_snoc:
  "subject_map (ts @ [t]) =
     (case subject_map ts (subject_of t) of None \<Rightarrow> (subject_map ts)(subject_of t \<mapsto> CtURL t) | Some u \<Rightarrow> subject_map ts)"
  by (auto simp: subject_map_def find_snoc fun_eq_iff split: option.splits)

lemma subject_map_None: "subject_map ts s = None \<longleftrightarrow> (\<forall>t \<in> set ts. subject_of t \<noteq> s)"
  by (auto simp: subject_map_def find_None_iff)

lemma subject_map_Some: "subject_map ts s = Some u \<Longrightarrow> \<exists>t \<in> set ts. subject_of t = s \<and> CtURL t = u"
  by (auto simp: subject_map_def find_Some_iff)

lemma note_subject_eq:
  "note_subject (subject_of t) (CtURL t) (subject_map ts) (clashing_subjects ts) =
     (subject_map (ts @ [t]), clashing_subjects (ts @ [t]),
      if subject_of t \<in> clashing_subjects (ts @ [t]) - clashing_subjects ts then [WarnShared (RedactURL (subject_of t))] else [])"
proof (cases "subject_map ts (subject_of t)")
  case None
  then have "\<not> (\<exists>t' \<in> set ts. subject_of t' = subject_of t \<and> CtURL t' \<noteq> CtURL t)"
    by (auto simp: subject_map_None)
  then have "clashing_subjects (ts @ [t]) = clashing_subjects ts" by (simp only: clashing_snoc if_False)
  then show ?thesis using None by (simp add: note_subject_def subject_map_snoc)
next
  case (Some first)
  then obtain f where f: "f \<in> set ts" "subject_of f = subject_of t" "CtURL f = first" using subject_map_Some by blast
  have m: "subject_map (ts @ [t]) = subject_map ts" using Some by (simp add: subject_map_snoc)
  show ?thesis
  proof (cases "first = CtURL t")
    case False
    then have "\<exists>t' \<in> set ts. subject_of t' = subject_of t \<and> CtURL t' \<noteq> CtURL t" using f by blast
    then have c: "clashing_subjects (ts @ [t]) = insert (subject_of t) (clashing_subjects ts)"
      by (simp only: clashing_snoc if_True)
    show ?thesis
      by (cases "subject_of t \<in> clashing_subjects ts")
         (simp_all add: note_subject_def Some m c False insert_absorb)
  next
    case True
    have "clashing_subjects (ts @ [t]) = clashing_subjects ts"
    proof (cases "\<exists>t' \<in> set ts. subject_of t' = subject_of t \<and> CtURL t' \<noteq> CtURL t")
      case t': True
      obtain x where x: "x \<in> set ts" "subject_of x = subject_of t" "CtURL x \<noteq> CtURL t" using t' by blast
      have "CtURL f \<noteq> CtURL x" using f(3) x(3) True by simp
      then have m': "subject_of t \<in> clashing_subjects ts"
        using f(1,2) x(1,2) by (auto simp: clashing_subjects_def)
      have "clashing_subjects (ts @ [t]) = insert (subject_of t) (clashing_subjects ts)"
        using t' by (simp only: clashing_snoc if_True)
      also have "\<dots> = clashing_subjects ts" using m' by (rule insert_absorb)
      finally show ?thesis .
    qed (simp only: clashing_snoc if_False)
    then show ?thesis by (simp add: note_subject_def Some m True)
  qed
qed

text \<open>The warnings of each kind, as what they name.\<close>

definition dup_warnings :: "warning list \<Rightarrow> nat" where
  "dup_warnings ws = length (filter (\<lambda>w. case w of WarnDuplicate u \<Rightarrow> True | _ \<Rightarrow> False) ws)"

definition shared_warnings :: "warning list \<Rightarrow> nat" where
  "shared_warnings ws = length (filter (\<lambda>w. case w of WarnShared u \<Rightarrow> True | _ \<Rightarrow> False) ws)"

lemma warnings_append [simp]:
  "dup_warnings (xs @ ys) = dup_warnings xs + dup_warnings ys"
  "shared_warnings (xs @ ys) = shared_warnings xs + shared_warnings ys"
  by (simp_all add: dup_warnings_def shared_warnings_def)

lemma warnings_simps [simp]:
  "dup_warnings [] = 0" "dup_warnings [WarnDuplicate u] = 1" "dup_warnings [WarnUnsafe n] = 0"
  "dup_warnings [WarnShared u] = 0" "dup_warnings [WarnTimeout u d e] = 0"
  "shared_warnings [] = 0" "shared_warnings [WarnDuplicate u] = 0" "shared_warnings [WarnUnsafe n] = 0"
  "shared_warnings [WarnShared u] = 1" "shared_warnings [WarnTimeout u d e] = 0"
  by (simp_all add: dup_warnings_def shared_warnings_def)

definition build_inv :: "cfg_target list \<Rightarrow> build_state \<Rightarrow> bool" where
  "build_inv ts b \<longleftrightarrow>
     bs_seen b = count_list (map CtURL ts) \<and> bs_subjects b = subject_map ts \<and> bs_warned b = clashing_subjects ts \<and>
     dup_warnings (bs_log b) = card (repeated_urls ts) \<and>
     shared_warnings (bs_log b) = card (clashing_subjects ts) \<and>
     bs_targets b = map built_target ts"

lemma card_repeated:
  "card (repeated_urls (ts @ [t])) = card (repeated_urls ts) + (if count_list (map CtURL ts) (CtURL t) = 1 then 1 else 0)"
proof -
  have "CtURL t \<in> repeated_urls ts \<longleftrightarrow> 2 \<le> count_list (map CtURL ts) (CtURL t)" by (simp add: repeated_urls_def)
  then show ?thesis using finite_repeated [of ts] by (auto simp: repeated_snoc insert_absorb)
qed

lemma card_clashing:
  "card (clashing_subjects (ts @ [t])) = card (clashing_subjects ts) +
     (if subject_of t \<in> clashing_subjects (ts @ [t]) - clashing_subjects ts then 1 else 0)"
  using finite_clashing [of ts] unfolding clashing_snoc
  by (cases "subject_of t \<in> clashing_subjects ts") (simp_all add: insert_absorb)

lemma build_step_inv:
  assumes "build_inv ts b"
  shows "build_inv (ts @ [t]) (build_step cfg (i, t) b)"
proof -
  let ?n = "count_list (map CtURL ts) (CtURL t)"
  have b: "bs_seen b = count_list (map CtURL ts)" "bs_subjects b = subject_map ts" "bs_warned b = clashing_subjects ts"
    "dup_warnings (bs_log b) = card (repeated_urls ts)"
    "shared_warnings (bs_log b) = card (clashing_subjects ts)" "bs_targets b = map built_target ts"
    using assms by (simp_all add: build_inv_def)
  define unsafe where "unsafe = (if CtLabels t ''url'' = None \<and> eventURL (CtURL t) = unparseableLabel then [WarnUnsafe (i + 1)] else [])"
  define slow where "slow = (let eff = (if CtInterval t \<le> 0 then AcInterval cfg else CtInterval t)
      in if eff \<le> AcTimeout cfg then [WarnTimeout (RedactURL (CtURL t)) eff (AcTimeout cfg)] else [])"
  define shared where "shared = (if subject_of t \<in> clashing_subjects (ts @ [t]) - clashing_subjects ts
      then [WarnShared (RedactURL (subject_of t))] else [])"
  define dup where "dup = (if ?n + 1 = 2 then [WarnDuplicate (RedactURL (CtURL t))] else [])"
  have e: "build_step cfg (i, t) b =
      \<lparr>bs_seen = (count_list (map CtURL ts))(CtURL t := ?n + 1), bs_subjects = subject_map (ts @ [t]),
       bs_warned = clashing_subjects (ts @ [t]), bs_log = bs_log b @ dup @ unsafe @ shared @ slow,
       bs_targets = map built_target ts @ [built_target t]\<rparr>"
    unfolding build_step_def prod.case Let_def b note_subject_eq unsafe_def slow_def shared_def dup_def built_target_def
    by simp
  have w: "dup_warnings unsafe = 0" "dup_warnings slow = 0" "dup_warnings shared = 0"
    "shared_warnings unsafe = 0" "shared_warnings slow = 0" "shared_warnings dup = 0"
    "dup_warnings dup = (if ?n = 1 then 1 else 0)"
    "shared_warnings shared = (if subject_of t \<in> clashing_subjects (ts @ [t]) - clashing_subjects ts then 1 else 0)"
    by (simp_all add: unsafe_def slow_def shared_def dup_def Let_def)
  have s: "(count_list (map CtURL ts))(CtURL t := Suc ?n) = count_list (map CtURL ts @ [CtURL t])"
    by (rule ext) simp
  show ?thesis
    unfolding e build_inv_def card_repeated card_clashing by (simp add: w b s)
qed

lemma build_all_inv: "build_inv ts (build_all cfg ts)"
proof (induction ts rule: rev_induct)
  case Nil
  then show ?case
    by (simp add: build_inv_def build_all_def init_build_def subject_map_def clashing_subjects_def repeated_urls_def fun_eq_iff)
next
  case (snoc t ts)
  then show ?case unfolding build_snoc by (rule build_step_inv)
qed

text \<open>
  The targets: buildTargets keeps every config target, in order, with its URL, interval and labels; the
  "url" label is the operator's when there is one, and otherwise the metrics label of the URL,
  which carries no credentials, query or fragment. It warns exactly once for each URL that
  stands twice or more, and exactly once for each subject that two different URLs share.
\<close>

theorem buildTargets_contract:
  "fst (buildTargets cfg) = map built_target (AcTargets cfg) \<and>
   map (\<lambda>t. Labels t ''url'') (fst (buildTargets cfg)) =
     map (\<lambda>t. Some (case CtLabels t ''url'' of Some v \<Rightarrow> v
       | None \<Rightarrow> if CtURL t = [] then [] else TargetLabel (CtURL t))) (AcTargets cfg) \<and>
   dup_warnings (snd (buildTargets cfg)) = card (repeated_urls (AcTargets cfg)) \<and>
   shared_warnings (snd (buildTargets cfg)) = card (clashing_subjects (AcTargets cfg))"
  using build_all_inv [of "AcTargets cfg" cfg]
  by (auto simp: buildTargets_all build_inv_def built_target_def target_labels_def eventURL_def split: option.split)

end
