(* ===== verification/RunnerNew.thy ===== *)
theory RunnerNew
  imports RunnerSafe
begin

text \<open>
  The contracts of New and of a call of Run: when New panics, what it builds for each target, and that
  Run is single-use and reports a rejected event config without starting anything.
\<close>

section \<open>New\<close>

lemma those_NoneI: "None \<in> set xs \<Longrightarrow> those xs = None"
  by (induction xs) (auto split: option.splits)

lemma those_total: "(\<And>x. x \<in> set xs \<Longrightarrow> x \<noteq> None) \<Longrightarrow> \<exists>ys. those xs = Some ys"
  by (induction xs) (auto split: option.splits)

lemma New_total:
  assumes "args_ok ts iv0 opts" "0 < iv0"
  shows "\<exists>r. New k cfg ts iv0 conc opts = Some r"
proof -
  have "\<exists>es. those (map (new_entry iv0) ts) = Some es"
    using assms new_entry_total by (intro those_total) (auto simp: args_ok_def)
  then show ?thesis using assms(2) by (auto simp: New_def)
qed

lemma new_entry_fields:
  assumes "new_entry iv0 t = Some e" "0 < iv0" "iv0 \<le> max64" "Interval t \<le> max64"
  shows "ent_interval e = (if Interval t \<le> 0 then iv0 else Interval t)"
    "ent_phase e = uint (fnv1a64 (URL t)) mod ent_interval e"
  using assms phaseOf_positive by (auto simp: new_entry_def Let_def split: option.splits if_splits)

section \<open>Properties\<close>

text \<open>
  New panics exactly on a default interval that is not positive. Otherwise it keeps the targets in
  order, gives each its own interval or the default, and a phase (the FNV hash of its URL modulo that
  interval), clamps the pool to at least one worker and at most one per target, and sizes Results() for
  one completion and one skip per target plus one.
\<close>

theorem New_contract:
  assumes "args_ok ts iv0 opts"
  shows "(New k cfg ts iv0 conc opts = None \<longleftrightarrow> iv0 \<le> 0) \<and>
    (\<forall>r. New k cfg ts iv0 conc opts = Some r \<longrightarrow>
      map ent_t (entries r) = ts \<and>
      (\<forall>e \<in> set (entries r).
        ent_interval e = (if Interval (ent_t e) \<le> 0 then iv0 else Interval (ent_t e)) \<and> 0 < ent_interval e \<and>
        ent_phase e = uint (fnv1a64 (URL (ent_t e))) mod ent_interval e) \<and>
      1 \<le> concurrency r \<and> (ts \<noteq> [] \<longrightarrow> concurrency r \<le> length ts) \<and>
      (1 \<le> conc \<and> (conc \<le> int (length ts) \<or> ts = []) \<longrightarrow> int (concurrency r) = conc) \<and>
      results_cap r = 2 * length ts + 1)"
proof (cases "0 < iv0")
  case True
  have "map ent_t (entries r) = ts \<and>
      (\<forall>e \<in> set (entries r).
        ent_interval e = (if Interval (ent_t e) \<le> 0 then iv0 else Interval (ent_t e)) \<and> 0 < ent_interval e \<and>
        ent_phase e = uint (fnv1a64 (URL (ent_t e))) mod ent_interval e) \<and>
      1 \<le> concurrency r \<and> (ts \<noteq> [] \<longrightarrow> concurrency r \<le> length ts) \<and>
      (1 \<le> conc \<and> (conc \<le> int (length ts) \<or> ts = []) \<longrightarrow> int (concurrency r) = conc) \<and>
      results_cap r = 2 * length ts + 1"
    if "New k cfg ts iv0 conc opts = Some r" for r
  proof -
    have opts: "set opts \<subseteq> range WithShutdownGrace" using assms by (simp add: args_ok_def)
    note f = New_fields [OF that opts]
    have es: "list_all2 (\<lambda>t e. new_entry iv0 t = Some e) ts (entries r)"
      using those_SomeD [OF f(2)] by (simp add: list.rel_map)
    have each: "ent_t e = t \<and> ent_interval e = (if Interval t \<le> 0 then iv0 else Interval t) \<and> 0 < ent_interval e \<and>
        ent_phase e = uint (fnv1a64 (URL t)) mod ent_interval e"
      if "new_entry iv0 t = Some e" "t \<in> set ts" for t e
      using new_entry_ok(1,2) [OF that(1) True] new_entry_fields [OF that(1) True] assms that(2)
      by (simp add: args_ok_def wf_entry_def)
    have len: "length (entries r) = length ts" using es by (auto dest: list_all2_lengthD)
    have nth: "new_entry iv0 (ts ! i) = Some (entries r ! i)" if "i < length ts" for i
      using es that by (simp add: list_all2_conv_all_nth)
    have "map ent_t (entries r) = ts"
      using each [OF nth] len by (intro nth_equalityI) simp_all
    moreover have "ent_interval e = (if Interval (ent_t e) \<le> 0 then iv0 else Interval (ent_t e)) \<and> 0 < ent_interval e \<and>
        ent_phase e = uint (fnv1a64 (URL (ent_t e))) mod ent_interval e" if "e \<in> set (entries r)" for e
    proof -
      obtain i where "i < length ts" "e = entries r ! i" using \<open>e \<in> set (entries r)\<close> len by (metis in_set_conv_nth)
      then show ?thesis using each [OF nth [of i]] by simp
    qed
    moreover have "int (clamp_concurrency conc (length ts)) = conc" if "1 \<le> conc" "conc \<le> int (length ts) \<or> ts = []"
      using that by (auto simp: clamp_concurrency_def Let_def)
    ultimately show ?thesis using f(4,7) clamp_bounds(1) [of conc "length ts"] clamp_bounds(2) [of "length ts" conc] True by simp
  qed
  then show ?thesis using New_total [OF assms True, of k cfg conc] True by auto
qed (simp add: New_def)

theorem New_contract_witness:
  "New demo_sdk \<lparr>CfgSource = ''d'', CfgType = []\<rparr> [demo_target 0] 0 1 [] = None \<and>
   (\<exists>r. New demo_sdk \<lparr>CfgSource = ''d'', CfgType = []\<rparr> [demo_target 0] 10 9 [] = Some r \<and> concurrency r = 1)"
proof -
  have a: "args_ok [demo_target 0] iv []" if "iv \<le> 10" for iv
    using that by (simp add: args_ok_def max64_def demo_target_def)
  have "New demo_sdk \<lparr>CfgSource = ''d'', CfgType = []\<rparr> [demo_target 0] 10 9 [] \<noteq> None"
    using New_contract [OF a [of 10], of demo_sdk "\<lparr>CfgSource = ''d'', CfgType = []\<rparr>" 9] by simp
  then show ?thesis
    using New_contract [OF a [of 10], of demo_sdk "\<lparr>CfgSource = ''d'', CfgType = []\<rparr>" 9]
      New_contract [OF a [of 0], of demo_sdk "\<lparr>CfgSource = ''d'', CfgType = []\<rparr>" 1] by fastforce
qed

text \<open>
  Run is single-use, and a rejected event config starts nothing. The first call on a Runner from New
  either starts the system, or, when NewEncoder rejected the config, returns an error that wraps
  NewEncoder's with Results() closed. Every later call on that Runner returns an error and changes
  nothing; no call panics.
\<close>

theorem Run_contract:
  assumes "New k cfg ts iv0 conc opts = Some r" "set opts \<subseteq> range WithShutdownGrace"
  shows "(case NewEncoder k cfg of
      Inl err \<Rightarrow> (\<exists>r'. Run r ctx = Inl (Errorf ''runner: event config: %w'' [err], Some r') \<and> results_closed r' \<and>
        (\<forall>ctx'. \<exists>err'. Run r' ctx' = Inl (err', Some r')))
    | Inr e \<Rightarrow> (\<exists>s. Run r ctx = Inr s \<and> spc s = SInit \<and> length (workers s) = concurrency r \<and> enc s = Some e \<and>
        (\<forall>ctx'. \<exists>err'. Run (runner.truncate s) ctx' = Inl (err', Some (runner.truncate s)))))"
  using New_fields [OF assms] by (cases "NewEncoder k cfg") (auto simp: Run_def launch_def runner.defs)

theorem Run_contract_witness:
  "\<exists>r r' err. New demo_sdk \<lparr>CfgSource = [], CfgType = []\<rparr> [demo_target 0] 10 1 [] = Some r \<and>
    Run r None = Inl (err, Some r') \<and> results_closed r'"
proof -
  have "args_ok [demo_target 0] 10 []" by (simp add: args_ok_def max64_def demo_target_def)
  then obtain r where r: "New demo_sdk \<lparr>CfgSource = [], CfgType = []\<rparr> [demo_target 0] 10 1 [] = Some r"
    using New_total [of "[demo_target 0]" 10] by force
  have "case NewEncoder demo_sdk \<lparr>CfgSource = [], CfgType = []\<rparr> of Inl _ \<Rightarrow> True | Inr _ \<Rightarrow> False" by code_simp
  then have "\<exists>err. NewEncoder demo_sdk \<lparr>CfgSource = [], CfgType = []\<rparr> = Inl err" by (simp split: sum.splits)
  then show ?thesis using Run_contract [OF r, of None] r by auto
qed

end
