(* ===== verification/CliRun.thy ===== *)
theory CliRun
  imports Cli RunnerNew Sink
begin

text \<open>
  cmd/descry/main.go: \<open>run\<close> from the command line to the exit code, with package flag's parser
  and \<open>net.SplitHostPort\<close> written out. The result is the exit code and the list of what the
  process does, in order; None is a panic. What the outside answers (the config file, the bind, the
  registry, the sink file, Run, the admin server, Close) is a record of arguments.
\<close>

section \<open>Package flag\<close>

record flags =
  flConfig :: string
  flSink :: string
  flFile :: string
  flVersion :: bool
  flListen :: string
  flPerTarget :: bool
  flVisited :: "string set"

definition no_flags :: flags where
  "no_flags = \<lparr>flConfig = [], flSink = [], flFile = [], flVersion = False, flListen = [], flPerTarget = True, flVisited = {}\<rparr>"

datatype flag_result = FlagsOk flags | FlagHelp | FlagError

definition parse_bool :: "string \<Rightarrow> bool option" where
  "parse_bool s =
     (if s \<in> {''1'', ''t'', ''T'', ''TRUE'', ''true'', ''True''} then Some True
      else if s \<in> {''0'', ''f'', ''F'', ''FALSE'', ''false'', ''False''} then Some False
      else None)"

definition is_bool_flag :: "string \<Rightarrow> bool" where
  "is_bool_flag name \<longleftrightarrow> name = ''version'' \<or> name = ''metrics-per-target''"

text \<open>Setting a defined flag; None is a value the flag rejects.\<close>

definition set_flag :: "string \<Rightarrow> string \<Rightarrow> flags \<Rightarrow> flags option" where
  "set_flag name value fl =
     map_option (\<lambda>fl. fl\<lparr>flVisited := insert name (flVisited fl)\<rparr>)
       (if name = ''config'' then Some (fl\<lparr>flConfig := value\<rparr>)
        else if name = ''sink'' then Some (fl\<lparr>flSink := value\<rparr>)
        else if name = ''file'' then Some (fl\<lparr>flFile := value\<rparr>)
        else if name = ''listen'' then Some (fl\<lparr>flListen := value\<rparr>)
        else if name = ''version'' then map_option (\<lambda>b. fl\<lparr>flVersion := b\<rparr>) (parse_bool value)
        else map_option (\<lambda>b. fl\<lparr>flPerTarget := b\<rparr>) (parse_bool value))"

definition is_flag :: "string \<Rightarrow> bool" where
  "is_flag name \<longleftrightarrow> name \<in> {''config'', ''sink'', ''file'', ''listen''} \<or> is_bool_flag name"

text \<open>
  One argument that starts with a dash, without its dashes: the name up to an equals sign that is
  not first, and the value after it.
\<close>

definition split_flag :: "string \<Rightarrow> string \<times> string option" where
  "split_flag s =
     (let r = tl s in if CHR ''='' \<in> set r then (hd s # before CHR ''='' r, Some (after CHR ''='' r)) else (s, None))"

function parse_flags :: "flags \<Rightarrow> string list \<Rightarrow> flag_result" where
  "parse_flags fl [] = FlagsOk fl"
| "parse_flags fl (s # args) =
     (if length s < 2 \<or> hd s \<noteq> CHR ''-'' then FlagsOk fl
      else if s = ''--'' then FlagsOk fl
      else let arg = (if s ! 1 = CHR ''-'' then drop 2 s else drop 1 s)
           in if arg = [] \<or> hd arg = CHR ''-'' \<or> hd arg = CHR ''='' then FlagError
              else (case split_flag arg of (name, value) \<Rightarrow>
                 if \<not> is_flag name then (if name = ''help'' \<or> name = ''h'' then FlagHelp else FlagError)
                 else if is_bool_flag name then
                   (case set_flag name (case value of Some v \<Rightarrow> v | None \<Rightarrow> ''true'') fl of
                      None \<Rightarrow> FlagError | Some fl' \<Rightarrow> parse_flags fl' args)
                 else (case value of
                     Some v \<Rightarrow> (case set_flag name v fl of None \<Rightarrow> FlagError | Some fl' \<Rightarrow> parse_flags fl' args)
                   | None \<Rightarrow>
                       (case args of [] \<Rightarrow> FlagError
                        | v # args' \<Rightarrow> (case set_flag name v fl of None \<Rightarrow> FlagError | Some fl' \<Rightarrow> parse_flags fl' args')))))"
  by pat_completeness auto
termination by (relation "measure (\<lambda>(fl, args). length args)") auto

lemma parse_flags_examples:
  "parse_flags no_flags [''--config'', ''c.yaml'', ''-sink=file'', ''--metrics-per-target=false'', ''x'', ''-h''] =
     FlagsOk \<lparr>flConfig = ''c.yaml'', flSink = ''file'', flFile = [], flVersion = False, flListen = [],
       flPerTarget = False, flVisited = {''config'', ''sink'', ''metrics-per-target''}\<rparr>"
  "parse_flags no_flags [''-h''] = FlagHelp" "parse_flags no_flags [''--bogus''] = FlagError"
  "parse_flags no_flags [''--config''] = FlagError" "parse_flags no_flags [''--version=no''] = FlagError"
  by code_simp+

section \<open>net.SplitHostPort\<close>

definition SplitHostPort :: "string \<Rightarrow> (string \<times> string) option" where
  "SplitHostPort hostport =
     (if CHR '':'' \<notin> set hostport then None
      else let pre = before_last CHR '':'' hostport; port = after_last CHR '':'' hostport
           in if hd hostport = CHR ''['' then
                (if CHR '']'' \<notin> set hostport \<or> before CHR '']'' hostport @ '']'' \<noteq> pre then None
                 else let host = tl (before CHR '']'' hostport)
                      in if CHR ''['' \<in> set (tl hostport) \<or> CHR '']'' \<in> set port then None else Some (host, port))
              else if CHR '':'' \<in> set pre \<or> CHR ''['' \<in> set hostport \<or> CHR '']'' \<in> set hostport then None
              else Some (pre, port))"

text \<open>The check of \<open>--listen\<close>: a port that is a number from 0 to 65535.\<close>

definition listen_ok :: "string \<Rightarrow> bool" where
  "listen_ok addr =
     (case SplitHostPort addr of None \<Rightarrow> False
      | Some (host, port) \<Rightarrow> if port = [] then False else parse_uint16 port \<noteq> None)"

lemma listen_examples:
  "listen_ok ''127.0.0.1:9090''" "listen_ok '':0''" "listen_ok ''[::1]:80''" "\<not> listen_ok ''127.0.0.1:''"
  "\<not> listen_ok ''::1:80''" "\<not> listen_ok ''h:65536''" "\<not> listen_ok ''h:http''" "\<not> listen_ok ''9090''"
  by code_simp+

section \<open>run\<close>

text \<open>What \<open>run\<close>'s own goroutine does, as far as the outside sees it (the others are in theory Program).\<close>

datatype effect =
    Usage                 \<comment> \<open>usage printed by package flag\<close>
  | PrintVersion
  | WarnNoListen          \<comment> \<open>--metrics-per-target without --listen\<close>
  | ErrorLine             \<comment> \<open>an error line on stderr\<close>
  | Bind                  \<comment> \<open>the admin listener is bound\<close>
  | OpenFile string       \<comment> \<open>the sink file is opened (or the attempt fails)\<close>
  | SetReady bool
  | RunEngine             \<comment> \<open>Run, from its call to its return\<close>
  | Drained               \<comment> \<open>the drain of Results() has ended\<close>
  | ShutdownAdmin
  | CloseFile
  | CloseListener

record ('p, 'u) run_env =
  reSdk :: "('p, 'u) sdk"
  reLoad :: "string \<Rightarrow> load_env"
  reBind :: "goerr option"
  reRegister :: "string \<Rightarrow> goerr option"
  reFile :: "string \<Rightarrow> file_env"
  reCancelled :: bool         \<comment> \<open>the context is cancelled before Run is called\<close>
  reRun :: "goerr option"     \<comment> \<open>what Run returns\<close>
  reServe :: "goerr option"   \<comment> \<open>the admin server's failure\<close>
  reClose :: "goerr option"   \<comment> \<open>what the file sink's Close returns\<close>

definition override_sink :: "flags \<Rightarrow> app_config \<Rightarrow> app_config" where
  "override_sink fl cfg =
     (let cfg = (if flSink fl \<noteq> [] then cfg\<lparr>AcSink := flSink fl\<rparr> else cfg)
      in if flFile fl \<noteq> [] then cfg\<lparr>AcFilePath := flFile fl\<rparr> else cfg)"

definition event_config :: "app_config \<Rightarrow> config" where
  "event_config cfg = \<lparr>CfgSource = AcSource cfg, CfgType = []\<rparr>"

text \<open>
  The check the runner gets: the HTTP check with its final URL sanitised, decorated by the
  collector when there is one.
\<close>

definition decorated_check ::
  "(target \<Rightarrow> observation \<times> goerr option) \<Rightarrow> time \<Rightarrow> bool \<Rightarrow> target \<Rightarrow> 's collector \<Rightarrow>
     (observation \<times> goerr option) \<times> 's collector" where
  "decorated_check inner now listening t c =
     (if listening then instrumented_Run (sanitized_Run inner) now t c else (sanitized_Run inner t, c))"

text \<open>
  From the built targets to the return: the runner, its run, the drain, the admin server's
  shutdown, then the deferred closes.
\<close>

definition run_engine :: "('p, 'u) run_env \<Rightarrow> bool \<Rightarrow> app_config \<Rightarrow> (int \<times> effect list) option" where
  "run_engine env listening cfg =
     (case New (reSdk env) (event_config cfg) (fst (buildTargets cfg)) (AcInterval cfg) (AcConcurrency cfg) [] of
        None \<Rightarrow> None
      | Some r \<Rightarrow>
          (let code = exitCodeFor (reRun env);
               err = (if code \<noteq> 0 then [ErrorLine] else []);
               code = (if listening \<and> reServe env \<noteq> None then 1 else code);
               closes = (AcSink cfg = ''file'');
               cerr = (if closes \<and> reClose env \<noteq> None then [ErrorLine] else []);
               code = (if closes \<and> reClose env \<noteq> None \<and> code = 0 then 1 else code)
           in Some (code,
                [SetReady True] @ (if reCancelled env then [SetReady False] else []) @
                [RunEngine, SetReady False, Drained] @ (if listening then [ShutdownAdmin] else []) @ err @
                (if closes then [CloseFile] else []) @ cerr @ (if listening then [CloseListener] else []))))"

text \<open>From the loaded config: the checks, the bind, the collector and the sink.\<close>

definition run_config :: "('p, 'u) run_env \<Rightarrow> flags \<Rightarrow> app_config \<Rightarrow> (int \<times> effect list) option" where
  "run_config env fl cfg0 =
     (let listening = (flListen fl \<noteq> []); cfg = override_sink fl cfg0;
          after_bind = (if listening then [Bind] else []); unbind = (if listening then [CloseListener] else [])
      in if listening \<and> flPerTarget fl \<and> \<not> fst (checkLabelCollisions (AcTargets cfg)) then Some (2, [ErrorLine])
         else if ValidateSink (AcSink cfg) (AcFilePath cfg) \<noteq> None then Some (2, [ErrorLine])
         else case NewEncoder (reSdk env) (event_config cfg) of Inl err \<Rightarrow> Some (2, [ErrorLine])
         | Inr e \<Rightarrow>
             if listening \<and> reBind env \<noteq> None then Some (1, [ErrorLine])
             else if listening \<and> (case NewCollector (reRegister env)
                 \<lparr>OptVersion = ''dev'', OptCommit = ''none'', DisablePerTarget = \<not> flPerTarget fl, ResultErrors = Some dr_failures\<rparr> of
                   Inl err \<Rightarrow> True | Inr (c :: drain collector) \<Rightarrow> False)
               then Some (1, after_bind @ [ErrorLine] @ unbind)
             else if AcSink cfg = ''file'' then
               (case NewFileSink (reFile env (AcFilePath cfg)) [] of
                  Inl err \<Rightarrow> Some (2, after_bind @ [OpenFile (AcFilePath cfg), ErrorLine] @ unbind)
                | Inr s \<Rightarrow> map_option (apsnd (\<lambda>es. after_bind @ OpenFile (AcFilePath cfg) # es)) (run_engine env listening cfg))
             else map_option (apsnd (\<lambda>es. after_bind @ es)) (run_engine env listening cfg))"

definition run :: "('p, 'u) run_env \<Rightarrow> string list \<Rightarrow> (int \<times> effect list) option" where
  "run env args =
     (case parse_flags no_flags args of
        FlagHelp \<Rightarrow> Some (0, [Usage])
      | FlagError \<Rightarrow> Some (2, [ErrorLine, Usage])
      | FlagsOk fl \<Rightarrow>
          if flVersion fl then Some (0, [PrintVersion])
          else let warn = (if flListen fl = [] \<and> ''metrics-per-target'' \<in> flVisited fl then [WarnNoListen] else [])
               in map_option (apsnd ((@) warn))
                 (if flConfig fl = [] then Some (2, [ErrorLine])
                  else if flListen fl \<noteq> [] \<and> \<not> listen_ok (flListen fl) then Some (2, [ErrorLine])
                  else case Load (reLoad env (flConfig fl)) of
                         Inl err \<Rightarrow> Some (2, [ErrorLine])
                       | Inr cfg \<Rightarrow> run_config env fl cfg))"

section \<open>The engine behind a valid config\<close>

lemma built_targets: "fst (buildTargets cfg) = map built_target (AcTargets cfg)"
  using build_all_inv [of "AcTargets cfg" cfg] by (simp add: buildTargets_all build_inv_def)

text \<open>A config that Load accepted never makes \<open>runner.New\<close> panic.\<close>

lemma built_args_ok:
  assumes "wf_config cfg"
  shows "args_ok (fst (buildTargets cfg)) (AcInterval cfg) []"
proof -
  note t = built_targets [of cfg]
  have "Interval (built_target t) \<le> max64" if "t \<in> set (AcTargets cfg)" for t
    using assms that by (auto simp: wf_config_def wf_target_def built_target_def list_all_iff max64_def)
  then show ?thesis using assms t by (auto simp: args_ok_def wf_config_def)
qed

lemma override_wf:
  assumes "wf_config cfg" "ValidateSink (AcSink (override_sink fl cfg)) (AcFilePath (override_sink fl cfg)) = None"
  shows "wf_config (override_sink fl cfg)"
proof -
  have "AcSource (override_sink fl cfg) = AcSource cfg" "AcInterval (override_sink fl cfg) = AcInterval cfg"
    "AcTimeout (override_sink fl cfg) = AcTimeout cfg" "AcConcurrency (override_sink fl cfg) = AcConcurrency cfg"
    "AcTargets (override_sink fl cfg) = AcTargets cfg"
    by (simp_all add: override_sink_def Let_def)
  then show ?thesis using assms by (simp add: wf_config_def ValidateSink_None)
qed

definition final_code :: "('p, 'u) run_env \<Rightarrow> bool \<Rightarrow> bool \<Rightarrow> int" where
  "final_code env listening closes =
     (if exitCodeFor (reRun env) = 0 \<and> \<not> (listening \<and> reServe env \<noteq> None) \<and> \<not> (closes \<and> reClose env \<noteq> None)
      then 0 else 1)"

definition engine_effects :: "('p, 'u) run_env \<Rightarrow> bool \<Rightarrow> bool \<Rightarrow> effect list" where
  "engine_effects env listening closes =
     [SetReady True] @ (if reCancelled env then [SetReady False] else []) @ [RunEngine, SetReady False, Drained] @
     (if listening then [ShutdownAdmin] else []) @ (if exitCodeFor (reRun env) \<noteq> 0 then [ErrorLine] else []) @
     (if closes then [CloseFile] else []) @ (if closes \<and> reClose env \<noteq> None then [ErrorLine] else []) @
     (if listening then [CloseListener] else [])"

lemma run_engine_total:
  assumes "wf_config cfg"
  shows "run_engine env listening cfg =
    Some (final_code env listening (AcSink cfg = ''file''), engine_effects env listening (AcSink cfg = ''file''))"
proof -
  have "0 < AcInterval cfg" using assms by (simp add: wf_config_def MinInterval_def Millisecond_def)
  then obtain r where "New (reSdk env) (event_config cfg) (fst (buildTargets cfg)) (AcInterval cfg) (AcConcurrency cfg) [] = Some r"
    using New_total [OF built_args_ok [OF assms]] by blast
  then show ?thesis
    by (auto simp: run_engine_def final_code_def engine_effects_def Let_def exitCodeFor_def split: option.splits)
qed

section \<open>The documented exit codes\<close>

text \<open>
  What the table of exit codes (the comment on \<open>run\<close>, OPERATIONS.md) names: a config that is
  usable once loaded, the failures at the bind, at the collector and at the opening of the sink, and an
  end of the run with nothing to report.
\<close>

definition config_ok :: "('p, 'u) run_env \<Rightarrow> flags \<Rightarrow> app_config \<Rightarrow> bool" where
  "config_ok env fl cfg \<longleftrightarrow>
     (flListen fl = [] \<or> \<not> flPerTarget fl \<or> fst (checkLabelCollisions (AcTargets cfg))) \<and>
     ValidateSink (AcSink cfg) (AcFilePath cfg) = None \<and> (\<exists>e. NewEncoder (reSdk env) (event_config cfg) = Inr e)"

definition bind_fails :: "('p, 'u) run_env \<Rightarrow> flags \<Rightarrow> bool" where
  "bind_fails env fl \<longleftrightarrow> flListen fl \<noteq> [] \<and> reBind env \<noteq> None"

definition collector_fails :: "('p, 'u) run_env \<Rightarrow> flags \<Rightarrow> bool" where
  "collector_fails env fl \<longleftrightarrow> flListen fl \<noteq> [] \<and>
     (case NewCollector (reRegister env)
        \<lparr>OptVersion = ''dev'', OptCommit = ''none'', DisablePerTarget = \<not> flPerTarget fl, ResultErrors = Some dr_failures\<rparr> of
        Inl err \<Rightarrow> True | Inr (c :: drain collector) \<Rightarrow> False)"

definition open_fails :: "('p, 'u) run_env \<Rightarrow> app_config \<Rightarrow> bool" where
  "open_fails env cfg \<longleftrightarrow> AcSink cfg = ''file'' \<and> (\<exists>err. NewFileSink (reFile env (AcFilePath cfg)) [] = Inl err)"

definition starts :: "('p, 'u) run_env \<Rightarrow> flags \<Rightarrow> app_config \<Rightarrow> bool" where
  "starts env fl cfg \<longleftrightarrow> \<not> bind_fails env fl \<and> \<not> collector_fails env fl \<and> \<not> open_fails env cfg"

definition clean_run :: "('p, 'u) run_env \<Rightarrow> flags \<Rightarrow> app_config \<Rightarrow> bool" where
  "clean_run env fl cfg \<longleftrightarrow>
     (\<forall>err. reRun env = Some err \<longrightarrow> errors_is err context_Canceled) \<and>
     (flListen fl = [] \<or> reServe env = None) \<and> (AcSink cfg \<noteq> ''file'' \<or> reClose env = None)"

text \<open>
  The command line asks for a run and its config is usable: \<open>cfg\<close> is the loaded config under
  the flags' overrides. The usage and config errors of the table are the other ways to ask for a run.
\<close>

definition accepted :: "('p, 'u) run_env \<Rightarrow> string list \<Rightarrow> flags \<Rightarrow> app_config \<Rightarrow> bool" where
  "accepted env args fl cfg \<longleftrightarrow> parse_flags no_flags args = FlagsOk fl \<and> \<not> flVersion fl \<and> flConfig fl \<noteq> [] \<and>
     (flListen fl = [] \<or> listen_ok (flListen fl)) \<and>
     (\<exists>cfg0. Load (reLoad env (flConfig fl)) = Inr cfg0 \<and> cfg = override_sink fl cfg0) \<and> config_ok env fl cfg"

definition usage_or_config_error :: "('p, 'u) run_env \<Rightarrow> string list \<Rightarrow> bool" where
  "usage_or_config_error env args \<longleftrightarrow> parse_flags no_flags args = FlagError \<or>
     (\<exists>fl. parse_flags no_flags args = FlagsOk fl \<and> \<not> flVersion fl \<and>
       (flConfig fl = [] \<or> flListen fl \<noteq> [] \<and> \<not> listen_ok (flListen fl) \<or>
        (\<exists>err. Load (reLoad env (flConfig fl)) = Inl err) \<or>
        (\<exists>cfg0. Load (reLoad env (flConfig fl)) = Inr cfg0 \<and> \<not> config_ok env fl (override_sink fl cfg0))))"

definition asks_only :: "string list \<Rightarrow> bool" where
  "asks_only args \<longleftrightarrow> parse_flags no_flags args = FlagHelp \<or>
     (\<exists>fl. parse_flags no_flags args = FlagsOk fl \<and> flVersion fl)"

lemma final_clean: "final_code env (flListen fl \<noteq> []) (AcSink cfg = ''file'') = (if clean_run env fl cfg then 0 else 1)"
  by (auto simp: final_code_def clean_run_def exitCodeFor_def split: option.splits)

section \<open>The ways \<open>run\<close> ends\<close>

text \<open>With a loaded config: refused, failed at the bind, the collector or the sink, or after the engine ran.\<close>

inductive outcome :: "('p, 'u) run_env \<Rightarrow> flags \<Rightarrow> app_config \<Rightarrow> int \<Rightarrow> effect list \<Rightarrow> bool" for env fl cfg where
  config_error: "\<not> config_ok env fl cfg \<Longrightarrow> outcome env fl cfg 2 [ErrorLine]"
| bind_error: "config_ok env fl cfg \<Longrightarrow> bind_fails env fl \<Longrightarrow> outcome env fl cfg 1 [ErrorLine]"
| collector_error: "config_ok env fl cfg \<Longrightarrow> \<not> bind_fails env fl \<Longrightarrow> collector_fails env fl \<Longrightarrow>
    outcome env fl cfg 1 [Bind, ErrorLine, CloseListener]"
| open_error: "config_ok env fl cfg \<Longrightarrow> \<not> bind_fails env fl \<Longrightarrow> \<not> collector_fails env fl \<Longrightarrow> open_fails env cfg \<Longrightarrow>
    outcome env fl cfg 2 ((if flListen fl \<noteq> [] then [Bind] else []) @ [OpenFile (AcFilePath cfg), ErrorLine] @
      (if flListen fl \<noteq> [] then [CloseListener] else []))"
| ran: "config_ok env fl cfg \<Longrightarrow> starts env fl cfg \<Longrightarrow>
    outcome env fl cfg (final_code env (flListen fl \<noteq> []) (AcSink cfg = ''file''))
      ((if flListen fl \<noteq> [] then [Bind] else []) @ (if AcSink cfg = ''file'' then [OpenFile (AcFilePath cfg)] else []) @
       engine_effects env (flListen fl \<noteq> []) (AcSink cfg = ''file''))"

lemma run_config_outcome:
  assumes "wf_config cfg0"
  shows "\<exists>code es. run_config env fl cfg0 = Some (code, es) \<and> outcome env fl (override_sink fl cfg0) code es"
proof -
  let ?cfg = "override_sink fl cfg0"
  let ?L = "flListen fl \<noteq> []"
  let ?N = "NewCollector (reRegister env)
     \<lparr>OptVersion = ''dev'', OptCommit = ''none'', DisablePerTarget = \<not> flPerTarget fl, ResultErrors = Some dr_failures\<rparr> :: goerr + drain collector"
  note defs = run_config_def Let_def
  consider (early) "\<not> config_ok env fl ?cfg" "run_config env fl cfg0 = Some (2, [ErrorLine])"
    | (go) e where "ValidateSink (AcSink ?cfg) (AcFilePath ?cfg) = None" "NewEncoder (reSdk env) (event_config ?cfg) = Inr e"
        "\<not> (?L \<and> flPerTarget fl \<and> \<not> fst (checkLabelCollisions (AcTargets ?cfg)))"
    by (cases "?L \<and> flPerTarget fl \<and> \<not> fst (checkLabelCollisions (AcTargets ?cfg))";
        cases "ValidateSink (AcSink ?cfg) (AcFilePath ?cfg)"; cases "NewEncoder (reSdk env) (event_config ?cfg)")
       (auto simp: defs config_ok_def)
  then show ?thesis
  proof cases
    case early
    then show ?thesis using config_error by blast
  next
    case go
    then have ok: "config_ok env fl ?cfg" by (auto simp: config_ok_def)
    note e = run_engine_total [OF override_wf [OF assms go(1)], of env ?L]
    note eval = defs go if_False if_True sum.case simp_thms
    show ?thesis
    proof (cases "?L \<and> reBind env \<noteq> None")
      case True
      then have p: "\<not> (flPerTarget fl \<and> \<not> fst (checkLabelCollisions (AcTargets ?cfg)))" using go(3) by blast
      from True have "run_config env fl cfg0 = Some (1, [ErrorLine])" by (simp only: eval p)
      then show ?thesis using bind_error [OF ok] True unfolding bind_fails_def by blast
    next
      case nb: False
      show ?thesis
      proof (cases "?L \<and> (case ?N of Inl err \<Rightarrow> True | Inr c \<Rightarrow> False)")
        case True
        then have p: "\<not> (flPerTarget fl \<and> \<not> fst (checkLabelCollisions (AcTargets ?cfg)))" "reBind env = None"
          using go(3) nb by blast+
        from True have r: "run_config env fl cfg0 = Some (1, [Bind, ErrorLine, CloseListener])"
          by (simp only: eval p append.simps)
        have "\<not> bind_fails env fl" using nb by (simp add: bind_fails_def)
        moreover have "collector_fails env fl" using True by (auto simp: collector_fails_def split: sum.splits)
        ultimately show ?thesis using collector_error [OF ok] r by blast
      next
        case nc: False
        have nf: "\<not> bind_fails env fl" "\<not> collector_fails env fl"
          using nb nc by (simp_all add: bind_fails_def collector_fails_def)
        show ?thesis
        proof (cases "AcSink ?cfg = ''file''")
          case isfile: True
          show ?thesis
          proof (cases "NewFileSink (reFile env (AcFilePath ?cfg)) []")
            case (Inl err)
            then have "run_config env fl cfg0 = Some (2, (if ?L then [Bind] else []) @
                [OpenFile (AcFilePath ?cfg), ErrorLine] @ (if ?L then [CloseListener] else []))"
              by (simp only: eval nb nc isfile go(1) [unfolded isfile])
            then show ?thesis using open_error [OF ok nf] Inl isfile unfolding open_fails_def by blast
          next
            case (Inr s)
            then have "run_config env fl cfg0 = Some (final_code env ?L True,
                (if ?L then [Bind] else []) @ OpenFile (AcFilePath ?cfg) # engine_effects env ?L True)"
              by (simp only: eval nb nc isfile go(1) [unfolded isfile] e option.map prod.case apsnd_conv)
            then show ?thesis using ran [OF ok] nf Inr isfile by (auto simp: starts_def open_fails_def)
          qed
        next
          case False
          then have "run_config env fl cfg0 = Some (final_code env ?L False,
              (if ?L then [Bind] else []) @ engine_effects env ?L False)"
            by (simp only: eval nb nc e option.map prod.case apsnd_conv)
          then show ?thesis using ran [OF ok] nf False by (auto simp: starts_def open_fails_def)
        qed
      qed
    qed
  qed
qed

text \<open>The whole of \<open>run\<close>: usage and version, an error before the config is loaded, or an outcome.\<close>

lemma run_cases:
  obtains (usage) "parse_flags no_flags args = FlagHelp" "run env args = Some (0, [Usage])"
  | (bad_flag) "parse_flags no_flags args = FlagError" "run env args = Some (2, [ErrorLine, Usage])"
  | (version) fl where "parse_flags no_flags args = FlagsOk fl" "flVersion fl" "run env args = Some (0, [PrintVersion])"
  | (early) fl warn where "parse_flags no_flags args = FlagsOk fl" "\<not> flVersion fl"
      "flConfig fl = [] \<or> flListen fl \<noteq> [] \<and> \<not> listen_ok (flListen fl) \<or> (\<exists>err. Load (reLoad env (flConfig fl)) = Inl err)"
      "warn \<in> {[], [WarnNoListen]}" "run env args = Some (2, warn @ [ErrorLine])"
  | (loaded) fl cfg warn code es where "parse_flags no_flags args = FlagsOk fl" "\<not> flVersion fl" "flConfig fl \<noteq> []"
      "flListen fl = [] \<or> listen_ok (flListen fl)" "Load (reLoad env (flConfig fl)) = Inr cfg"
      "warn \<in> {[], [WarnNoListen]}" "outcome env fl (override_sink fl cfg) code es" "run env args = Some (code, warn @ es)"
proof (cases "parse_flags no_flags args")
  case (FlagsOk fl)
  define warn where "warn = (if flListen fl = [] \<and> ''metrics-per-target'' \<in> flVisited fl then [WarnNoListen] else [])"
  have w: "warn \<in> {[], [WarnNoListen]}" by (simp add: warn_def)
  show ?thesis
  proof (cases "flVersion fl")
    case True
    then show ?thesis using version [OF FlagsOk] by (simp add: run_def FlagsOk)
  next
    case nv: False
    show ?thesis
    proof (cases "flConfig fl = [] \<or> flListen fl \<noteq> [] \<and> \<not> listen_ok (flListen fl)")
      case True
      then have "run env args = Some (2, warn @ [ErrorLine])" using FlagsOk nv by (auto simp: run_def warn_def)
      then show ?thesis using early [OF FlagsOk nv _ w] True by blast
    next
      case ok: False
      show ?thesis
      proof (cases "Load (reLoad env (flConfig fl))")
        case (Inl err)
        then have "run env args = Some (2, warn @ [ErrorLine])" using FlagsOk nv ok by (auto simp: run_def warn_def)
        then show ?thesis using early [OF FlagsOk nv _ w] Inl by blast
      next
        case (Inr cfg)
        then have "wf_config cfg" using config_of_wf by (auto simp: Load_eq)
        from run_config_outcome [OF this, of env fl]
        obtain code es where c: "run_config env fl cfg = Some (code, es)" "outcome env fl (override_sink fl cfg) code es"
          by blast
        have "run env args = Some (code, warn @ es)" using FlagsOk nv ok Inr c(1) by (auto simp: run_def warn_def)
        then show ?thesis using loaded [OF FlagsOk nv _ _ Inr w c(2)] ok by blast
      qed
    qed
  qed
next
  case FlagHelp
  then show ?thesis using usage [OF FlagHelp] by (simp add: run_def)
next
  case FlagError
  then show ?thesis using bad_flag [OF FlagError] by (simp add: run_def)
qed

text \<open>No \<open>x\<close> after a \<open>y\<close>.\<close>

fun precedes :: "'a \<Rightarrow> 'a \<Rightarrow> 'a list \<Rightarrow> bool" where
  "precedes x y [] = True"
| "precedes x y (z # zs) = ((if z = y then x \<notin> set zs else True) \<and> precedes x y zs)"

lemma precedes_append [simp]:
  "precedes x y (xs @ ys) = (precedes x y xs \<and> precedes x y ys \<and> (if y \<in> set xs then x \<notin> set ys else True))"
  by (induction xs) auto

text \<open>Only an accepted command line has a config to run, and then one.\<close>

lemma accepted_iff:
  assumes "parse_flags no_flags args = FlagsOk fl" "\<not> flVersion fl" "flConfig fl \<noteq> []"
    "flListen fl = [] \<or> listen_ok (flListen fl)" "Load (reLoad env (flConfig fl)) = Inr cfg"
  shows "accepted env args fl' cfg' \<longleftrightarrow> fl' = fl \<and> cfg' = override_sink fl cfg \<and> config_ok env fl cfg'"
    "usage_or_config_error env args \<longleftrightarrow> \<not> config_ok env fl (override_sink fl cfg)" "\<not> asks_only args"
  using assms by (auto simp: accepted_def usage_or_config_error_def asks_only_def)

text \<open>The exit code and the effects that go with it, for one outcome.\<close>

definition code_spec :: "('p, 'u) run_env \<Rightarrow> string list \<Rightarrow> int \<Rightarrow> effect list \<Rightarrow> bool" where
  "code_spec env args code es \<longleftrightarrow>
     (code = 0 \<longleftrightarrow> asks_only args \<or> (\<exists>fl cfg. accepted env args fl cfg \<and> starts env fl cfg \<and> clean_run env fl cfg)) \<and>
     (code = 1 \<longleftrightarrow> (\<exists>fl cfg. accepted env args fl cfg \<and>
        (bind_fails env fl \<or> collector_fails env fl \<or> starts env fl cfg \<and> \<not> clean_run env fl cfg))) \<and>
     (code = 2 \<longleftrightarrow> usage_or_config_error env args \<or> (\<exists>fl cfg. accepted env args fl cfg \<and>
        \<not> bind_fails env fl \<and> \<not> collector_fails env fl \<and> open_fails env cfg)) \<and>
     (RunEngine \<in> set es \<longleftrightarrow> (\<exists>fl cfg. accepted env args fl cfg \<and> starts env fl cfg)) \<and>
     (\<forall>p. OpenFile p \<in> set es \<longleftrightarrow> (\<exists>fl cfg. accepted env args fl cfg \<and>
        \<not> bind_fails env fl \<and> \<not> collector_fails env fl \<and> AcSink cfg = ''file'' \<and> p = AcFilePath cfg)) \<and>
     (code = 0 \<or> RunEngine \<in> set es \<or> ErrorLine \<in> set es)"

lemma engine_effects_set:
  "OpenFile p \<notin> set (engine_effects env listening closes)" "RunEngine \<in> set (engine_effects env listening closes)"
  by (auto simp: engine_effects_def)

lemma outcome_code:
  assumes "parse_flags no_flags args = FlagsOk fl" "\<not> flVersion fl" "flConfig fl \<noteq> []"
    "flListen fl = [] \<or> listen_ok (flListen fl)" "Load (reLoad env (flConfig fl)) = Inr cfg"
    and w: "warn \<in> {[], [WarnNoListen]}" and o: "outcome env fl (override_sink fl cfg) code es"
  shows "code_spec env args code (warn @ es)"
proof -
  note acc = accepted_iff [OF assms(1-5)]
  from o show ?thesis
  proof cases
    case open_error
    then have "AcSink (override_sink fl cfg) = ''file''" by (simp add: open_fails_def)
    then show ?thesis using w open_error by (auto simp: code_spec_def acc starts_def)
  next
    case ran
    then show ?thesis using w by (auto simp: code_spec_def acc final_clean engine_effects_set starts_def split: if_splits)
  qed (use w in \<open>auto simp: code_spec_def acc starts_def\<close>)
qed

text \<open>
  C22: the exit code is the documented one on every path. \<open>run\<close> never panics (a loaded config
  always satisfies \<open>runner.New\<close>). It exits with 0 exactly for help, the version, and a run that ended
  without an error or by cancellation, whose admin server (if any) and whose sink file's Close (if any) did not
  fail; with 1 exactly when, on a usable config, the bind or the collector failed, or a run was made and one of
  the three failed; with 2 exactly for a usage error (a bad flag, no config, a bad listen address), a config that
  does not load, colliding labels of served series, a bad sink setting or event source, or a sink file that cannot
  be opened. The engine runs exactly when nothing failed before it, the sink file is touched only once the
  listener is bound and the collector built, and a code other than 0 without a run comes with an error line.
\<close>

theorem run_exit_code:
  "\<exists>code es. run env args = Some (code, es) \<and>
     (code = 0 \<longleftrightarrow> asks_only args \<or> (\<exists>fl cfg. accepted env args fl cfg \<and> starts env fl cfg \<and> clean_run env fl cfg)) \<and>
     (code = 1 \<longleftrightarrow> (\<exists>fl cfg. accepted env args fl cfg \<and>
        (bind_fails env fl \<or> collector_fails env fl \<or> starts env fl cfg \<and> \<not> clean_run env fl cfg))) \<and>
     (code = 2 \<longleftrightarrow> usage_or_config_error env args \<or> (\<exists>fl cfg. accepted env args fl cfg \<and>
        \<not> bind_fails env fl \<and> \<not> collector_fails env fl \<and> open_fails env cfg)) \<and>
     (RunEngine \<in> set es \<longleftrightarrow> (\<exists>fl cfg. accepted env args fl cfg \<and> starts env fl cfg)) \<and>
     (\<forall>p. OpenFile p \<in> set es \<longleftrightarrow> (\<exists>fl cfg. accepted env args fl cfg \<and>
        \<not> bind_fails env fl \<and> \<not> collector_fails env fl \<and> AcSink cfg = ''file'' \<and> p = AcFilePath cfg)) \<and>
     (code = 0 \<or> RunEngine \<in> set es \<or> ErrorLine \<in> set es)"
proof -
  have "\<exists>code es. run env args = Some (code, es) \<and> code_spec env args code es"
  proof (cases rule: run_cases [of args env])
    case (early fl warn)
    then have "usage_or_config_error env args" "\<not> accepted env args fl' cfg" "\<not> asks_only args" for fl' cfg
      by (auto simp: usage_or_config_error_def accepted_def asks_only_def)
    then show ?thesis using early by (auto simp: code_spec_def)
  next
    case (loaded fl cfg warn code es)
    then show ?thesis using outcome_code [OF loaded(1-7)] by blast
  qed (auto simp: code_spec_def usage_or_config_error_def accepted_def asks_only_def)
  then show ?thesis unfolding code_spec_def .
qed

definition order_spec :: "effect list \<Rightarrow> bool" where
  "order_spec es \<longleftrightarrow>
     precedes (SetReady True) RunEngine es \<and> precedes (SetReady True) (SetReady False) es \<and> precedes RunEngine Drained es \<and>
     precedes Drained ShutdownAdmin es \<and> precedes ShutdownAdmin CloseFile es \<and> precedes Drained CloseFile es \<and>
     count_list es CloseFile \<le> 1 \<and>
     (\<forall>p. precedes (OpenFile p) RunEngine es \<and> precedes Bind (OpenFile p) es)"

lemma order_warn: "order_spec es \<Longrightarrow> warn \<in> {[], [WarnNoListen]} \<Longrightarrow> order_spec (warn @ es)"
  by (erule insertE) (simp_all add: order_spec_def)

lemma engine_order:
  "order_spec (engine_effects env listening closes)" "Bind \<notin> set (engine_effects env listening closes)"
  "OpenFile p \<notin> set (engine_effects env listening closes)" "CloseFile \<in> set (engine_effects env listening closes) \<longleftrightarrow> closes"
  "RunEngine \<in> set (engine_effects env listening closes)"
  by (cases listening; cases closes; cases "reCancelled env"; cases "exitCodeFor (reRun env) = 0"; cases "reClose env";
      simp add: order_spec_def engine_effects_def)+

lemma outcome_order:
  assumes "outcome env fl cfg code es"
  shows "order_spec es \<and> (CloseFile \<in> set es) = ((\<exists>p. OpenFile p \<in> set es) \<and> RunEngine \<in> set es)"
  using assms
proof (cases rule: outcome.cases)
  case ran
  have o: "order_spec (engine_effects env l c)" "order_spec (Bind # engine_effects env l c)"
      "order_spec (OpenFile p # engine_effects env l c)" "order_spec (Bind # OpenFile p # engine_effects env l c)" for l c p
    using engine_order [where env = env and listening = l and closes = c] by (simp_all add: order_spec_def)
  have "order_spec es" unfolding ran by (cases "flListen fl = []"; cases "AcSink cfg = ''file''") (simp_all add: o)
  then show ?thesis unfolding ran
    by (cases "flListen fl = []"; cases "AcSink cfg = ''file''") (auto simp: engine_order)
qed (auto simp: order_spec_def)

text \<open>
  The order of shutdown. Readiness is set before the run and cleared after it, the drain
  ends before the admin server shuts down, which happens before the sink file is closed; the file
  is opened after the listener is bound and before the run, and closed exactly once when the
  engine ran and never otherwise.
\<close>

theorem run_order:
  "\<exists>code es. run env args = Some (code, es) \<and> order_spec es \<and>
     (CloseFile \<in> set es) = ((\<exists>p. OpenFile p \<in> set es) \<and> RunEngine \<in> set es)"
proof (cases rule: run_cases [of args env])
  case (early fl warn)
  then show ?thesis by (auto simp: order_spec_def)
next
  case (loaded fl cfg warn code es)
  have "(CloseFile \<in> set (warn @ es)) = ((\<exists>p. OpenFile p \<in> set (warn @ es)) \<and> RunEngine \<in> set (warn @ es))"
    using outcome_order [OF loaded(7)] loaded(6) by auto
  then show ?thesis using order_warn [OF _ loaded(6)] outcome_order [OF loaded(7)] loaded(8) by blast
qed (auto simp: order_spec_def)

end
