(* ===== verification/HttpCheck.thy ===== *)
theory HttpCheck
  imports Ssrf Metrics
begin

text \<open>
  checks/http/http.go: the HTTP check. The network is an argument: for each request, by its number
  and URL, a transport answers with an error or with a response and the URL it redirects to. What
  net/http's client does with that (following redirects, asking CheckRedirect, wrapping errors in
  \<open>url.Error\<close>) is written out, and so is \<open>strings.ToValidUTF8\<close>.
\<close>

section \<open>strings.ToValidUTF8\<close>

definition in_bytes :: "int \<Rightarrow> int \<Rightarrow> char \<Rightarrow> bool" where
  "in_bytes lo hi c \<longleftrightarrow> lo \<le> byte_of c \<and> byte_of c \<le> hi"

text \<open>The length of the UTF-8 encoded rune at the front, zero when there is none.\<close>

definition rune_len :: "string \<Rightarrow> nat" where
  "rune_len s =
     (case s of [] \<Rightarrow> 0
      | a # r \<Rightarrow>
          if byte_of a < 0x80 then 1
          else if in_bytes 0xC2 0xDF a then (case r of b # _ \<Rightarrow> if in_bytes 0x80 0xBF b then 2 else 0 | _ \<Rightarrow> 0)
          else if in_bytes 0xE0 0xEF a then
            (case r of b # c # _ \<Rightarrow>
               if in_bytes (if byte_of a = 0xE0 then 0xA0 else 0x80) (if byte_of a = 0xED then 0x9F else 0xBF) b \<and>
                  in_bytes 0x80 0xBF c then 3 else 0
             | _ \<Rightarrow> 0)
          else if in_bytes 0xF0 0xF4 a then
            (case r of b # c # d # _ \<Rightarrow>
               if in_bytes (if byte_of a = 0xF0 then 0x90 else 0x80) (if byte_of a = 0xF4 then 0x8F else 0xBF) b \<and>
                  in_bytes 0x80 0xBF c \<and> in_bytes 0x80 0xBF d then 4 else 0
             | _ \<Rightarrow> 0)
          else 0)"

text \<open>With an empty replacement: bytes that are no part of a rune are dropped.\<close>

function to_valid_utf8 :: "string \<Rightarrow> string" where
  "to_valid_utf8 s =
     (if s = [] then []
      else let n = rune_len s
           in if n = 0 then to_valid_utf8 (tl s) else take n s @ to_valid_utf8 (drop n s))"
  by pat_completeness auto
termination by (relation "measure length") auto

declare to_valid_utf8.simps [simp del]

lemma to_valid_utf8_length: "length (to_valid_utf8 s) \<le> length s"
proof (induction s rule: to_valid_utf8.induct)
  case (1 s)
  show ?case
  proof (cases "s = []")
    case False
    show ?thesis
    proof (cases "rune_len s = 0")
      case True
      then have "length (to_valid_utf8 (tl s)) \<le> length (tl s)" using 1(1) False by simp
      then show ?thesis using True False by (subst to_valid_utf8.simps) simp
    next
      case n: False
      then have "length (to_valid_utf8 (drop (rune_len s) s)) \<le> length (drop (rune_len s) s)" using 1(2) False by simp
      then show ?thesis using n False by (subst to_valid_utf8.simps) (simp add: Let_def)
    qed
  qed (simp add: to_valid_utf8.simps)
qed

section \<open>Errors\<close>

definition syscall_ECONNREFUSED :: goerr where "syscall_ECONNREFUSED = Sentinel ''ECONNREFUSED''"
definition syscall_ECONNRESET :: goerr where "syscall_ECONNRESET = Sentinel ''ECONNRESET''"

text \<open>
  A transport error: its tree for \<open>errors.Is\<close>, whether it reports a timeout, whether
  \<open>errors.As\<close> finds a DNS error or one of the three x509 errors in it, and its text.
\<close>

record transport_error =
  teErr :: goerr
  teTimeout :: bool
  teDNS :: bool
  teX509 :: bool
  teText :: string

definition classifyError :: "transport_error \<Rightarrow> errorClass" where
  "classifyError err =
     (if errors_is (teErr err) ErrSSRFBlocked then ErrSSRFBlockedClass
      else if errors_is (teErr err) context_DeadlineExceeded \<or> teTimeout err then ErrTimeout
      else if errors_is (teErr err) syscall_ECONNREFUSED \<or> errors_is (teErr err) syscall_ECONNRESET
      then ErrConnectionRefused
      else if teDNS err then ErrDNSFailure
      else if teX509 err then ErrTLSError
      else let msg = to_lower (teText err)
           in if contains_str msg ''timeout'' then ErrTimeout
              else if contains_str msg ''too many redirects'' then ErrHTTPError
              else if contains_str msg ''connection refused'' \<or> contains_str msg ''connection reset'' then ErrConnectionRefused
              else if contains_str msg ''no such host'' \<or> contains_str msg ''server misbehaving'' then ErrDNSFailure
              else if contains_str msg ''certificate'' \<or> contains_str msg ''tls'' \<or> contains_str msg ''x509'' then ErrTLSError
              else ErrUnknown)"

section \<open>The check\<close>

definition defaultTimeout :: duration where "defaultTimeout = 10 * Second"
definition maxRedirects :: nat where "maxRedirects = 5"
definition maxBodyBytes :: nat where "maxBodyBytes = 4096"

record http_check =
  hcTimeout :: duration
  hcUserAgent :: string
  hcSkipSSRF :: bool

definition WithUserAgent :: "string \<Rightarrow> http_check \<Rightarrow> http_check" where
  "WithUserAgent ua c = c\<lparr>hcUserAgent := ua\<rparr>"

definition NewHttpCheck :: "duration \<Rightarrow> (http_check \<Rightarrow> http_check) list \<Rightarrow> http_check" where
  "NewHttpCheck timeout opts =
     (let timeout = (if timeout \<le> 0 then defaultTimeout else timeout)
      in fold (\<lambda>opt c. opt c) opts \<lparr>hcTimeout = timeout, hcUserAgent = [], hcSkipSSRF = False\<rparr>)"

definition newForTest :: "duration \<Rightarrow> (http_check \<Rightarrow> http_check) list \<Rightarrow> http_check" where
  "newForTest timeout opts =
     (let timeout = (if timeout \<le> 0 then defaultTimeout else timeout)
      in fold (\<lambda>opt c. opt c) opts \<lparr>hcTimeout = timeout, hcUserAgent = [], hcSkipSSRF = True\<rparr>)"

text \<open>The client's \<open>CheckRedirect\<close>; \<open>via\<close> is the number of requests already made.\<close>

definition too_many_redirects :: goerr where "too_many_redirects = Sentinel ''too many redirects''"

definition CheckRedirect :: "bool \<Rightarrow> url \<Rightarrow> nat \<Rightarrow> goerr option" where
  "CheckRedirect skipSSRF u via =
     (if maxRedirects \<le> via then Some too_many_redirects
      else if skipSSRF then None else assertSafeURL (url_String u))"

section \<open>net/http.Client\<close>

text \<open>
  \<open>url.Error\<close> around an error: the text with a quoted URL (the quoting of bytes other than the
  quote and the backslash is left out), a timeout when the error itself reports one. \<open>Client.Do\<close>
  puts in the URL of the request that failed, without its password, or, when \<open>CheckRedirect\<close> refused
  a redirect, the Location header as received.
\<close>

fun replace_first :: "string \<Rightarrow> string \<Rightarrow> string \<Rightarrow> string" where
  "replace_first old new [] = (if old = [] then new else [])"
| "replace_first old new (c # s) =
     (if has_prefix old (c # s) then new @ drop (length old) (c # s) else c # replace_first old new s)"

definition stripPassword :: "url \<Rightarrow> string" where
  "stripPassword u =
     (case User u of
        Some (name, Some pw) \<Rightarrow>
          replace_first (userinfo_String (name, Some pw) @ ''@'') (name @ '':***@'') (url_String u)
      | _ \<Rightarrow> url_String u)"

definition go_quote :: "string \<Rightarrow> string" where
  "go_quote s =
     [CHR 0x22] @ concat (map (\<lambda>c. if c = CHR 0x22 \<or> c = CHR 0x5C then [CHR 0x5C, c] else [c]) s) @ [CHR 0x22]"

definition url_error :: "string \<Rightarrow> transport_error \<Rightarrow> transport_error" where
  "url_error u err =
     err\<lparr>teErr := Errorf ''url.Error'' [teErr err], teText := ''Get '' @ go_quote u @ '': '' @ teText err\<rparr>"

definition plain_error :: "goerr \<Rightarrow> transport_error" where
  "plain_error e =
     \<lparr>teErr = e, teTimeout = False, teDNS = False, teX509 = False,
      teText = (case e of Sentinel s \<Rightarrow> s | Errorf m ws \<Rightarrow> m)\<rparr>"

text \<open>
  What the network answers: an error, or the status, the certificate's expiry, the body, and, of a
  redirect that the client follows, the Location header and the URL it resolves to.
\<close>

datatype answer = NetError transport_error | Response int "time option" string "(string \<times> url) option"

datatype do_result = DoErr transport_error | DoResp url int "time option" string

text \<open>
  \<open>Client.Do\<close> from a URL, after \<open>n\<close> requests: the URLs requested and the result. It
  ends because \<open>CheckRedirect\<close> refuses the fifth redirect.
\<close>

function client_do :: "bool \<Rightarrow> (nat \<Rightarrow> url \<Rightarrow> answer) \<Rightarrow> nat \<Rightarrow> url \<Rightarrow> url list \<times> do_result" where
  "client_do skip net n u =
     (case net n u of
        NetError e \<Rightarrow> ([u], DoErr (url_error (stripPassword u) e))
      | Response st tls body None \<Rightarrow> ([u], DoResp u st tls body)
      | Response st tls body (Some (loc, v)) \<Rightarrow>
          (case CheckRedirect skip v (n + 1) of
             Some e \<Rightarrow> ([u], DoErr (url_error loc (plain_error e)))
           | None \<Rightarrow> (case client_do skip net (n + 1) v of (us, r) \<Rightarrow> (u # us, r))))"
  by pat_completeness auto
termination
  by (relation "measure (\<lambda>(skip, net, n, u). maxRedirects - n)") (auto simp: CheckRedirect_def split: if_splits)

declare client_do.simps [simp del]

text \<open>\<open>http.NewRequest\<close>: the URL parsed, an empty port dropped.\<close>

definition removeEmptyPort :: "string \<Rightarrow> string" where
  "removeEmptyPort host =
     (if CHR '':'' \<in> set host \<and> CHR '']'' \<notin> set (after_last CHR '':'' host) \<and> has_suffix '':'' host
      then butlast host else host)"

definition request_url :: "string \<Rightarrow> url option" where
  "request_url raw = map_option (\<lambda>u. u\<lparr>Host := removeEmptyPort (Host u)\<rparr>) (url_Parse raw)"

section \<open>Run\<close>

text \<open>The clock's readings: at the start, before the request and after it (or when blocked).\<close>

record clock =
  ckEntry :: time
  ckStart :: time
  ckEnd :: time
  ckElapsed :: duration

definition blank_obs :: "clock \<Rightarrow> target \<Rightarrow> observation" where
  "blank_obs ck t =
     \<lparr>Status = [], LatencyMs = 0, ErrorClass = ErrNone, StatusCode = 0, FinalURL = [], TLSExpiry = None,
      ObservedAt = ckEntry ck, ObsLabels = Labels t, Extra = Map.empty\<rparr>"

text \<open>The mapping of a response.\<close>

definition observe_response :: "url \<Rightarrow> int \<Rightarrow> time option \<Rightarrow> string \<Rightarrow> observation \<Rightarrow> observation" where
  "observe_response u st tls body obs =
     (let obs = obs\<lparr>StatusCode := st, FinalURL := url_String u, TLSExpiry := tls\<rparr>;
          obs = (if 200 \<le> st \<and> st < 400 then obs\<lparr>Status := StatusUp\<rparr>
                 else obs\<lparr>Status := StatusDown, ErrorClass := ErrHTTPError\<rparr>)
      in if Status obs = StatusDown
         then obs\<lparr>Extra := (Extra obs)(''body'' \<mapsto> AnyString (to_valid_utf8 (take maxBodyBytes body)))\<rparr>
         else obs)"

text \<open>\<open>Check.Run\<close>: the observation (its error is always nil) and the URLs requested.\<close>

definition http_Run ::
  "http_check \<Rightarrow> clock \<Rightarrow> (nat \<Rightarrow> url \<Rightarrow> answer) \<Rightarrow> target \<Rightarrow> observation \<times> url list" where
  "http_Run c ck net t =
     (let obs = blank_obs ck t
      in if \<not> hcSkipSSRF c \<and> assertSafeURL (URL t) \<noteq> None
         then (obs\<lparr>Status := StatusDown, ErrorClass := ErrSSRFBlockedClass, ObservedAt := ckEnd ck\<rparr>, [])
         else case request_url (URL t) of
                None \<Rightarrow> (obs\<lparr>Status := StatusDown, ErrorClass := ErrUnknown\<rparr>, [])
              | Some u \<Rightarrow>
                  (case client_do (hcSkipSSRF c) net 0 u of (us, r) \<Rightarrow>
                     (let obs = obs\<lparr>LatencyMs := ckElapsed ck sdiv Millisecond, ObservedAt := ckEnd ck\<rparr>
                      in (case r of
                            DoErr err \<Rightarrow> obs\<lparr>Status := StatusDown, ErrorClass := classifyError err\<rparr>
                          | DoResp u st tls body \<Rightarrow> observe_response u st tls body obs, us))))"

section \<open>Lemmas\<close>

lemma class_in: "classifyError err \<in> set errorClasses"
  by (simp add: classifyError_def errorClasses_def Let_def)

lemma class_not_none: "ec \<in> set errorClasses \<Longrightarrow> ec \<noteq> ErrNone"
  by (auto simp: errorClasses_def errorClass_defs)

lemma client_do_requests:
  assumes "client_do skip net n u = (us, r)" "n < maxRedirects"
  shows "us \<noteq> [] \<and> hd us = u \<and> length us + n \<le> maxRedirects \<and>
    (\<forall>v \<in> set (tl us). skip \<or> assertSafeURL (url_String v) = None) \<and>
    (\<forall>v st tls body. r = DoResp v st tls body \<longrightarrow> v = last us)"
  using assms
proof (induction skip net n u arbitrary: us r rule: client_do.induct)
  case (1 skip net n u)
  show ?case
  proof (cases "net n u")
    case (NetError e)
    then show ?thesis using "1.prems" by (auto simp: client_do.simps [of skip net n u])
  next
    case (Response st tls body nxt)
    show ?thesis
    proof (cases "\<exists>loc v. nxt = Some (loc, v) \<and> CheckRedirect skip v (n + 1) = None")
      case False
      then show ?thesis using "1.prems" Response
        by (auto simp: client_do.simps [of skip net n u] split: option.splits)
    next
      case True
      then obtain loc v where v: "nxt = Some (loc, v)" "CheckRedirect skip v (n + 1) = None" by blast
      then have n: "n + 1 < maxRedirects" and safe: "skip \<or> assertSafeURL (url_String v) = None"
        by (auto simp: CheckRedirect_def split: if_splits)
      obtain ws where w: "client_do skip net (n + 1) v = (ws, r)" "us = u # ws"
        using "1.prems"(1) Response v by (auto simp: client_do.simps [of skip net n u] split: prod.splits)
      have ih: "ws \<noteq> [] \<and> hd ws = v \<and> length ws + (n + 1) \<le> maxRedirects \<and>
          (\<forall>v \<in> set (tl ws). skip \<or> assertSafeURL (url_String v) = None) \<and>
          (\<forall>v st tls body. r = DoResp v st tls body \<longrightarrow> v = last ws)"
        using "1.IH" [OF Response v(1) refl v(2) w(1) n] .
      then obtain rest where "ws = v # rest" by (cases ws) auto
      then show ?thesis using ih w(2) safe by auto
    qed
  qed
qed

lemma observe_response_facts:
  assumes "observe_response u st tls body obs = obs'" "Extra obs = Map.empty" "ErrorClass obs = ErrNone"
  shows "Status obs' \<in> {StatusUp, StatusDown}" "Status obs' = StatusUp \<longleftrightarrow> ErrorClass obs' = ErrNone"
    "Status obs' = StatusUp \<longleftrightarrow> 200 \<le> StatusCode obs' \<and> StatusCode obs' < 400"
    "ErrorClass obs' \<in> {ErrNone, ErrHTTPError}" "FinalURL obs' = url_String u" "ObsLabels obs' = ObsLabels obs"
    "\<And>b. Extra obs' ''body'' = Some (AnyString b) \<Longrightarrow> length b \<le> maxBodyBytes"
proof -
  have l: "length (to_valid_utf8 (take maxBodyBytes body)) \<le> maxBodyBytes"
    using to_valid_utf8_length [of "take maxBodyBytes body"] by simp
  show "Status obs' \<in> {StatusUp, StatusDown}" "Status obs' = StatusUp \<longleftrightarrow> ErrorClass obs' = ErrNone"
    "Status obs' = StatusUp \<longleftrightarrow> 200 \<le> StatusCode obs' \<and> StatusCode obs' < 400"
    "ErrorClass obs' \<in> {ErrNone, ErrHTTPError}" "FinalURL obs' = url_String u" "ObsLabels obs' = ObsLabels obs"
    "\<And>b. Extra obs' ''body'' = Some (AnyString b) \<Longrightarrow> length b \<le> maxBodyBytes"
    using assms l
    by (auto simp: observe_response_def Let_def status_defs ErrNone_def ErrHTTPError_def split: if_splits)
qed

section \<open>Properties\<close>

text \<open>
  C13: A run of the HTTP check, whatever the network answers. The status is up or down, up
  exactly when there is no error class, and then the status code is from 200 to 399; a class is
  one of the closed set; the labels are the target's; a captured body has at most 4096 bytes. At
  most five requests are made, the first only for a URL that passed the guard and every redirect
  only to a URL that passed it again (unless the check skips the guard).
\<close>

theorem http_Run_contract:
  assumes "http_Run c ck net t = (obs, us)"
  shows "(Status obs = StatusUp \<and> ErrorClass obs = ErrNone \<and> 200 \<le> StatusCode obs \<and> StatusCode obs < 400 \<or>
      Status obs = StatusDown \<and> ErrorClass obs \<in> set errorClasses) \<and>
    ObsLabels obs = Labels t \<and>
    (\<forall>b. Extra obs ''body'' = Some (AnyString b) \<longrightarrow> length b \<le> maxBodyBytes) \<and>
    length us \<le> maxRedirects \<and>
    (hcSkipSSRF c \<or>
      (us = [] \<or> assertSafeURL (URL t) = None \<and> request_url (URL t) = Some (hd us)) \<and>
      (\<forall>v \<in> set (tl us). assertSafeURL (url_String v) = None))"
proof (cases "\<not> hcSkipSSRF c \<and> assertSafeURL (URL t) \<noteq> None")
  case True
  then show ?thesis using assms
    by (auto simp: http_Run_def blank_obs_def errorClasses_def Let_def)
next
  case guard: False
  show ?thesis
  proof (cases "request_url (URL t)")
    case None
    then show ?thesis using assms guard by (auto simp: http_Run_def blank_obs_def errorClasses_def Let_def)
  next
    case (Some u)
    obtain ws r where w: "client_do (hcSkipSSRF c) net 0 u = (ws, r)" by (cases "client_do (hcSkipSSRF c) net 0 u")
    note req = client_do_requests [OF w, unfolded maxRedirects_def, simplified, folded maxRedirects_def]
    let ?obs = "blank_obs ck t\<lparr>LatencyMs := ckElapsed ck sdiv Millisecond, ObservedAt := ckEnd ck\<rparr>"
    have us: "us = ws" and o: "obs = (case r of
          DoErr err \<Rightarrow> ?obs\<lparr>Status := StatusDown, ErrorClass := classifyError err\<rparr>
        | DoResp u st tls body \<Rightarrow> observe_response u st tls body ?obs)"
      using assms guard Some w by (auto simp: http_Run_def Let_def)
    have safe: "hcSkipSSRF c \<or> (us = [] \<or> assertSafeURL (URL t) = None \<and> request_url (URL t) = Some (hd us)) \<and>
        (\<forall>v \<in> set (tl us). assertSafeURL (url_String v) = None)"
      using guard us Some req by auto
    have len: "length us \<le> maxRedirects" using us req by (simp add: maxRedirects_def)
    show ?thesis
    proof (cases r)
      case (DoErr err)
      then show ?thesis using o safe len class_in [of err] by (simp add: blank_obs_def)
    next
      case (DoResp v st tls body)
      then have e: "observe_response v st tls body ?obs = obs" using o by simp
      have b: "Extra ?obs = Map.empty" "ErrorClass ?obs = ErrNone" by (simp_all add: blank_obs_def)
      note f = observe_response_facts [OF e b]
      have "ErrHTTPError \<in> set errorClasses" by (simp add: errorClasses_def)
      then show ?thesis using f safe len by (auto simp: blank_obs_def)
    qed
  qed
qed

definition demo_clock :: clock where
  "demo_clock = \<lparr>ckEntry = 1, ckStart = 2, ckEnd = 3, ckElapsed = 7000000\<rparr>"

definition demo_target :: "string \<Rightarrow> target" where
  "demo_target u = \<lparr>URL = u, Labels = Map.empty, Interval = 0\<rparr>"

text \<open>A host that redirects every request to the same URL.\<close>

definition redirect_loop :: "string \<Rightarrow> nat \<Rightarrow> url \<Rightarrow> answer" where
  "redirect_loop u n v = Response 302 None [] (map_option (Pair u) (url_Parse u))"

text \<open>A host that redirects to an address the guard blocks.\<close>

lemma demo_redirect_blocked:
  "(case http_Run (NewHttpCheck 0 []) demo_clock (redirect_loop ''http://10.0.0.1/'') (demo_target ''http://h/'') of
     (obs, us) \<Rightarrow> ErrorClass obs = ErrSSRFBlockedClass \<and> length us = 1)"
  by code_simp

theorem http_Run_contract_witness:
  "\<exists>obs us. http_Run (NewHttpCheck 0 []) demo_clock (redirect_loop ''http://10.0.0.1/'') (demo_target ''http://h/'') = (obs, us) \<and>
     us \<noteq> [] \<and> assertSafeURL ''http://h/'' = None \<and> Status obs = StatusDown \<and> ErrorClass obs = ErrSSRFBlockedClass"
proof -
  obtain obs us where r: "http_Run (NewHttpCheck 0 []) demo_clock (redirect_loop ''http://10.0.0.1/'') (demo_target ''http://h/'') = (obs, us)"
    by (cases "http_Run (NewHttpCheck 0 []) demo_clock (redirect_loop ''http://10.0.0.1/'') (demo_target ''http://h/'')")
  have d: "ErrorClass obs = ErrSSRFBlockedClass" "length us = 1" using demo_redirect_blocked r by auto
  then have "us \<noteq> []" by auto
  have "\<not> hcSkipSSRF (NewHttpCheck 0 [])" by (simp add: NewHttpCheck_def)
  then show ?thesis using http_Run_contract [OF r] d \<open>us \<noteq> []\<close> r
    by (auto simp: demo_target_def ErrSSRFBlockedClass_def ErrNone_def)
qed

text \<open>
  C38: A redirect loop is classified by the text of the URL. The text that the fallback searches is
  that of the whole \<open>url.Error\<close>, which quotes the Location of the refused redirect: a loop on a
  URL without a telling word counts as an HTTP error, as meant, but the same loop on a URL with "timeout" in it counts as a
  timeout.
\<close>

theorem redirect_loop_misclassified:
  "ErrorClass (fst (http_Run (NewHttpCheck 0 []) demo_clock (redirect_loop ''http://h/a'') (demo_target ''http://h/a''))) = ErrHTTPError \<and>
   ErrorClass (fst (http_Run (NewHttpCheck 0 []) demo_clock (redirect_loop ''http://h/timeout'') (demo_target ''http://h/timeout''))) = ErrTimeout"
proof -
  have "ErrorClass (fst (http_Run (NewHttpCheck 0 []) demo_clock (redirect_loop ''http://h/a'') (demo_target ''http://h/a''))) = ErrHTTPError"
    by code_simp
  moreover have "ErrorClass (fst (http_Run (NewHttpCheck 0 []) demo_clock (redirect_loop ''http://h/timeout'') (demo_target ''http://h/timeout''))) = ErrTimeout"
    by code_simp
  ultimately show ?thesis by simp
qed

end
