(* ===== verification/Pipeline.thy ===== *)
theory Pipeline
  imports CliRun HttpCheck
begin

text \<open>
  The parts the command puts together: a config target, the HTTP check in its decorators, and the
  event that the runner encodes from the observation.
\<close>

section \<open>From a config target to its event\<close>

text \<open>The HTTP check as the runner's Check: its error is always nil.\<close>

definition http_inner ::
  "http_check \<Rightarrow> clock \<Rightarrow> (nat \<Rightarrow> url \<Rightarrow> answer) \<Rightarrow> target \<Rightarrow> observation \<times> goerr option" where
  "http_inner c ck net t = (fst (http_Run c ck net t), None)"

lemma http_Run_labels: "ObsLabels (fst (http_Run c ck net t)) = Labels t"
  by (auto simp: http_Run_def blank_obs_def observe_response_def Let_def split: option.splits prod.splits do_result.splits)

lemma decorated_obs:
  "fst (fst (decorated_check inner now listening t col)) =
     (fst (inner t))\<lparr>FinalURL := eventURL (FinalURL (fst (inner t)))\<rparr>"
  by (auto simp: decorated_check_def sanitized_Run_def instrumented_Run_def split: prod.splits)

text \<open>
  What may be published as a URL: nothing, the placeholder, or an absolute URL without userinfo,
  opaque part, query and fragment, and without their delimiters.
\<close>

definition public_url :: "string \<Rightarrow> bool" where
  "public_url s \<longleftrightarrow> CHR ''?'' \<notin> set s \<and> CHR ''#'' \<notin> set s \<and> CHR ''@'' \<notin> set s \<and>
     (s = [] \<or> s = unparseable \<or>
      (\<exists>u. url_Parse s = Some u \<and> Scheme u \<noteq> [] \<and> Host u \<noteq> [] \<and> Opaque u = [] \<and> User u = None \<and>
        RawQuery u = [] \<and> \<not> ForceQuery u \<and> Fragment u = []))"

text \<open>
  A URL written with credentials before an at-sign, or without, and with a tail that starts a query
  or a fragment, or without; \<open>r\<close> is the authority and path that remain. The credentials are any bytes.
\<close>

definition written :: "string \<Rightarrow> string \<Rightarrow> string \<Rightarrow> string \<Rightarrow> string \<Rightarrow> bool" where
  "written sch cred r tail raw \<longleftrightarrow> valid_scheme sch \<and> CHR ''?'' \<notin> set r \<and> CHR ''#'' \<notin> set r \<and>
     (tail = [] \<or> hd tail = CHR ''?'' \<or> hd tail = CHR ''#'') \<and>
     (raw = sch @ ''://'' @ cred @ ''@'' @ r @ tail \<or> raw = sch @ ''://'' @ r @ tail)"

lemma eventURL_public: "public_url (eventURL raw)"
proof (cases "raw = []")
  case False
  then show ?thesis using label_parses [of raw] TargetLabel_marks [of raw]
    by (cases "TargetLabel raw = unparseable") (auto simp: eventURL_def public_url_def)
qed (simp add: eventURL_def public_url_def)

lemma eventURL_hides:
  assumes "written sch cred r tail raw"
  shows "eventURL raw \<in> {unparseable, TargetLabel (sch @ ''://'' @ r)}"
proof -
  have "raw \<noteq> []" using assms by (auto simp: written_def)
  then have "eventURL raw = TargetLabel raw" by (simp add: eventURL_def)
  then show ?thesis using assms label_hides [of sch r tail cred] unfolding written_def by metis
qed

lemma decorated_probe:
  assumes "fst (decorated_check (http_inner c ck net) now listening (built_target ct) col) = (obs, err)"
  shows "err = None" "label_url obs = subject_of ct"
    "FinalURL obs = eventURL (FinalURL (fst (http_Run c ck net (built_target ct))))"
proof -
  have o: "obs = (fst (http_Run c ck net (built_target ct)))
      \<lparr>FinalURL := eventURL (FinalURL (fst (http_Run c ck net (built_target ct))))\<rparr>"
    using decorated_obs [of "http_inner c ck net" now listening "built_target ct" col] assms
    by (simp add: http_inner_def)
  show "err = None"
    using assms by (auto simp: decorated_check_def sanitized_Run_def instrumented_Run_def http_inner_def split: if_splits)
  show "label_url obs = subject_of ct"
    by (auto simp: o label_url_def http_Run_labels built_target_def target_labels_def subject_of_def split: option.splits)
  show "FinalURL obs = eventURL (FinalURL (fst (http_Run c ck net (built_target ct))))" by (simp add: o)
qed

text \<open>
  C16: no URL part that may hold a secret reaches an event. Whatever the network answers, the event
  made of a probe of a config target has as final URL an empty string, the placeholder, or an absolute URL
  without userinfo, opaque part, query and fragment, even after redirects; and if the URL that net/http ended at is
  written with credentials (any bytes before an at-sign), a query or a fragment, it is the placeholder or the label
  of that URL without them. The same holds of the event's subject and the config target's URL, unless the
  operator set a "url" label, which is published as it is.
\<close>

theorem published_urls_clean:
  assumes "fst (decorated_check (http_inner c ck net) now listening (built_target ct) col) = (obs, err)"
  shows "err = None \<and> label_url obs = subject_of ct \<and> public_url (PFinalURL (payload_of obs)) \<and>
    (\<forall>sch cred r tail. written sch cred r tail (FinalURL (fst (http_Run c ck net (built_target ct)))) \<longrightarrow>
      PFinalURL (payload_of obs) \<in> {unparseable, TargetLabel (sch @ ''://'' @ r)}) \<and>
    (CtLabels ct ''url'' = None \<longrightarrow> public_url (label_url obs) \<and>
      (\<forall>sch cred r tail. written sch cred r tail (CtURL ct) \<longrightarrow>
        label_url obs \<in> {unparseable, TargetLabel (sch @ ''://'' @ r)}))"
proof -
  note d = decorated_probe [OF assms]
  have "PFinalURL (payload_of obs) = eventURL (FinalURL (fst (http_Run c ck net (built_target ct))))"
    using d(3) by (simp add: payload_of_def)
  moreover have "label_url obs = eventURL (CtURL ct)" if "CtLabels ct ''url'' = None"
    using d(2) that by (simp add: subject_of_def)
  ultimately show ?thesis using d(1,2) eventURL_public eventURL_hides by metis
qed

definition demo_ct :: cfg_target where
  "demo_ct = \<lparr>CtURL = ''http://u:p@h/x?k=s'', CtLabels = Map.empty, CtInterval = 0\<rparr>"

definition demo_net :: "nat \<Rightarrow> url \<Rightarrow> answer" where
  "demo_net n u = Response 200 None [] None"

theorem published_urls_clean_witness:
  "\<exists>obs. fst (decorated_check (http_inner (NewHttpCheck 0 []) demo_clock demo_net) 5 False (built_target demo_ct) (undefined :: unit collector)) = (obs, None) \<and>
     Status obs = StatusUp \<and> FinalURL obs = ''http://h/x'' \<and>
     public_url (label_url obs) \<and> label_url obs \<in> {unparseable, TargetLabel ''http://h/x''}"
proof -
  let ?r = "http_Run (NewHttpCheck 0 []) demo_clock demo_net (built_target demo_ct)"
  obtain obs err where p: "fst (decorated_check (http_inner (NewHttpCheck 0 []) demo_clock demo_net) 5 False
      (built_target demo_ct) (undefined :: unit collector)) = (obs, err)"
    by (cases "fst (decorated_check (http_inner (NewHttpCheck 0 []) demo_clock demo_net) 5 False
      (built_target demo_ct) (undefined :: unit collector))")
  have "(Status (fst ?r), eventURL (FinalURL (fst ?r))) = (StatusUp, ''http://h/x'')" by code_simp
  then have s: "Status obs = StatusUp" "FinalURL obs = ''http://h/x''"
    using p decorated_obs [of "http_inner (NewHttpCheck 0 []) demo_clock demo_net" 5 False "built_target demo_ct" "undefined :: unit collector"]
    by (auto simp: http_inner_def)
  have "CtLabels demo_ct ''url'' = None" by (simp add: demo_ct_def)
  moreover have "valid_scheme ''http''" by code_simp
  then have "written ''http'' ''u:p'' ''h/x'' ''?k=s'' (CtURL demo_ct)" by (simp add: written_def demo_ct_def)
  ultimately show ?thesis using published_urls_clean [OF p] p s by fastforce
qed

end
