(* ===== verification/EndToEnd.thy ===== *)
theory EndToEnd
  imports Delivery Pipeline RunnerNew
begin

text \<open>
  From a loaded config to the lines of the sink file: the runner that \<open>run\<close> builds (theory
  CliRun), probing through the HTTP check in its decorators (theory Pipeline) and publishing to the file
  sink (theory Sink), in any interleaving.
\<close>

section \<open>The check the runner gets\<close>

text \<open>What a probe depends on: its clock, the network, and the collector at its end.\<close>

type_synonym 'm world = "clock \<times> (nat \<Rightarrow> url \<Rightarrow> answer) \<times> time \<times> 'm collector"

definition prober :: "http_check \<Rightarrow> bool \<Rightarrow> 'm world \<Rightarrow> target \<Rightarrow> goerr + observation" where
  "prober c listening = (\<lambda>(ck, net, now, col) t.
     (case fst (decorated_check (http_inner c ck net) now listening t col) of
        (obs, Some err) \<Rightarrow> Inl err
      | (obs, None) \<Rightarrow> Inr obs))"

section \<open>What a probe has to report\<close>

text \<open>
  The answer a probe gets: none when the guard refuses the URL, the URL has no parse, or the client
  returns an error; otherwise the URL of the last request and the status of its response.
\<close>

definition probe_answer :: "http_check \<Rightarrow> (nat \<Rightarrow> url \<Rightarrow> answer) \<Rightarrow> string \<Rightarrow> (url \<times> int) option" where
  "probe_answer c net raw =
     (if \<not> hcSkipSSRF c \<and> assertSafeURL raw \<noteq> None then None
      else Option.bind (request_url raw) (\<lambda>u.
        case snd (client_do (hcSkipSSRF c) net 0 u) of DoErr err \<Rightarrow> None | DoResp v st tls body \<Rightarrow> Some (v, st)))"

text \<open>
  The observation a target deserves: up exactly on a response with a status from 200 to 399, with
  that status and the cleaned URL of the last request; down without a response, with neither; under the
  target's labels and subject.
\<close>

definition reported :: "http_check \<Rightarrow> (nat \<Rightarrow> url \<Rightarrow> answer) \<Rightarrow> cfg_target \<Rightarrow> observation \<Rightarrow> bool" where
  "reported c net ct obs \<longleftrightarrow>
     ObsLabels obs = target_labels ct \<and> label_url obs = subject_of ct \<and> public_url (FinalURL obs) \<and>
     (Status obs = StatusUp \<longleftrightarrow> ErrorClass obs = ErrNone) \<and>
     (case probe_answer c net (CtURL ct) of
        None \<Rightarrow> Status obs = StatusDown \<and> StatusCode obs = 0 \<and> FinalURL obs = []
      | Some (v, st) \<Rightarrow> Status obs = (if 200 \<le> st \<and> st < 400 then StatusUp else StatusDown) \<and>
          StatusCode obs = st \<and> FinalURL obs = eventURL (url_String v))"

text \<open>
  A record of the target for a probe that met the world \<open>x\<close>: the marshalled event of the
  observation that the check makes in that world.
\<close>

definition record_of ::
    "('p, 'u) sdk \<Rightarrow> 'u encoder option \<Rightarrow> ('u event \<Rightarrow> goerr + string) \<Rightarrow> http_check \<Rightarrow> bool \<Rightarrow> cfg_target \<Rightarrow>
     'm world \<Rightarrow> string \<Rightarrow> bool" where
  "record_of k en marshal c listening ct x b \<longleftrightarrow>
     (\<exists>obs uid e. prober c listening x (built_target ct) = Inr obs \<and> reported c (fst (snd x)) ct obs \<and>
        Encode k uid en obs = (e, None) \<and> marshal e = Inr b)"

lemma built_target_fields: "URL (built_target ct) = CtURL ct" "Labels (built_target ct) = target_labels ct"
  by (simp_all add: built_target_def)

lemma http_Run_reports:
  assumes "http_Run c ck net t = (obs, us)"
  shows "Status obs = StatusUp \<longleftrightarrow> ErrorClass obs = ErrNone"
    "case probe_answer c net (URL t) of
       None \<Rightarrow> Status obs = StatusDown \<and> StatusCode obs = 0 \<and> FinalURL obs = []
     | Some (v, st) \<Rightarrow> Status obs = (if 200 \<le> st \<and> st < 400 then StatusUp else StatusDown) \<and>
         StatusCode obs = st \<and> FinalURL obs = url_String v"
proof -
  have cls: "classifyError err \<noteq> ErrNone" for err using class_not_none [OF class_in] .
  note defs = status_defs blank_obs_def observe_response_def Let_def
  show "Status obs = StatusUp \<longleftrightarrow> ErrorClass obs = ErrNone"
    using assms cls
    by (auto simp: http_Run_def defs ErrSSRFBlockedClass_def ErrUnknown_def ErrHTTPError_def ErrNone_def
        split: if_splits option.splits prod.splits do_result.splits)
  show "case probe_answer c net (URL t) of
       None \<Rightarrow> Status obs = StatusDown \<and> StatusCode obs = 0 \<and> FinalURL obs = []
     | Some (v, st) \<Rightarrow> Status obs = (if 200 \<le> st \<and> st < 400 then StatusUp else StatusDown) \<and>
         StatusCode obs = st \<and> FinalURL obs = url_String v"
    using assms
    by (auto simp: http_Run_def probe_answer_def defs split: if_splits option.splits prod.splits do_result.splits)
qed

lemma prober_reports:
  assumes "prober c listening (x :: 'm world) (built_target ct) = Inr obs"
  shows "reported c (fst (snd x)) ct obs"
proof -
  obtain ck net now and col :: "'m collector" where x: "x = (ck, net, now, col)" by (cases x)
  let ?r = "http_Run c ck net (built_target ct)"
  have d: "fst (decorated_check (http_inner c ck net) now listening (built_target ct) col) = (obs, None)"
    using assms by (auto simp: x prober_def split: prod.splits option.splits)
  have o: "obs = (fst ?r)\<lparr>FinalURL := eventURL (FinalURL (fst ?r))\<rparr>"
    using decorated_obs [of "http_inner c ck net" now listening "built_target ct" col] d by (simp add: http_inner_def)
  have r: "?r = (fst ?r, snd ?r)" by simp
  have "eventURL [] = []" by (simp add: eventURL_def)
  then show ?thesis using http_Run_reports [OF r] decorated_probe(2) [OF d] eventURL_public
    by (auto simp: reported_def o http_Run_labels built_target_fields x split: option.splits)
qed

lemma prober_event:
  assumes "event_of k (prober c listening) en x (built_target ct) e" "marshal e = Inr b"
  shows "record_of k en marshal c listening ct x b"
proof -
  obtain obs uid where o: "prober c listening x (built_target ct) = Inr obs" "Encode k uid en obs = (e, None)"
    using assms(1) by (auto simp: event_of_def)
  then show ?thesis using prober_reports [OF o(1)] assms(2) unfolding record_of_def by blast
qed

section \<open>Property\<close>

text \<open>
  C5: what is reported as published is in the file. On a loaded config and a file sink opened on any
  regular file, whatever the network answers to each probe and whichever writes fail or stop short, in every
  interleaving: for the runs that ended without an error, in that order, the file has gained a record each, on a
  complete line of its own, after the lines it had. The record of a run is the marshalled event of the observation
  that the check made in that very run, of the run's own target: up exactly when the last request of its redirects
  was answered with a status from 200 to 399, with that status and the cleaned URL of that request, and down with
  neither when there was no response. And every Result without an error that was sent or dropped belongs to one of
  those runs.
\<close>

theorem success_is_a_line:
  assumes "wf_config cfg"
    and "New k (event_config cfg) (fst (buildTargets cfg)) (AcInterval cfg) (AcConcurrency cfg) [] = Some r"
    and "Run r ctx = Inr s0"
    and "NewFileSink env p = Inr snk0" "is_regular env" "newline_free marshal"
    and "trace (dstep k (prober c listening :: 'm world \<Rightarrow> target \<Rightarrow> goerr + observation) (FileSink_Publish marshal))
      (s0, snk0) devs (s, snk)"
  shows "\<exists>new recs.
    butlast (split_on newline (out (fs_f snk))) = butlast (split_on newline (content env)) @ new \<and> subseq recs new \<and>
    map fst (answered Map.empty devs) = successes (did devs) \<and>
    list_all2 (\<lambda>(i, w) b. i < length (AcTargets cfg) \<and>
        (\<exists>x. w = Some x \<and> record_of k (enc r) marshal c listening (AcTargets cfg ! i) x b))
      (answered Map.empty devs) recs \<and>
    (\<forall>i. n_ok_sent i (did devs) + n_ok_dropped i (did devs) \<le> count_list (successes (did devs)) i)"
proof -
  let ?pr = "prober c listening :: 'm world \<Rightarrow> target \<Rightarrow> goerr + observation"
  let ?ts = "fst (buildTargets cfg)" and ?cs = "publish_calls Map.empty devs"
  have ts: "?ts = map built_target (AcTargets cfg)" by (rule built_targets)
  have s0: "s0 = launch r ctx" using assms(3) by (auto simp: Run_def split: if_splits option.splits)
  have inv: "runner_inv ?ts s0" using launch_inv [OF built_args_ok [OF assms(1)] assms(2,3)] .
  have "owned k ?pr ?ts Map.empty s0" by (simp add: s0 owned_def list_all_iff)
  from delivery_trace [OF assms(7), of ?ts] this inv
  have d: "delivery_inv k ?pr (FileSink_Publish marshal) ?ts (s0, snk0) devs (s, snk)" by simp
  then have pub: "publish_all (FileSink_Publish marshal) (called_events ?cs) snk0 = (called_results ?cs, snk)"
    and suc: "answered Map.empty devs = acked_runs ?cs"
    and own: "\<forall>(i, w, e, r') \<in> set ?cs. i < length ?ts \<and> (\<exists>x. w = Some x \<and> event_of k ?pr (enc r) x (?ts ! i) e)"
    and ex: "exec k (launch r ctx) (did devs) s"
    by (auto simp: delivery_inv_def s0 launch_def runner.defs)
  have bad: "list_all (\<lambda>(i, w, e, r'). (\<exists>y. marshal e = Inl y) \<longrightarrow> r' \<noteq> None) ?cs"
    using fsink.run_errors [OF pub] by (auto simp: list_all_length called_defs split: prod.splits)
  obtain new where new: "complete (file_view snk) = complete (file_view snk0) @ new"
      "subseq (acknowledged marshal (called_events ?cs) (called_results ?cs)) new"
    using fsink.run_reader [OF assms(6) NewFileSink_inv(1) [OF assms(4,5)] pub] by blast
  have "list_all2 (\<lambda>(i, w) b. i < length (AcTargets cfg) \<and>
        (\<exists>x. w = Some x \<and> record_of k (enc r) marshal c listening (AcTargets cfg ! i) x b))
      (answered Map.empty devs) (acknowledged marshal (called_events ?cs) (called_results ?cs))"
    unfolding suc
  proof (rule list_all2_mono [OF acked_records [OF bad]], clarify)
    fix i w b e assume "(i, w, e, None) \<in> set ?cs" "marshal e = Inr b"
    moreover from this obtain x where "i < length ?ts" "w = Some x" "event_of k ?pr (enc r) x (?ts ! i) e"
      using own by fastforce
    ultimately show "i < length (AcTargets cfg) \<and>
        (\<exists>x. w = Some x \<and> record_of k (enc r) marshal c listening (AcTargets cfg ! i) x b)"
      using prober_event [of k c listening "enc r" x "AcTargets cfg ! i" e marshal b] by (simp add: ts)
  qed
  moreover have "n_ok_sent i (did devs) + n_ok_dropped i (did devs) \<le> count_list (successes (did devs)) i" for i
    using ok_counts [OF ex, of ?ts i] inv by (simp add: s0)
  ultimately show ?thesis using new NewFileSink_inv(2) [OF assms(4,5)] answered_successes
    by (auto simp: file_view_def view_of_def)
qed

definition demo_site :: app_config where
  "demo_site = \<lparr>AcSource = ''descry'', AcSink = ''file'', AcFilePath = ''events'', AcInterval = 10 * Second,
     AcTimeout = Second, AcConcurrency = 1, AcTargets = [demo_ct]\<rparr>"

definition marshal_data :: "'u event \<Rightarrow> goerr + string" where
  "marshal_data e = (if newline \<in> set (DataEncoded e) then Inl (Sentinel ''json'') else Inr (DataEncoded e))"

definition site_runner :: "string runner option" where
  "site_runner = New demo_sdk (event_config demo_site) (fst (buildTargets demo_site)) (AcInterval demo_site)
     (AcConcurrency demo_site) []"

definition one_probe :: "unit world daction list" where
  "one_probe = [DMove (Sched (Clock (1000 * Second))), DMove (Sched NoInput), DMove (Sched (Clock (1010 * Second))),
     DMove (Sched (Choose OnChannel)), DMove (Sched NoInput), DMove (Worker 0 NoInput), DMove (Worker 0 NoInput),
     DMove (Worker 0 NoInput), DProbe 0 (demo_clock, demo_net, 5, undefined), DMove (Worker 0 (FreshID ''ID'')),
     DPublish 0, DMove (Worker 0 NoInput)]"

definition site_run :: "((string sys \<times> file_sink) \<times> (unit world, string) dev list) option" where
  "site_run =
     (case site_runner of None \<Rightarrow> None
      | Some r \<Rightarrow> (case Run r None of Inl _ \<Rightarrow> None
          | Inr s0 \<Rightarrow> dplay demo_sdk (prober (NewHttpCheck 0 []) False) (FileSink_Publish marshal_data) one_probe (s0, demo_file [])))"

theorem success_is_a_line_witness:
  "\<exists>r s0 s snk devs x b. site_runner = Some r \<and> Run r None = Inr s0 \<and> site_run = Some ((s, snk), devs) \<and>
    answered Map.empty devs = [(0, Some x)] \<and> record_of demo_sdk (enc r) marshal_data (NewHttpCheck 0 []) False demo_ct x b \<and>
    b \<in> set (butlast (split_on newline (out (fs_f snk))))"
proof -
  have v: "map_option (\<lambda>((s, snk), devs). successes (did devs)) site_run = Some [0]" by code_simp
  then obtain s snk devs where run: "site_run = Some ((s, snk), devs)" and suc: "successes (did devs) = [0]"
    by (cases site_run) auto
  then obtain r s0 where r: "site_runner = Some r" "Run r None = Inr s0" and
    play: "dplay demo_sdk (prober (NewHttpCheck 0 []) False) (FileSink_Publish marshal_data) one_probe (s0, demo_file []) =
      Some ((s, snk), devs)"
    by (auto simp: site_run_def split: option.splits sum.splits)
  have wf: "wf_config demo_site"
    by (simp add: demo_site_def demo_ct_def wf_config_def wf_target_def MinInterval_def Millisecond_def Second_def max64_def)
  have nl: "newline_free marshal_data" by (auto simp: newline_free_def marshal_data_def)
  have reg: "is_regular demo_env" by (simp add: demo_env_def)
  from success_is_a_line [OF wf r(1) [unfolded site_runner_def] r(2) demo_open reg nl dplay_trace [OF play]] suc
  obtain new recs where new: "butlast (split_on newline (out (fs_f snk))) = butlast (split_on newline (content demo_env)) @ new"
      "subseq recs new" and ans: "map fst (answered Map.empty devs) = [0]"
    and recs: "list_all2 (\<lambda>(i, w) b. i < length (AcTargets demo_site) \<and> (\<exists>x. w = Some x \<and>
        record_of demo_sdk (enc r) marshal_data (NewHttpCheck 0 []) False (AcTargets demo_site ! i) x b))
      (answered Map.empty devs) recs"
    by auto
  obtain w where w: "answered Map.empty devs = [(0, w)]" using ans by auto
  then obtain x b where b: "w = Some x" "recs = [b]"
      "record_of demo_sdk (enc r) marshal_data (NewHttpCheck 0 []) False demo_ct x b"
    using recs by (auto simp: list_all2_Cons1 demo_site_def)
  have "b \<in> set new" using new(2) b(2) by (auto dest: subseq_singleton_left [THEN iffD1])
  then show ?thesis using r run w b(1,3) new(1) by (intro exI) auto
qed

end
