(* ===== verification/Transport.thy ===== *)
theory Transport
  imports HttpCheck
begin

text \<open>
  newSafeTransport of checks/http/ssrf.go under the HTTP check: what net/http's transport and
  net.Dialer do with the guard it installs. A request on no idle connection dials the addresses its
  host resolves to, in the order given, and the dialer asks ControlContext about each before it
  connects; when none connects, the error is that of the first address. The dialing is serial: the dialer's parallel
  attempt at the addresses of the other family (which runs the same loop, with the same ControlContext, over the
  other addresses) and its deadline are left out. Resolving, connecting, idle connections and responses are
  an argument, the network.
\<close>

section \<open>The transport\<close>

text \<open>A proxy is the list of its addresses; ControlContext may veto an address.\<close>

record transport =
  tpProxy :: "string list option"
  tpTimeout :: duration
  tpKeepAlive :: duration
  tpControl :: "string \<Rightarrow> goerr option"

definition newSafeTransport :: transport where
  "newSafeTransport =
     \<lparr>tpProxy = None, tpTimeout = 30 * Second, tpKeepAlive = 30 * Second, tpControl = controlContext\<rparr>"

record network =
  nwResolve :: "url \<Rightarrow> transport_error + string list"
  nwConnect :: "string \<Rightarrow> transport_error option"
  nwIdle :: "nat \<Rightarrow> url \<Rightarrow> bool"
  nwAnswer :: "nat \<Rightarrow> url \<Rightarrow> answer"

section \<open>Dialing\<close>

text \<open>\<open>net.OpError\<close> around the guard's error.\<close>

definition op_error :: "goerr \<Rightarrow> transport_error" where
  "op_error e = (plain_error e)\<lparr>teErr := Errorf ''dial tcp: %w'' [e]\<rparr>"

definition missing_address :: transport_error where
  "missing_address = plain_error (Sentinel ''dial tcp: missing address'')"

definition first_error :: "transport_error option \<Rightarrow> transport_error \<Rightarrow> transport_error option" where
  "first_error f0 e = Some (case f0 of None \<Rightarrow> e | Some f \<Rightarrow> f)"

text \<open>The addresses connected to, and the error when none of the connects succeeds.\<close>

fun dial_serial ::
    "transport \<Rightarrow> (string \<Rightarrow> transport_error option) \<Rightarrow> transport_error option \<Rightarrow> string list \<Rightarrow>
     string list \<times> transport_error option" where
  "dial_serial tp conn f [] = ([], first_error f missing_address)"
| "dial_serial tp conn f (a # as) =
     (case tpControl tp a of
        Some e \<Rightarrow> dial_serial tp conn (first_error f (op_error e)) as
      | None \<Rightarrow>
          (case conn a of None \<Rightarrow> ([a], None)
           | Some e \<Rightarrow> (case dial_serial tp conn (first_error f e) as of (cs, r) \<Rightarrow> (a # cs, r))))"

definition round_trip :: "transport \<Rightarrow> network \<Rightarrow> nat \<Rightarrow> url \<Rightarrow> string list \<times> answer" where
  "round_trip tp nw n u =
     (if nwIdle nw n u then ([], nwAnswer nw n u)
      else case (case tpProxy tp of Some addrs \<Rightarrow> Inr addrs | None \<Rightarrow> nwResolve nw u) of
             Inl e \<Rightarrow> ([], NetError e)
           | Inr addrs \<Rightarrow>
               (case dial_serial tp (nwConnect nw) None addrs of
                  (cs, Some e) \<Rightarrow> (cs, NetError e)
                | (cs, None) \<Rightarrow> (cs, nwAnswer nw n u)))"

text \<open>\<open>Check.Run\<close> on a transport: the observation, the URLs requested, the addresses connected to.\<close>

definition http_Run_on ::
    "transport \<Rightarrow> network \<Rightarrow> http_check \<Rightarrow> clock \<Rightarrow> target \<Rightarrow> observation \<times> url list \<times> string list" where
  "http_Run_on tp nw c ck t =
     (case http_Run c ck (\<lambda>n u. snd (round_trip tp nw n u)) t of
        (obs, us) \<Rightarrow> (obs, us, concat (map (\<lambda>(n, u). fst (round_trip tp nw n u)) (enumerate 0 us))))"

section \<open>Lemmas\<close>

lemma dial_allowed:
  "a \<in> set (fst (dial_serial tp conn f as)) \<Longrightarrow> tpControl tp a = None"
proof (induction as arbitrary: f)
  case (Cons b bs)
  show ?case
  proof (cases "tpControl tp b")
    case None
    show ?thesis
    proof (cases "conn b")
      case (Some e)
      obtain cs r where "dial_serial tp conn (first_error f e) bs = (cs, r)" by force
      then show ?thesis using Cons.IH [of "first_error f e"] Cons.prems None Some by auto
    qed (use Cons.prems None in auto)
  qed (use Cons in auto)
qed simp

lemma dial_listed: "dial_serial tp conn f as = (cs, r) \<Longrightarrow> a \<in> set cs \<Longrightarrow> tpControl tp a = None"
  using dial_allowed [of a tp conn f as] by simp

lemma round_trip_allowed: "a \<in> set (fst (round_trip tp nw n u)) \<Longrightarrow> tpControl tp a = None"
  by (auto simp: round_trip_def split: if_splits sum.splits prod.splits option.splits dest: dial_listed)

lemma dial_first:
  "\<forall>a \<in> set as. tpControl tp a \<noteq> None \<Longrightarrow> dial_serial tp conn (Some e) as = ([], Some e)"
  by (induction as) (auto simp: first_error_def)

text \<open>When the guard vetoes every address, nothing is connected to and its error is returned.\<close>

lemma dial_blocked:
  assumes "as \<noteq> []" "\<forall>a \<in> set as. tpControl tp a \<noteq> None"
  shows "\<exists>a \<in> set as. \<exists>e. tpControl tp a = Some e \<and> dial_serial tp conn None as = ([], Some (op_error e))"
proof -
  obtain a bs where as: "as = a # bs" using assms(1) by (cases as) auto
  then obtain e where "tpControl tp a = Some e" using assms(2) by auto
  then show ?thesis using as dial_first [of bs tp conn "op_error e"] assms(2)
    by (auto simp: first_error_def)
qed

lemma control_error: "controlContext a = Some e \<Longrightarrow> errors_is e ErrSSRFBlocked"
  by (auto simp: controlContext_def blocked_def ErrSSRFBlocked_def split: option.splits prod.splits if_splits)

lemma blocked_class: "errors_is e ErrSSRFBlocked \<Longrightarrow> classifyError (url_error u (op_error e)) = ErrSSRFBlockedClass"
  by (simp add: classifyError_def url_error_def op_error_def)

text \<open>An error answers the last request of a chain and is what the client returns.\<close>

lemma client_do_last_error:
  assumes "client_do skip net n u = (us, r)" "n < maxRedirects" "net (n + length us - 1) (last us) = NetError e"
  shows "r = DoErr (url_error (stripPassword (last us)) e)"
  using assms
proof (induction skip net n u arbitrary: us r rule: client_do.induct)
  case (1 skip net n u)
  show ?case
  proof (cases "net n u")
    case (NetError e')
    then show ?thesis using "1.prems" by (auto simp: client_do.simps [of skip net n u])
  next
    case (Response st tls body nxt)
    show ?thesis
    proof (cases "\<exists>loc v. nxt = Some (loc, v) \<and> CheckRedirect skip v (n + 1) = None")
      case False
      then have "us = [u]" using "1.prems"(1) Response
        by (auto simp: client_do.simps [of skip net n u] split: option.splits)
      then show ?thesis using "1.prems"(3) Response by simp
    next
      case True
      then obtain loc v where v: "nxt = Some (loc, v)" "CheckRedirect skip v (n + 1) = None" by blast
      then have n: "n + 1 < maxRedirects" by (auto simp: CheckRedirect_def split: if_splits)
      obtain ws where w: "client_do skip net (n + 1) v = (ws, r)" "us = u # ws"
        using "1.prems"(1) Response v by (auto simp: client_do.simps [of skip net n u] split: prod.splits)
      have ne: "ws \<noteq> []" using client_do_requests [OF w(1) n] by simp
      then have "net (n + 1 + length ws - 1) (last ws) = NetError e" using "1.prems"(3) w(2) by simp
      from "1.IH" [OF Response v(1) refl v(2) w(1) n this] show ?thesis using w(2) ne by simp
    qed
  qed
qed

section \<open>Property\<close>

text \<open>
  C14: no probe connects to a blocked address. Whatever names resolve to, at any request of any
  redirect chain, a check on the transport that New installs opens TCP connections only to addresses that
  parse and are not blocked. And when every address of the last request's host is blocked, the dial fails
  before any connect and the observation says ssrf_blocked.
\<close>

theorem http_dials_guarded:
  assumes "http_Run_on newSafeTransport nw c ck t = (obs, us, conns)"
  shows "(\<forall>a \<in> set conns. \<exists>ip port. ParseAddrPort a = Some (ip, port) \<and> \<not> isBlockedIP ip) \<and>
    (us \<noteq> [] \<and> \<not> nwIdle nw (length us - 1) (last us) \<and> nwResolve nw (last us) = Inr addrs \<and> addrs \<noteq> [] \<and>
      (\<forall>a \<in> set addrs. controlContext a \<noteq> None) \<longrightarrow>
     Status obs = StatusDown \<and> ErrorClass obs = ErrSSRFBlockedClass \<and>
     fst (round_trip newSafeTransport nw (length us - 1) (last us)) = [])"
proof -
  let ?net = "\<lambda>n u. snd (round_trip newSafeTransport nw n u)"
  have run: "http_Run c ck ?net t = (obs, us)"
    and conns: "conns = concat (map (\<lambda>(n, u). fst (round_trip newSafeTransport nw n u)) (enumerate 0 us))"
    using assms by (auto simp: http_Run_on_def split: prod.splits)
  have "\<exists>ip port. ParseAddrPort a = Some (ip, port) \<and> \<not> isBlockedIP ip" if "a \<in> set conns" for a
  proof -
    obtain n u where "a \<in> set (fst (round_trip newSafeTransport nw n u))" using \<open>a \<in> set conns\<close> by (auto simp: conns)
    then have "controlContext a = None" using round_trip_allowed by (fastforce simp: newSafeTransport_def)
    then show ?thesis by (auto simp: controlContext_def split: option.splits if_splits)
  qed
  moreover have "Status obs = StatusDown \<and> ErrorClass obs = ErrSSRFBlockedClass \<and>
      fst (round_trip newSafeTransport nw (length us - 1) (last us)) = []"
    if us: "us \<noteq> []" "\<not> nwIdle nw (length us - 1) (last us)" "nwResolve nw (last us) = Inr addrs" "addrs \<noteq> []"
      and b: "\<forall>a \<in> set addrs. controlContext a \<noteq> None"
  proof -
    obtain a e where e: "controlContext a = Some e"
        "dial_serial newSafeTransport (nwConnect nw) None addrs = ([], Some (op_error e))"
      using dial_blocked [OF us(4), of newSafeTransport "nwConnect nw"] b by (auto simp: newSafeTransport_def)
    then have rt: "round_trip newSafeTransport nw (length us - 1) (last us) = ([], NetError (op_error e))"
      using us(2,3) by (simp add: round_trip_def newSafeTransport_def)
    obtain u r where d: "client_do (hcSkipSSRF c) ?net 0 u = (us, r)"
      and obs: "obs = (let obs = (blank_obs ck t)\<lparr>LatencyMs := ckElapsed ck sdiv Millisecond, ObservedAt := ckEnd ck\<rparr>
         in case r of DoErr err \<Rightarrow> obs\<lparr>Status := StatusDown, ErrorClass := classifyError err\<rparr>
            | DoResp u st tls body \<Rightarrow> observe_response u st tls body obs)"
      using run us(1) by (auto simp: http_Run_def Let_def split: if_splits option.splits prod.splits)
    have "r = DoErr (url_error (stripPassword (last us)) (op_error e))"
      using client_do_last_error [OF d] rt by (simp add: maxRedirects_def)
    then show ?thesis using obs rt blocked_class [OF control_error [OF e(1)]] by (simp add: Let_def)
  qed
  ultimately show ?thesis by blast
qed

definition demo_network :: network where
  "demo_network =
     \<lparr>nwResolve = (\<lambda>u. Inr (if Hostname u = ''a'' then [''10.0.0.1:80'', ''1.2.3.4:80''] else [''127.0.0.1:80''])),
      nwConnect = (\<lambda>a. None), nwIdle = (\<lambda>n u. False),
      nwAnswer = (\<lambda>n u. Response 302 None [] (map_option (Pair ''http://b/'') (url_Parse ''http://b/'')))\<rparr>"

definition demo_probe :: "observation \<times> url list \<times> string list" where
  "demo_probe = http_Run_on newSafeTransport demo_network (NewHttpCheck 0 [])
     \<lparr>ckEntry = 1, ckStart = 1, ckEnd = 2, ckElapsed = 1\<rparr> \<lparr>URL = ''http://a/'', Labels = Map.empty, Interval = 0\<rparr>"

theorem http_dials_guarded_witness:
  "\<exists>obs us. demo_probe = (obs, us, [''1.2.3.4:80'']) \<and> length us = 2 \<and> ErrorClass obs = ErrSSRFBlockedClass"
proof -
  obtain obs us conns where p: "demo_probe = (obs, us, conns)" by (cases demo_probe) auto
  have "(length us, conns, map Hostname us) = (2, [''1.2.3.4:80''], [''a'', ''b''])"
  proof -
    have "(case demo_probe of (obs, us, conns) \<Rightarrow> (length us, conns, map Hostname us)) = (2, [''1.2.3.4:80''], [''a'', ''b''])"
      by code_simp
    then show ?thesis unfolding p by simp
  qed
  then have c: "length us = 2" "conns = [''1.2.3.4:80'']" "map Hostname us = [''a'', ''b'']" by simp_all
  then have l: "us \<noteq> []" "Hostname (last us) = ''b''" by (cases us; cases "tl us"; auto)+
  have r: "nwResolve demo_network (last us) = Inr [''127.0.0.1:80'']" by (simp add: demo_network_def l)
  have b: "controlContext ''127.0.0.1:80'' \<noteq> None" by code_simp
  have i: "\<not> nwIdle demo_network (length us - 1) (last us)" by (simp add: demo_network_def)
  from http_dials_guarded [OF p [unfolded demo_probe_def], of "[''127.0.0.1:80'']"] show ?thesis
    using p c(1,2) l(1) r b i by auto
qed

end
