(* ===== verification/DrainRate.thy ===== *)
theory DrainRate
  imports Cli
begin

text \<open>
  The rate limit of the drain (drainResults in cmd/descry/main.go): when a skip of a target gets a
  line of its own, as a function of the times of the lines before it.
\<close>

definition skip_window :: "duration \<Rightarrow> result \<Rightarrow> duration" where
  "skip_window iv res = (if Interval (ResTarget res) \<le> 0 then iv else Interval (ResTarget res))"

definition is_skip_of :: "string \<Rightarrow> result \<Rightarrow> bool" where
  "is_skip_of u res \<longleftrightarrow> skip_kind res \<noteq> None \<and> URL (ResTarget res) = u"

text \<open>The Result at index \<open>i\<close> is a skip of the target URL that gets a line.\<close>

definition skip_line :: "bool \<Rightarrow> duration \<Rightarrow> (time \<times> result) list \<Rightarrow> string \<Rightarrow> nat \<Rightarrow> bool" where
  "skip_line obs iv rs u i \<longleftrightarrow> i < length rs \<and> is_skip_of u (snd (rs ! i)) \<and>
     dr_lines (drainResults obs iv (take (Suc i) rs)) \<noteq> dr_lines (drainResults obs iv (take i rs))"

definition quiet :: "duration \<Rightarrow> time \<Rightarrow> result \<Rightarrow> skipState \<Rightarrow> bool" where
  "quiet iv t res st \<longleftrightarrow>
     \<not> time_is_zero (sk_last st) \<and> time_sub t (sk_last st) < skip_window iv res \<and> 0 \<le> time_sub t (sk_last st)"

definition state_of :: "drain \<Rightarrow> string \<Rightarrow> skipState" where
  "state_of d u = (case dr_skips d u of Some st \<Rightarrow> st | None \<Rightarrow> \<lparr>sk_last = 0, sk_suppressed = 0\<rparr>)"

lemma drain_skip_state:
  assumes "is_skip_of u res"
  shows "(dr_lines (drain_result obs iv (t, res) d) \<noteq> dr_lines d) = (\<not> quiet iv t res (state_of d u))"
    "sk_last (state_of (drain_result obs iv (t, res) d) u) =
       (if quiet iv t res (state_of d u) then sk_last (state_of d u) else t)"
proof -
  obtain reason kind where sw: "drain_switch res = CaseSkip reason kind"
    using assms queued_is_skipped
    by (auto simp: is_skip_of_def skip_kind_def drain_switch_def split: option.splits if_splits)
  have u: "URL (ResTarget res) = u" using assms by (simp add: is_skip_of_def)
  have d: "drain_result obs iv (t, res) d = drain_skip obs iv t res reason kind d"
    by (simp add: drain_result_def sw)
  let ?d = "drain_result obs iv (t, res) d" and ?q = "quiet iv t res (state_of d u)"
  have o: "dr_skips (if obs then d\<lparr>dr_observed := x\<rparr> else d) = dr_skips d" for x by simp
  note e = d drain_skip_def Let_def o u
  note f = state_of_def [symmetric] skip_window_def [symmetric] quiet_def [symmetric]
  show "(dr_lines ?d \<noteq> dr_lines d) = (\<not> ?q)" unfolding e unfolding f by simp
  have "dr_skips ?d u = Some (if ?q then (state_of d u)\<lparr>sk_suppressed := wrap64 (sk_suppressed (state_of d u) + 1)\<rparr>
      else if 0 < sk_suppressed (state_of d u) then \<lparr>sk_last = t, sk_suppressed = 0\<rparr> else (state_of d u)\<lparr>sk_last := t\<rparr>)"
    unfolding e unfolding f by simp
  then show "sk_last (state_of ?d u) = (if ?q then sk_last (state_of d u) else t)"
    by (simp add: state_of_def [of ?d])
qed

lemma drain_other_state:
  assumes "\<not> is_skip_of u res"
  shows "state_of (drain_result obs iv (t, res) d) u = state_of d u"
proof (cases "drain_switch res")
  case (CaseSkip reason kind)
  then have "skip_kind res \<noteq> None"
    by (auto simp: drain_switch_def skip_kind_def split: option.splits if_splits)
  then have u: "URL (ResTarget res) \<noteq> u" using assms by (simp add: is_skip_of_def)
  have "dr_skips (drain_skip obs iv t res reason kind d) u = dr_skips d u"
    using u by (simp add: drain_skip_def Let_def)
  then show ?thesis by (simp add: drain_result_def CaseSkip state_of_def)
qed (simp_all add: drain_result_def state_of_def)

lemma skip_line_snoc:
  "skip_line obs iv (rs @ [x]) u i \<longleftrightarrow> skip_line obs iv rs u i \<or>
     i = length rs \<and> is_skip_of u (snd x) \<and> \<not> quiet iv (fst x) (snd x) (state_of (drainResults obs iv rs) u)"
proof (cases x)
  case (Pair t res)
  then show ?thesis using drain_skip_state(1) [of u res obs iv t "drainResults obs iv rs"]
    by (auto simp: skip_line_def nth_append drainResults_snoc less_Suc_eq)
qed

text \<open>The state holds the time of the last line, and the zero time before the first.\<close>

lemma last_line:
  assumes "\<forall>(t, res) \<in> set rs. 0 < t"
  shows "(if \<exists>i. skip_line obs iv rs u i
     then \<exists>i. skip_line obs iv rs u i \<and> sk_last (state_of (drainResults obs iv rs) u) = fst (rs ! i) \<and>
       (\<forall>j. skip_line obs iv rs u j \<longrightarrow> j \<le> i)
     else sk_last (state_of (drainResults obs iv rs) u) = 0)"
  using assms
proof (induction rs rule: rev_induct)
  case Nil
  then show ?case by (simp add: skip_line_def drainResults_def new_drain_def state_of_def)
next
  case (snoc x rs)
  obtain t res where x: "x = (t, res)" by (cases x)
  let ?st = "state_of (drainResults obs iv rs) u"
  have lt: "skip_line obs iv rs u i \<Longrightarrow> i < length rs" for i by (simp add: skip_line_def)
  show ?case
  proof (cases "is_skip_of u res \<and> \<not> quiet iv t res ?st")
    case True
    then have l: "skip_line obs iv (rs @ [x]) u (length rs)" by (simp add: skip_line_snoc x)
    have "sk_last (state_of (drainResults obs iv (rs @ [x])) u) = t"
      using drain_skip_state(2) [of u res] True by (simp add: drainResults_snoc x)
    moreover have "j \<le> length rs" if "skip_line obs iv (rs @ [x]) u j" for j
      using that by (simp add: skip_line_def)
    ultimately have "\<exists>i. skip_line obs iv (rs @ [x]) u i \<and>
        sk_last (state_of (drainResults obs iv (rs @ [x])) u) = fst ((rs @ [x]) ! i) \<and>
        (\<forall>j. skip_line obs iv (rs @ [x]) u j \<longrightarrow> j \<le> i)"
      using l by (intro exI [of _ "length rs"]) (auto simp: x)
    then show ?thesis using l by auto
  next
    case False
    then have same: "skip_line obs iv (rs @ [x]) u i = skip_line obs iv rs u i" for i
      by (auto simp: skip_line_snoc x)
    have "sk_last (state_of (drainResults obs iv (rs @ [x])) u) = sk_last ?st"
      using False drain_skip_state(2) [of u res] drain_other_state [of u res]
      by (cases "is_skip_of u res") (simp_all add: drainResults_snoc x)
    moreover have "fst ((rs @ [x]) ! i) = fst (rs ! i)" if "skip_line obs iv rs u i" for i
      using lt [OF that] by (simp add: nth_append)
    ultimately show ?thesis using snoc unfolding same by (auto split: if_splits)
  qed
qed

text \<open>
  C21: the drain's rate limit, exactly. With clock readings that do not step back, a skip of a
  target gets a line exactly when every earlier line for that target URL is at least one window old: the
  target's own interval, or the default. So two lines for a URL are never closer than the window of the
  later, and a skip is never held back without a line for that URL within the window before it.
\<close>

theorem drain_rate_limit:
  assumes "sorted (map fst rs)" "\<forall>(t, res) \<in> set rs. 0 < t \<and> skip_window iv res \<le> max64"
    "j < length rs" "is_skip_of u (snd (rs ! j))"
  shows "skip_line obs iv rs u j \<longleftrightarrow>
    (\<forall>i < j. skip_line obs iv rs u i \<longrightarrow> skip_window iv (snd (rs ! j)) \<le> fst (rs ! j) - fst (rs ! i))"
proof -
  let ?t = "fst (rs ! j)" and ?w = "skip_window iv (snd (rs ! j))" and ?p = "take j rs"
  let ?st = "state_of (drainResults obs iv ?p) u"
  have pre: "skip_line obs iv rs u i = skip_line obs iv ?p u i" if "i < j" for i
    using that assms(3) by (simp add: skip_line_def min_def)
  have here: "skip_line obs iv rs u j = (\<not> quiet iv ?t (snd (rs ! j)) ?st)"
    using assms(3,4) drain_skip_state(1) [OF assms(4), of obs iv ?t "drainResults obs iv ?p"]
    by (simp add: skip_line_def take_Suc_conv_app_nth drainResults_snoc)
  have lt: "skip_line obs iv ?p u i \<Longrightarrow> i < j" for i by (simp add: skip_line_def)
  have mono: "fst (rs ! i) \<le> fst (rs ! i')" if "i \<le> i'" "i' \<le> j" for i i'
    using sorted_nth_mono [OF assms(1), of i i'] that assms(3) by simp
  have w: "?w \<le> max64" using assms(2,3) nth_mem [OF assms(3)] by (cases "rs ! j") auto
  have pos: "\<forall>(t, res) \<in> set ?p. 0 < t" using assms(2) set_take_subset [of j rs] by fastforce
  note last = last_line [OF pos, of obs iv u]
  show ?thesis
  proof (cases "\<exists>i. skip_line obs iv ?p u i")
    case False
    then have "sk_last ?st = 0" using last by simp
    then have "skip_line obs iv rs u j" by (simp add: here quiet_def time_is_zero_def)
    then show ?thesis using False pre by blast
  next
    case True
    then obtain i where i: "skip_line obs iv ?p u i" "sk_last ?st = fst (?p ! i)" "\<And>i'. skip_line obs iv ?p u i' \<Longrightarrow> i' \<le> i"
      using last by auto
    have ij: "i < j" using lt [OF i(1)] .
    have s: "sk_last ?st = fst (rs ! i)" using i(2) ij by simp
    have "0 < fst (rs ! i)" using assms(2,3) ij nth_mem [of i rs] by (cases "rs ! i") force
    moreover have "0 \<le> ?t - fst (rs ! i)" using mono [of i j] ij by simp
    ultimately have q: "quiet iv ?t (snd (rs ! j)) ?st \<longleftrightarrow> ?t - fst (rs ! i) < ?w"
      using w by (auto simp: quiet_def time_is_zero_def s time_sub_def sat64_def min64_def max64_def)
    have "?w \<le> ?t - fst (rs ! i')" if "?w \<le> ?t - fst (rs ! i)" "skip_line obs iv ?p u i'" for i'
      using mono [OF i(3) [OF that(2)]] ij that(1) by simp
    then show ?thesis using here q i(1) ij pre by (auto simp: not_less)
  qed
qed

definition demo_skips :: "(time \<times> result) list" where
  "demo_skips = map (\<lambda>t. (t, \<lparr>ResTarget = \<lparr>URL = ''u'', Labels = Map.empty, Interval = 0\<rparr>, ResErr = Some ErrSkipped\<rparr>))
     [100, 105, 110]"

lemma demo_lines: "map (\<lambda>i. length (dr_lines (drainResults True 10 (take i demo_skips)))) [0, 1, 2, 3] = [0, 1, 1, 2]"
  by code_simp

theorem drain_rate_limit_witness:
  "skip_line True 10 demo_skips ''u'' 0 \<and> \<not> skip_line True 10 demo_skips ''u'' 1 \<and> skip_line True 10 demo_skips ''u'' 2 \<and>
   10 \<le> fst (demo_skips ! 2) - fst (demo_skips ! 0)"
proof -
  have len: "length demo_skips = 3" by (simp add: demo_skips_def)
  have sk: "is_skip_of ''u'' (snd (demo_skips ! i))" if "i < 3" for i
    using that by (auto simp: demo_skips_def is_skip_of_def skip_kind_def less_Suc_eq numeral_3_eq_3)
  have w: "skip_window 10 (snd (demo_skips ! 2)) = 10" by (simp add: demo_skips_def skip_window_def)
  have n: "length (dr_lines (drainResults True 10 (take 0 demo_skips))) = 0"
    "length (dr_lines (drainResults True 10 (take (Suc 0) demo_skips))) = 1"
    "length (dr_lines (drainResults True 10 (take (Suc (Suc 0)) demo_skips))) = 1"
    "length (dr_lines (drainResults True 10 (take (Suc (Suc (Suc 0))) demo_skips))) = 2"
    using demo_lines by (simp_all add: numeral_2_eq_2 numeral_3_eq_3)
  have l: "skip_line True 10 demo_skips ''u'' 0" "skip_line True 10 demo_skips ''u'' 2"
    using n sk len by (force simp: skip_line_def numeral_2_eq_2)+
  have "sorted (map fst demo_skips)" "\<forall>(t, res) \<in> set demo_skips. 0 < t \<and> skip_window 10 res \<le> max64"
    by (simp_all add: demo_skips_def skip_window_def max64_def)
  note lim = drain_rate_limit [OF this]
  have t: "fst (demo_skips ! 0) = 100" "fst (demo_skips ! 1) = 105" "skip_window 10 (snd (demo_skips ! 1)) = 10"
    by (simp_all add: demo_skips_def skip_window_def)
  have "\<not> skip_line True 10 demo_skips ''u'' 1"
    using lim [of 1 "''u''"] l(1) sk [of 1] len t by simp
  moreover have "10 \<le> fst (demo_skips ! 2) - fst (demo_skips ! 0)"
    using lim [of 2 "''u''"] l sk len w by simp
  ultimately show ?thesis using l by auto
qed

end
