(* ===== verification/RunnerStop.thy ===== *)
theory RunnerStop
  imports RunnerAcct
begin

text \<open>
  Shutdown: once the scheduler has stopped, every transition of the system uses up a bounded measure and
  some goroutine can always move, so Run returns; what Run returns; that no Publish follows a return
  that closed Results(); and the entries that a cancelled context leaves without a Result.
\<close>

section \<open>The shutdown measure\<close>

fun rpc_left :: "rpc \<Rightarrow> nat" where
  "rpc_left (RpSend res) = 5"
| "rpc_left (RpDrop res) = 4"
| "rpc_left (RpClock res) = 3"
| "rpc_left (RpLoad res now) = 2"
| "rpc_left (RpCas res now prev) = 1"

fun worker_left :: "'u wpc \<Rightarrow> nat" where
  "worker_left WExit = 0"
| "worker_left WIdle = 1"
| "worker_left (WAck i) = 2"
| "worker_left (WReport i rp) = 2 + rpc_left rp"
| "worker_left (WBackoff i e a err) = 8 + 2 * (maxPublishAttempts - a)"
| "worker_left (WPublish i e a) = 9 + 2 * (maxPublishAttempts - a)"
| "worker_left (WEncode i obs) = 16"
| "worker_left (WCheck i) = 17"
| "worker_left (WStart i) = 18"
| "worker_left (WGot i) = 19"

fun run_left :: "spc \<Rightarrow> nat" where
  "run_left (RReturned err) = 0"
| "run_left (RWait err) = 1"
| "run_left (RGrace err) = 1"
| "run_left pc = 2"

definition workers_left :: "'u wpc list \<Rightarrow> nat" where
  "workers_left ws = (\<Sum>p\<leftarrow>ws. worker_left p)"

definition stop_left :: "'u sys \<Rightarrow> nat" where
  "stop_left s = run_left (spc s) + workers_left (workers s) + 19 * length (work s)"

lemma workers_left_update:
  "w < length ws \<Longrightarrow> workers_left (ws[w := p]) + worker_left (ws ! w) = workers_left ws + worker_left p"
  unfolding workers_left_def
proof (induction ws arbitrary: w)
  case (Cons q ws)
  then show ?case by (cases w) fastforce+
qed simp

lemma report_left:
  "report_step i rp inp s = Some (Some rp', t, evs) \<Longrightarrow> rpc_left rp' < rpc_left rp"
  by (cases "(i, rp, inp, s)" rule: report_step.cases) (auto simp: Let_def split: if_splits)

lemma rpc_left_pos: "0 < rpc_left rp"
  by (cases rp) simp_all

lemma stop_left_worker:
  assumes w: "w < length (workers s)" and step: "worker_step k w inp s = Some (s', evs)"
  shows "stop_left s' < stop_left s"
proof -
  note up = workers_left_update [OF w]
  note pc = worker_frame(2) [OF step]
  have less: "stop_left s' < stop_left s"
    if "workers s' = (workers s)[w := p]" "work s' = work s" "worker_left p < worker_left (workers s ! w)" for p
    using that up [of p] pc by (simp add: stop_left_def)
  have move: "stop_left (set_worker w p t) < stop_left s"
    if "workers t = workers s" "work t = work s" "spc t = spc s" "worker_left p < worker_left (workers s ! w)" for p t
    using that up [of p] by (simp add: stop_left_def)
  show ?thesis
    using step
  proof (cases rule: worker_step_cases)
    case recv
    then show ?thesis using up [of "WGot (hd (work s))"] up [of WExit] pc
      by (auto simp: recv_work_def stop_left_def split: list.splits if_splits)
  next
    case (report i rp rp' t)
    have "worker_left (case rp' of None \<Rightarrow> WAck i | Some rp' \<Rightarrow> WReport i rp') < worker_left (workers s ! w)"
      using report rpc_left_pos [of rp] report_left [of i rp inp s] by (auto split: option.splits)
    then show ?thesis using report report_step_frame(4,5) [OF report(2)]
      by (intro less [of "case rp' of None \<Rightarrow> WAck i | Some rp' \<Rightarrow> WReport i rp'"]) simp_all
  qed (auto simp: worker_defs maxPublishAttempts_def intro!: move
      split: option.splits sum.splits choice.splits prod.splits if_splits)
qed

lemma stop_left_sched:
  assumes "\<not> scheduling (spc s)" "sched_step inp s = Some (s', evs)" "chan_inv s"
  shows "stop_left s' < stop_left s" "\<not> scheduling (spc s')"
proof -
  have "stop_left s' < stop_left s \<and> \<not> scheduling (spc s')"
    using assms(2)
  proof (cases rule: sched_step_cases)
    case (close err)
    have "\<not> work_closed s" using assms(3) close(1) by (simp add: chan_inv_def)
    then show ?thesis using close by (auto simp: close_work_def stop_left_def)
  next
    case (all_done err)
    have "\<not> results_closed s" using assms(3) all_done(1) by (auto simp: chan_inv_def)
    then show ?thesis using all_done by (auto simp: close_results_def stop_left_def)
  next
    case (graced c err)
    have "\<not> results_closed s" using assms(3) graced(1) by (auto simp: chan_inv_def)
    then show ?thesis using graced
      by (auto simp: grace_step_def close_results_def stop_left_def split: choice.splits if_splits)
  qed (use assms(1) in simp_all)
  then show "stop_left s' < stop_left s" "\<not> scheduling (spc s')" by simp_all
qed

section \<open>Some goroutine can move\<close>

lemma report_can_step: "\<exists>inp. report_step i rp inp s \<noteq> None"
  by (cases rp) (auto simp: Let_def intro: exI [of _ NoInput] exI [of _ "Clock 0"])

text \<open>
  A worker that has not exited can move (its Check and Publish return, its back-off timer fires): it
  is blocked only on an empty work that is still open.
\<close>

lemma worker_can_step:
  assumes tk: "token_inv s" and w: "w < length (workers s)"
    and p: "workers s ! w \<noteq> WExit" "workers s ! w \<noteq> WIdle \<or> work s \<noteq> [] \<or> work_closed s"
  shows "\<exists>inp. worker_step k w inp s \<noteq> None"
proof (cases "workers s ! w")
  case WIdle
  then have "worker_step k w NoInput s \<noteq> None" using p(2)
    by (auto simp: worker_step.simps recv_work_def split: list.splits)
  then show ?thesis by blast
next
  case (WCheck i)
  then have "worker_step k w (CheckReturns (Inl ErrSkipped)) s \<noteq> None" by (simp add: worker_step.simps)
  then show ?thesis by blast
next
  case (WEncode i obs)
  then have "worker_step k w (FreshID []) s \<noteq> None" by (simp add: worker_step.simps)
  then show ?thesis by blast
next
  case (WPublish i e a)
  then have "worker_step k w (PublishReturns None) s \<noteq> None" by (simp add: worker_step.simps)
  then show ?thesis by blast
next
  case (WBackoff i e a err)
  then have "worker_step k w (Choose OnTimer) s \<noteq> None" by (simp add: worker_step.simps backoff_def)
  then show ?thesis by blast
next
  case (WReport i rp)
  obtain inp where "report_step i rp inp s \<noteq> None" using report_can_step by blast
  then have "worker_step k w inp s \<noteq> None" using WReport by (auto simp: worker_step.simps)
  then show ?thesis by blast
next
  case (WAck i)
  then have "worker_step k w NoInput s \<noteq> None" using done_has_room [OF tk w WAck]
    by (simp add: worker_step.simps send_ack_def)
  then show ?thesis by blast
next
  case (WGot i)
  then have "worker_step k w NoInput s \<noteq> None" by (simp add: worker_step.simps)
  then show ?thesis by blast
next
  case (WStart i)
  then have "worker_step k w NoInput s \<noteq> None" by (simp add: worker_step.simps)
  then show ?thesis by blast
qed (use p(1) in simp)

definition can_move :: "('p, 'u) sdk \<Rightarrow> 'u sys \<Rightarrow> bool" where
  "can_move k s \<longleftrightarrow> (\<exists>inp. sched_step inp s \<noteq> None) \<or>
     (\<exists>w < length (workers s). \<exists>inp. worker_step k w inp s \<noteq> None)"

lemma stopped_can_move:
  assumes "runner_inv ts s" "\<not> scheduling (spc s)" "\<And>err. spc s \<noteq> RReturned err"
  shows "can_move k s"
proof (cases "\<exists>err. spc s = SReturned err")
  case True
  then show ?thesis by (auto simp: can_move_def sched_step.simps intro: exI [of _ NoInput])
next
  case False
  note inv = runner_invD [OF assms(1)]
  have pc: "(\<exists>err. spc s = RWait err) \<or> (\<exists>err. spc s = RGrace err)"
    using assms(2,3) False by (cases "spc s") auto
  then have cl: "work_closed s" using inv(2) by (auto simp: chan_inv_def)
  show ?thesis
  proof (cases "all_exited s")
    case True
    then have "sched_step NoInput s \<noteq> None \<or> sched_step (Choose OnChannel) s \<noteq> None"
      using pc by (auto simp: sched_step.simps grace_step_def)
    then show ?thesis by (auto simp: can_move_def)
  next
    case False
    then obtain w where "w < length (workers s)" "workers s ! w \<noteq> WExit"
      by (auto simp: all_exited_def list_all_length)
    then show ?thesis using worker_can_step [OF inv(4), of w k] cl by (auto simp: can_move_def)
  qed
qed

text \<open>While it schedules, Run's goroutine can always move; with no targets it needs the context.\<close>

lemma scheduling_can_move:
  assumes "runner_inv ts s" "scheduling (spc s)" "spc s = SIdle \<Longrightarrow> ctx_err s \<noteq> None"
  shows "\<exists>inp. sched_step inp s \<noteq> None"
proof (cases "spc s")
  case SIdle
  then show ?thesis using assms(3) by (auto simp: sched_step.simps intro: exI [of _ "Choose OnContext"])
next
  case (SDispatch now)
  have "length (work s) < length (entries s)"
    using work_has_room [OF runner_invD(4) [OF assms(1)] SDispatch] .
  then have "sched_step (Choose OnChannel) s \<noteq> None"
    using SDispatch by (auto simp: sched_step.simps dispatch_step_def)
  then show ?thesis by blast
next
  case (SReport now rp)
  obtain inp where "report_step (htop s) rp inp s \<noteq> None" using report_can_step by blast
  then have "sched_step inp s \<noteq> None" using SReport by (auto simp: sched_step.simps)
  then show ?thesis by blast
next
  case SInit
  then have "sched_step (Clock 0) s \<noteq> None" by (simp add: sched_step.simps)
  then show ?thesis by blast
next
  case SPeek
  then have "sched_step (Clock 0) s \<noteq> None" by (simp add: sched_step.simps)
  then show ?thesis by blast
next
  case SWait
  then have "sched_step (Choose OnTimer) s \<noteq> None" by (simp add: sched_step.simps wait_step_def)
  then show ?thesis by blast
next
  case SDrain
  then have "sched_step NoInput s \<noteq> None" by (simp add: sched_step.simps)
  then show ?thesis by blast
next
  case (SSkip now)
  then have "sched_step NoInput s \<noteq> None" by (simp add: sched_step.simps)
  then show ?thesis by blast
next
  case (SAdvance now)
  then have "sched_step NoInput s \<noteq> None" by (simp add: sched_step.simps)
  then show ?thesis by blast
qed (use assms(2) in simp_all)

section \<open>What Run returns\<close>

text \<open>The error Run holds is the context's; the grace is only used when there is one.\<close>

definition return_inv :: "'u sys \<Rightarrow> bool" where
  "return_inv s \<longleftrightarrow>
     (\<forall>err. spc s \<in> {SReturned err, RWait err, RGrace err} \<longrightarrow> ctx_err s = Some err) \<and>
     (\<forall>err. spc s = RGrace err \<longrightarrow> 0 < grace s) \<and>
     (\<forall>err. spc s = RReturned err \<longrightarrow> (\<exists>e. ctx_err s = Some e \<and>
        (err = e \<and> results_closed s \<or> err = errors_Join [e, ErrShutdownTimeout] \<and> 0 < grace s)))"

lemma return_inv_step:
  assumes inv: "return_inv s" and ch: "chan_inv s" and step: "step k s evs s'"
  shows "return_inv s'"
  using step
proof cases
  case (sched inp)
  from sched(2) show ?thesis
  proof (cases rule: sched_step_cases)
    case (report now rp rp' t)
    then show ?thesis using report_step_frame [OF report(2)]
      by (cases rp') (auto simp: return_inv_def)
  next
    case (close err)
    have "\<not> work_closed s" using ch close(1) by (simp add: chan_inv_def)
    then show ?thesis using close inv by (auto simp: close_work_def return_inv_def)
  next
    case (all_done err)
    have "\<not> results_closed s" using ch all_done(1) by (auto simp: chan_inv_def)
    then show ?thesis using all_done inv by (auto simp: close_results_def return_inv_def)
  next
    case (graced c err)
    have "\<not> results_closed s" using ch graced(1) by (auto simp: chan_inv_def)
    then show ?thesis using graced inv
      by (auto simp: grace_step_def close_results_def return_inv_def split: choice.splits if_splits)
  qed (auto simp: sched_defs return_inv_def split: list.splits if_splits option.splits choice.splits)
next
  case (worker w inp)
  then show ?thesis using inv worker_frame(2,4,8,9) [OF worker(3)] by (simp add: return_inv_def)
qed (use inv in \<open>auto simp: return_inv_def\<close>)

lemma executes_return_inv:
  assumes "executes k cfg ts iv0 conc opts ctx evs s"
  shows "return_inv s"
proof -
  obtain r where e: "exec k (launch r ctx) evs s" and inv: "runner_inv ts (launch r ctx)"
    using executes_start [OF assms] by metis
  show ?thesis
  proof (rule exec_ghost [OF e inv, where Q = "\<lambda>_. return_inv"])
    fix s evs' s' assume "return_inv s" "runner_inv ts s" "step k s evs' s'"
    then show "return_inv s'" using return_inv_step runner_invD(2) by blast
  qed (simp add: return_inv_def)
qed

section \<open>After Run has returned\<close>

definition shut :: "'u sys \<Rightarrow> bool" where
  "shut s \<longleftrightarrow> (\<exists>err. spc s = RReturned err) \<and> all_exited s"

lemma shut_step:
  assumes "shut s" "step k s evs s'"
  shows "shut s'" "\<exists>rs. evs = map EvRecv rs"
proof -
  have "shut s' \<and> (\<exists>rs. evs = map EvRecv rs)"
    using assms(2)
  proof cases
    case (sched inp)
    then show ?thesis using assms(1) by (auto simp: shut_def sched_step.simps)
  next
    case (worker w inp)
    have "workers s ! w = WExit" using assms(1) worker(2) all_exited_worker by (auto simp: shut_def)
    then show ?thesis using worker(3) by (simp add: exited_worker_stuck)
  next
    case (cancel err)
    then show ?thesis using assms(1) by (auto simp: shut_def all_exited_def)
  next
    case (consume r rs)
    then show ?thesis using assms(1)
      by (auto simp: shut_def all_exited_def intro: exI [of _ "[r]"])
  qed
  then show "shut s'" "\<exists>rs. evs = map EvRecv rs" by auto
qed

lemma shut_exec:
  assumes "exec k s0 evs s" "shut s0"
  shows "shut s \<and> (\<exists>rs. evs = map EvRecv rs)"
  using assms(1)
proof induction
  case (exec_step evs s evs' s')
  then obtain rs where rs: "evs = map EvRecv rs" "shut s" by blast
  obtain rs' where "evs' = map EvRecv rs'" using shut_step(2) [OF rs(2) exec_step.hyps(2)] by blast
  then have "evs @ evs' = map EvRecv (rs @ rs')" using rs(1) by simp
  then show ?case using shut_step(1) [OF rs(2) exec_step.hyps(2)] by blast
qed (simp add: assms(2))

section \<open>Properties\<close>

lemma stop_left_bound: "stop_left s \<le> 2 + 19 * (length (workers s) + length (work s))"
proof -
  have "worker_left p \<le> 19" for p :: "'b wpc"
  proof (cases p)
    case (WReport i rp)
    then show ?thesis by (cases rp) simp_all
  qed (simp_all add: maxPublishAttempts_def)
  note each = this
  have all: "workers_left ws \<le> 19 * length ws" for ws :: "'b wpc list"
    unfolding workers_left_def
  proof (induction ws)
    case (Cons p ws)
    then show ?case using each [of p] by simp
  qed simp
  have "run_left (spc s) \<le> 2" by (cases "spc s") simp_all
  then show ?thesis using all [of "workers s"] by (simp add: stop_left_def)
qed

text \<open>
  C9: shutdown terminates. Once schedule has returned, and until Run has, some goroutine can move
  (when the Check and Publish calls in flight return), and every transition of Run's goroutine or of a
  worker uses up a measure that is at most 19 per worker and per queued entry, plus 2; the only other
  transitions are receives by the consumer, which leave it alone. So Run returns after at most that many
  transitions.
\<close>

theorem runner_shutdown_terminates:
  assumes "executes k cfg ts iv0 conc opts ctx evs s" "\<not> scheduling (spc s)"
  shows "((\<forall>err. spc s \<noteq> RReturned err) \<longrightarrow> can_move k s) \<and>
    (\<forall>evs' s'. step k s evs' s' \<longrightarrow> \<not> scheduling (spc s') \<and>
      (stop_left s' < stop_left s \<or> (\<exists>r. evs' = [EvRecv r]) \<and> stop_left s' = stop_left s)) \<and>
    stop_left s \<le> 2 + 19 * (length (workers s) + length (work s))"
proof -
  note inv = executes_inv [OF assms(1)]
  have "\<not> scheduling (spc s') \<and> (stop_left s' < stop_left s \<or> (\<exists>r. evs' = [EvRecv r]) \<and> stop_left s' = stop_left s)"
    if "step k s evs' s'" for evs' s'
    using that
  proof cases
    case (sched inp)
    then show ?thesis using stop_left_sched [OF assms(2) sched(2) runner_invD(2) [OF inv]] by simp
  next
    case (worker w inp)
    then show ?thesis using stop_left_worker [OF worker(2,3)] worker_frame(2) [OF worker(3)] assms(2) by simp
  next
    case (cancel err)
    have "ctx_err s \<noteq> None"
      using executes_return_inv [OF assms(1)] assms(2) by (cases "spc s") (auto simp: return_inv_def)
    then show ?thesis using cancel by simp
  next
    case (consume r rs)
    then show ?thesis using assms(2) by (simp add: stop_left_def)
  qed
  then show ?thesis using stopped_can_move [OF inv assms(2)] stop_left_bound by blast
qed

definition cancel_queued :: "action list" where
  "cancel_queued = dispatch_one @ [Cancel context_Canceled, Sched NoInput, Sched (Clock 1008), Sched (Choose OnContext)]"

definition ack_queued :: "action list" where
  "ack_queued = [Worker 0 NoInput, Worker 0 NoInput, Worker 0 NoInput, Sched NoInput, Worker 0 NoInput, Sched NoInput]"

theorem runner_shutdown_terminates_witness:
  "\<exists>s evs. demo [demo_target 0] 10 1 None cancel_queued = Some (s, evs) \<and> can_move demo_sdk s \<and> stop_left s = 22"
proof -
  have "map_option (\<lambda>(s, evs). (stop_left s, case spc s of SReturned err \<Rightarrow> True | _ \<Rightarrow> False))
      (demo [demo_target 0] 10 1 None cancel_queued) = Some (22, True)" by code_simp
  then obtain s evs where d: "demo [demo_target 0] 10 1 None cancel_queued = Some (s, evs)"
    and c: "stop_left s = 22" "case spc s of SReturned err \<Rightarrow> True | _ \<Rightarrow> False" by (auto elim: demo_result)
  obtain err where pc: "spc s = SReturned err" using c(2) by (cases "spc s") simp_all
  have e: "executes demo_sdk \<lparr>CfgSource = ''descry'', CfgType = []\<rparr> [demo_target 0] 10 1 [] None evs s"
    using d by (rule demo_executes) (simp_all add: max64_def demo_target_def)
  from runner_shutdown_terminates [OF e] show ?thesis using d c(1) pc by simp
qed

text \<open>
  C31: what Run returns: the context's error, with Results() closed and every worker gone, or, only
  with a positive grace, that error joined with ErrShutdownTimeout. Either way errors.Is finds the
  context's error.
\<close>

theorem runner_returns:
  assumes "executes k cfg ts iv0 conc opts ctx evs s" "spc s = RReturned err"
  shows "\<exists>e. ctx_err s = Some e \<and> errors_is err e \<and>
    (err = e \<and> results_closed s \<and> all_exited s \<or>
     0 < grace s \<and> err = errors_Join [e, ErrShutdownTimeout] \<and> errors_is err ErrShutdownTimeout)"
proof -
  have "results_closed s \<longrightarrow> all_exited s"
    using runner_invD(2) [OF executes_inv [OF assms(1)]] by (simp add: chan_inv_def)
  then show ?thesis using executes_return_inv [OF assms(1)] assms(2)
    by (auto simp: return_inv_def errors_Join_def)
qed

theorem runner_returns_witness:
  "\<exists>s evs. demo [demo_target 0] 10 1 None (cancel_queued @ ack_queued) = Some (s, evs) \<and>
    ctx_err s = Some context_Canceled \<and> results_closed s"
proof -
  have "map_option (\<lambda>(s, evs). (ctx_err s, grace s, case spc s of RReturned err \<Rightarrow> True | _ \<Rightarrow> False))
      (demo [demo_target 0] 10 1 None (cancel_queued @ ack_queued)) = Some (Some context_Canceled, 0, True)" by code_simp
  then obtain s evs where d: "demo [demo_target 0] 10 1 None (cancel_queued @ ack_queued) = Some (s, evs)"
    and c: "ctx_err s = Some context_Canceled" "grace s = 0" "case spc s of RReturned err \<Rightarrow> True | _ \<Rightarrow> False"
    by (auto elim: demo_result)
  obtain err where pc: "spc s = RReturned err" using c(3) by (cases "spc s") simp_all
  have e: "executes demo_sdk \<lparr>CfgSource = ''descry'', CfgType = []\<rparr> [demo_target 0] 10 1 [] None evs s"
    using d by (rule demo_executes) (simp_all add: max64_def demo_target_def)
  from runner_returns [OF e pc] show ?thesis using d c(1,2) by auto
qed

text \<open>
  Nothing happens after a return that closed Results(): in every continuation the only events are
  receives of the Results that were buffered. In particular no Publish follows, so closing the sink
  after Run is safe.
\<close>

theorem runner_quiet_after_return:
  assumes "executes k cfg ts iv0 conc opts ctx evs s" "results_closed s" "exec k s evs' s'"
  shows "evs' = map EvRecv (recv_results evs') \<and> results s = recv_results evs' @ results s' \<and>
    n_published i evs' = 0 \<and> n_started i evs' = 0"
proof -
  have "shut s" using runner_invD(2) [OF executes_inv [OF assms(1)]] assms(2) by (auto simp: chan_inv_def shut_def)
  then obtain rs where rs: "evs' = map EvRecv rs" using shut_exec [OF assms(3)] by blast
  have r: "recv_results (map EvRecv rs) = rs" for rs by (induction rs) simp_all
  have n: "sent_results (map EvRecv rs) = []" for rs by (induction rs) simp_all
  have z: "n_published i (map EvRecv rs) = 0" "n_started i (map EvRecv rs) = 0" for rs
    by (induction rs) (simp_all add: n_defs)
  have "executes k cfg ts iv0 conc opts ctx (evs @ evs') s'"
    using assms(1,3) exec_trans unfolding executes_def by blast
  then have "results s = rs @ results s'"
    using counters(3) [OF assms(1)] counters(3) [of k cfg ts iv0 conc opts ctx "evs @ evs'" s'] rs
    by (simp add: r n)
  then show ?thesis using rs r z by simp
qed

theorem runner_quiet_after_return_witness:
  "\<exists>s evs s'. demo [demo_target 0] 10 1 None (dispatch_one @ run_one @ shut_down) = Some (s, evs) \<and>
    results_closed s \<and> length (results s) = 1 \<and> exec demo_sdk s (map EvRecv (results s)) s' \<and> results s' = []"
proof -
  let ?as = "dispatch_one @ run_one @ shut_down"
  have "map_option (\<lambda>(s, evs). (results_closed s, length (results s))) (demo [demo_target 0] 10 1 None ?as) = Some (True, 1)"
    by code_simp
  then obtain s evs where d: "demo [demo_target 0] 10 1 None ?as = Some (s, evs)"
    and c: "results_closed s" "length (results s) = 1" by (auto elim: demo_result)
  obtain r where r: "results s = [r]" using c(2) by (auto simp: length_Suc_conv)
  have e: "executes demo_sdk \<lparr>CfgSource = ''descry'', CfgType = []\<rparr> [demo_target 0] 10 1 [] None evs s"
    using d by (rule demo_executes) (simp_all add: max64_def demo_target_def)
  have "\<not> panicked s" using executes_inv [OF e] by (simp add: runner_inv_def chan_inv_def)
  then have x: "exec demo_sdk s ([] @ [EvRecv r]) (s\<lparr>results := []\<rparr>)"
    using r by (intro exec_step [OF exec_refl] consume)
  from runner_quiet_after_return [OF e c(1) x, of 0] show ?thesis using d c r x by auto
qed

text \<open>
  The scheduler never gets stuck. In every reachable state in which it schedules, Run's goroutine
  has a transition (with no targets, once the context is cancelled), and every worker that has not
  exited has one, unless it waits on an empty work channel.
\<close>

theorem runner_never_stuck:
  assumes "executes k cfg ts iv0 conc opts ctx evs s"
  shows "(scheduling (spc s) \<and> (spc s = SIdle \<longrightarrow> ctx_err s \<noteq> None) \<longrightarrow> (\<exists>inp. sched_step inp s \<noteq> None)) \<and>
    (\<forall>w < length (workers s). workers s ! w \<noteq> WExit \<and> (workers s ! w = WIdle \<longrightarrow> work s \<noteq> [] \<or> work_closed s) \<longrightarrow>
      (\<exists>inp. worker_step k w inp s \<noteq> None))"
  using scheduling_can_move [OF executes_inv [OF assms]] worker_can_step [OF runner_invD(4) [OF executes_inv [OF assms]]]
  by blast

theorem runner_never_stuck_witness:
  "\<exists>s evs inp. demo [demo_target 0] 10 1 None dispatch_one = Some (s, evs) \<and> sched_step inp s \<noteq> None"
proof -
  have "map_option (\<lambda>(s, evs). (case spc s of SDrain \<Rightarrow> True | _ \<Rightarrow> False))
      (demo [demo_target 0] 10 1 None dispatch_one) = Some True" by code_simp
  then obtain s evs where d: "demo [demo_target 0] 10 1 None dispatch_one = Some (s, evs)"
    and c: "case spc s of SDrain \<Rightarrow> True | _ \<Rightarrow> False" by (auto elim: demo_result)
  have pc: "spc s = SDrain" using c by (cases "spc s") simp_all
  have e: "executes demo_sdk \<lparr>CfgSource = ''descry'', CfgType = []\<rparr> [demo_target 0] 10 1 [] None evs s"
    using d by (rule demo_executes) (simp_all add: max64_def demo_target_def)
  from runner_never_stuck [OF e] show ?thesis using d pc by auto
qed

section \<open>A slot without a Result\<close>

text \<open>
  C34: a slot without a Result. An entry dispatched before the context is cancelled and dequeued after
  it is acked without running: in this interleaving Run has returned, one slot of the entry was processed,
  no run completed and none was skipped, no Result was sent and none was dropped. So the documented sum
  "completed + skipped = slots processed while Dropped() is zero" leaves out the entries cancelled at
  shutdown.
\<close>

theorem cancelled_slot_has_no_result:
  "\<exists>s evs. demo [demo_target 0] 10 1 None (cancel_queued @ ack_queued) = Some (s, evs) \<and>
    results_closed s \<and> n_slots 0 evs = 1 \<and> n_completed 0 evs + n_skips 0 evs = 0 \<and>
    results s = [] \<and> recv_results evs = [] \<and> dropped s = 0"
proof -
  have "map_option (\<lambda>(s, evs). (results_closed s, n_slots 0 evs, n_completed 0 evs + n_skips 0 evs,
        length (results s), length (recv_results evs), dropped s))
      (demo [demo_target 0] 10 1 None (cancel_queued @ ack_queued)) = Some (True, 1, 0, 0, 0, 0)" by code_simp
  then show ?thesis by (auto elim: demo_result)
qed

end
