(* ===== verification/Admin.thy ===== *)
theory Admin
  imports GoStrings GoTime
begin

text \<open>
  cmd/descry/admin.go: the connection limit, the in-flight limit, readiness, the routes and the
  shutdown of the admin server. A buffered channel used as a semaphore is the number of its
  elements; the goroutines that use it interleave, one action per access. net/http's server and
  promhttp are outside: what Serve and Shutdown return, and the metrics handler's answer, are
  arguments.
\<close>

section \<open>Constants\<close>

definition adminMaxConns :: nat where "adminMaxConns = 64"
definition metricsMaxInFlight :: nat where "metricsMaxInFlight = 2"
definition adminShutdownTimeout :: duration where "adminShutdownTimeout = 5 * Second"
definition adminReadHeaderTimeout :: duration where "adminReadHeaderTimeout = 5 * Second"
definition adminReadTimeout :: duration where "adminReadTimeout = 10 * Second"
definition adminIdleTimeout :: duration where "adminIdleTimeout = 60 * Second"
definition adminMaxHeaderBytes :: int where "adminMaxHeaderBytes = push_bit 10 8"
definition adminWriteTimeout :: duration where "adminWriteTimeout = 30 * Second"
definition metricsScrapeTimeout :: duration where "metricsScrapeTimeout = 10 * Second"

section \<open>limitListener\<close>

text \<open>
  The listener: the slots taken, whether \<open>done\<close> is closed, the Accept calls waiting in the
  select, those holding a slot inside the inner Accept, and the accepted connections, each with
  whether its first Close has happened.
\<close>

record listener =
  lnCap :: nat
  lnTaken :: nat
  lnDone :: bool
  lnWaiting :: nat
  lnInner :: nat
  lnConns :: "bool list"

definition newLimitListener :: "nat \<Rightarrow> listener" where
  "newLimitListener n = \<lparr>lnCap = n, lnTaken = 0, lnDone = False, lnWaiting = 0, lnInner = 0, lnConns = []\<rparr>"

datatype listener_act =
    AcceptCall            \<comment> \<open>a goroutine enters Accept\<close>
  | AcceptSlot            \<comment> \<open>the select sends on sem\<close>
  | AcceptDone            \<comment> \<open>the select receives from done: net.ErrClosed\<close>
  | InnerConn             \<comment> \<open>the inner Accept returns a connection\<close>
  | InnerErr              \<comment> \<open>the inner Accept fails, and the slot is given back\<close>
  | ConnClose nat         \<comment> \<open>Close on a connection; only the first gives the slot back\<close>
  | ConnCloseWrite nat    \<comment> \<open>the half-close before an error's Close; it gives no slot back\<close>
  | ListenerClose

text \<open>None is an action that is not possible: the goroutine is blocked, or there is none.\<close>

fun accept_step :: "listener_act \<Rightarrow> listener \<Rightarrow> listener option" where
  "accept_step AcceptCall l = Some (l\<lparr>lnWaiting := lnWaiting l + 1\<rparr>)"
| "accept_step AcceptSlot l =
     (if 0 < lnWaiting l \<and> lnTaken l < lnCap l
      then Some (l\<lparr>lnWaiting := lnWaiting l - 1, lnTaken := lnTaken l + 1, lnInner := lnInner l + 1\<rparr>) else None)"
| "accept_step AcceptDone l =
     (if 0 < lnWaiting l \<and> lnDone l then Some (l\<lparr>lnWaiting := lnWaiting l - 1\<rparr>) else None)"
| "accept_step InnerConn l =
     (if 0 < lnInner l then Some (l\<lparr>lnInner := lnInner l - 1, lnConns := lnConns l @ [False]\<rparr>) else None)"
| "accept_step InnerErr l =
     (if 0 < lnInner l \<and> 0 < lnTaken l then Some (l\<lparr>lnInner := lnInner l - 1, lnTaken := lnTaken l - 1\<rparr>) else None)"
| "accept_step (ConnClose i) l =
     (if length (lnConns l) \<le> i then None
      else if lnConns l ! i then Some l
      else if lnTaken l = 0 then None
      else Some (l\<lparr>lnConns := (lnConns l)[i := True], lnTaken := lnTaken l - 1\<rparr>))"
| "accept_step (ConnCloseWrite i) l = (if length (lnConns l) \<le> i then None else Some l)"
| "accept_step ListenerClose l = Some (l\<lparr>lnDone := True\<rparr>)"

section \<open>limitInFlight\<close>

record in_flight =
  ifCap :: nat
  ifTaken :: nat
  ifRunning :: nat
  ifRefused :: nat

definition limitInFlight :: "nat \<Rightarrow> in_flight" where
  "limitInFlight n = \<lparr>ifCap = n, ifTaken = 0, ifRunning = 0, ifRefused = 0\<rparr>"

datatype flight_act =
    Request               \<comment> \<open>a request: it takes a slot and runs, or is answered 503\<close>
  | HandlerReturn         \<comment> \<open>the handler returns, and the deferred receive gives the slot back\<close>

fun flight_step :: "flight_act \<Rightarrow> in_flight \<Rightarrow> in_flight option" where
  "flight_step Request f =
     (if ifTaken f < ifCap f then Some (f\<lparr>ifTaken := ifTaken f + 1, ifRunning := ifRunning f + 1\<rparr>)
      else Some (f\<lparr>ifRefused := ifRefused f + 1\<rparr>))"
| "flight_step HandlerReturn f =
     (if 0 < ifRunning f \<and> 0 < ifTaken f then Some (f\<lparr>ifRunning := ifRunning f - 1, ifTaken := ifTaken f - 1\<rparr>) else None)"

section \<open>Routes and readiness\<close>

record response =
  rsStatus :: int
  rsBody :: string

definition writeText :: "int \<Rightarrow> string \<Rightarrow> response" where
  "writeText st body = \<lparr>rsStatus = st, rsBody = body\<rparr>"

definition readyState_ServeHTTP :: "bool \<Rightarrow> response" where
  "readyState_ServeHTTP ok = (if ok then writeText 200 (''ok'' @ [CHR 0x0A]) else writeText 503 (''not ready'' @ [CHR 0x0A]))"

definition limit_message :: string where
  "limit_message = ''Limit of concurrent requests reached (2), try again later.'' @ [CHR 0x0A]"

text \<open>
  The mux on a clean path. \<open>metrics\<close> is promhttp's answer; the in-flight state decides whether
  it is asked.
\<close>

definition admin_mux :: "response \<Rightarrow> in_flight \<Rightarrow> bool \<Rightarrow> string \<Rightarrow> string \<Rightarrow> response" where
  "admin_mux metrics f ready meth path =
     (if path \<notin> {''/metrics'', ''/healthz'', ''/readyz''} then writeText 404 (''404 page not found'' @ [CHR 0x0A])
      else if meth \<noteq> ''GET'' \<and> meth \<noteq> ''HEAD'' then writeText 405 (''Method Not Allowed'' @ [CHR 0x0A])
      else if path = ''/metrics'' then
        (if ifTaken f < ifCap f then metrics else writeText 503 limit_message)
      else if path = ''/healthz'' then writeText 200 (''ok'' @ [CHR 0x0A])
      else readyState_ServeHTTP ready)"

section \<open>serveAdmin and shutdown\<close>

definition http_ErrServerClosed :: goerr where "http_ErrServerClosed = Sentinel ''http: Server closed''"

text \<open>The server that \<open>serveAdmin\<close> builds, on a listener with the connection cap.\<close>

record http_server =
  svReadHeaderTimeout :: duration
  svReadTimeout :: duration
  svIdleTimeout :: duration
  svWriteTimeout :: duration
  svMaxHeaderBytes :: int
  svKeepAlives :: bool
  svListener :: listener

definition serveAdmin :: http_server where
  "serveAdmin =
     \<lparr>svReadHeaderTimeout = adminReadHeaderTimeout, svReadTimeout = adminReadTimeout, svIdleTimeout = adminIdleTimeout,
      svWriteTimeout = adminWriteTimeout, svMaxHeaderBytes = adminMaxHeaderBytes, svKeepAlives = False,
      svListener = newLimitListener adminMaxConns\<rparr>"

text \<open>
  With one request per connection, reading and writing bound how long a client holds a slot; a
  gather that runs into its own timeout can still be answered before the write is cut.
\<close>

lemma serveAdmin_bounds:
  "\<not> svKeepAlives serveAdmin" "svReadTimeout serveAdmin + svWriteTimeout serveAdmin = 40 * Second"
  "metricsScrapeTimeout < svWriteTimeout serveAdmin" "svReadHeaderTimeout serveAdmin \<le> svReadTimeout serveAdmin"
  "svMaxHeaderBytes serveAdmin = 8192"
  by (simp_all add: serveAdmin_def adminReadTimeout_def adminWriteTimeout_def metricsScrapeTimeout_def
      adminReadHeaderTimeout_def adminMaxHeaderBytes_def Second_def push_bit_eq_mult)

text \<open>The error kept, which is also what \<open>fail\<close> gets, when Serve returns.\<close>

definition serve_end :: "goerr option \<Rightarrow> goerr option" where
  "serve_end serveErr =
     (case serveErr of None \<Rightarrow> None | Some err \<Rightarrow> if errors_is err http_ErrServerClosed then None else Some err)"

text \<open>
  \<open>shutdown\<close>: whether the server is closed by force, and the error returned once Serve has.
\<close>

definition admin_shutdown :: "goerr option \<Rightarrow> goerr option \<Rightarrow> bool \<times> goerr option" where
  "admin_shutdown shutdownErr serveErr = (shutdownErr \<noteq> None, serve_end serveErr)"

section \<open>Semaphores\<close>

fun run_steps :: "('a \<Rightarrow> 's \<Rightarrow> 's option) \<Rightarrow> 'a list \<Rightarrow> 's \<Rightarrow> 's option" where
  "run_steps act [] s = Some s"
| "run_steps act (a # xs) s = (case act a s of None \<Rightarrow> None | Some s' \<Rightarrow> run_steps act xs s')"

text \<open>
  What the two limits share: a channel whose elements are the slots of its holders.
\<close>

locale semaphore =
  fixes act :: "'a \<Rightarrow> 's \<Rightarrow> 's option"
    and cap :: "'s \<Rightarrow> nat" and taken :: "'s \<Rightarrow> nat" and holders :: "'s \<Rightarrow> nat"
  assumes cap_const: "act a s = Some s' \<Longrightarrow> cap s' = cap s"
    and balanced: "act a s = Some s' \<Longrightarrow> taken s = holders s \<Longrightarrow> taken s' = holders s'"
    and bounded: "act a s = Some s' \<Longrightarrow> taken s \<le> cap s \<Longrightarrow> taken s' \<le> cap s'"
begin

lemma run_limited:
  assumes "run_steps act xs s = Some s'" "taken s = holders s" "taken s \<le> cap s"
  shows "taken s' = holders s' \<and> holders s' \<le> cap s \<and> cap s' = cap s"
  using assms
proof (induction xs arbitrary: s)
  case (Cons a as)
  then obtain s1 where s1: "act a s = Some s1" "run_steps act as s1 = Some s'" by (auto split: option.splits)
  have "taken s1 = holders s1" "taken s1 \<le> cap s1" "cap s1 = cap s"
    using balanced [OF s1(1)] bounded [OF s1(1)] cap_const [OF s1(1)] Cons.prems by auto
  then show ?case using Cons.IH [OF s1(2)] by simp
qed simp

end

definition held_conns :: "listener \<Rightarrow> nat" where
  "held_conns l = lnInner l + length (filter Not (lnConns l))"

lemma filter_Not_upd:
  assumes "i < length xs" "\<not> xs ! i"
  shows "length (filter Not (xs[i := True])) + 1 = length (filter Not xs)"
  using assms by (induction xs arbitrary: i) (auto simp: less_Suc_eq_0_disj)

interpretation conns: semaphore accept_step lnCap lnTaken held_conns
proof (standard, goal_cases)
  case (1 a s s')
  then show ?case by (cases a) (auto split: if_splits)
next
  case (2 a s s')
  show ?case
  proof (cases a)
    case (ConnClose i)
    then show ?thesis using 2 filter_Not_upd [of i "lnConns s"] by (auto simp: held_conns_def split: if_splits)
  qed (use 2 in \<open>auto simp: held_conns_def split: if_splits\<close>)
next
  case (3 a s s')
  then show ?case by (cases a) (auto split: if_splits)
qed

interpretation flights: semaphore flight_step ifCap ifTaken ifRunning
proof (standard, goal_cases)
  case (1 a s s')
  then show ?case by (cases a) (auto split: if_splits)
next
  case (2 a s s')
  then show ?case by (cases a) (auto split: if_splits)
next
  case (3 a s s')
  then show ?case by (cases a) (auto split: if_splits)
qed

section \<open>Properties\<close>

text \<open>
  C39: The admin limits. In any interleaving at most 64 accepted connections are open, and at
  most two metrics requests run at once; a slot is taken exactly by an Accept in progress or an
  open connection, and by a running request, so a first Close, a failed inner Accept and a
  returning handler never block on giving theirs back. Once the listener is closed, a waiting
  Accept can always return.
\<close>

theorem admin_limits:
  assumes "run_steps accept_step xs (newLimitListener adminMaxConns) = Some l"
    and "run_steps flight_step ys (limitInFlight metricsMaxInFlight) = Some f"
  shows "length (filter Not (lnConns l)) \<le> 64 \<and> lnTaken l = lnInner l + length (filter Not (lnConns l)) \<and>
    (\<forall>i < length (lnConns l). accept_step (ConnClose i) l \<noteq> None) \<and>
    (0 < lnInner l \<longrightarrow> accept_step InnerErr l \<noteq> None) \<and>
    (0 < lnWaiting l \<and> lnDone l \<longrightarrow> accept_step AcceptDone l \<noteq> None) \<and>
    ifRunning f \<le> 2 \<and> ifTaken f = ifRunning f \<and> (0 < ifRunning f \<longrightarrow> flight_step HandlerReturn f \<noteq> None)"
proof -
  have l: "lnTaken l = held_conns l" "held_conns l \<le> 64"
    using conns.run_limited [OF assms(1)] by (simp_all add: newLimitListener_def held_conns_def adminMaxConns_def)
  have f: "ifTaken f = ifRunning f" "ifRunning f \<le> 2"
    using flights.run_limited [OF assms(2)] by (simp_all add: limitInFlight_def metricsMaxInFlight_def)
  have "0 < lnTaken l" if "i < length (lnConns l)" "\<not> lnConns l ! i" for i
    using l(1) filter_Not_upd [OF that] unfolding held_conns_def by linarith
  then show ?thesis using l f by (auto simp: held_conns_def)
qed

theorem admin_limits_witness:
  "\<exists>l f. run_steps accept_step [AcceptCall, AcceptSlot, InnerConn, ConnClose 0, ConnClose 0, AcceptCall, ListenerClose]
       (newLimitListener adminMaxConns) = Some l \<and>
     run_steps flight_step [Request, Request, Request] (limitInFlight metricsMaxInFlight) = Some f \<and>
     lnTaken l = 0 \<and> accept_step AcceptDone l \<noteq> None \<and> ifRunning f = 2 \<and> ifRefused f = 1 \<and> ifRunning f \<le> 2"
proof -
  obtain l where l: "run_steps accept_step [AcceptCall, AcceptSlot, InnerConn, ConnClose 0, ConnClose 0, AcceptCall, ListenerClose]
       (newLimitListener adminMaxConns) = Some l"
    by (simp add: newLimitListener_def adminMaxConns_def)
  obtain f where f: "run_steps flight_step [Request, Request, Request] (limitInFlight metricsMaxInFlight) = Some f"
    by (simp add: limitInFlight_def metricsMaxInFlight_def)
  have "lnTaken l = 0" "lnDone l" "lnWaiting l = 1" "ifRunning f = 2" "ifRefused f = 1"
    using l f by (auto simp: newLimitListener_def adminMaxConns_def limitInFlight_def metricsMaxInFlight_def)
  then show ?thesis using admin_limits [OF l f] l f by simp
qed

text \<open>Readiness decides only /readyz; a full in-flight limit refuses only /metrics.\<close>

lemma admin_mux_cases:
  "admin_mux m f r ''GET'' ''/healthz'' = writeText 200 (''ok'' @ [CHR 0x0A])"
  "rsStatus (admin_mux m f r ''GET'' ''/readyz'') = (if r then 200 else 503)"
  "ifTaken f = ifCap f \<Longrightarrow> rsStatus (admin_mux m f r ''GET'' ''/metrics'') = 503"
  "rsStatus (admin_mux m f r ''POST'' ''/metrics'') = 405" "rsStatus (admin_mux m f r ''GET'' ''/debug'') = 404"
  by (simp_all add: admin_mux_def readyState_ServeHTTP_def writeText_def)

end
