(* ===== verification/Program.thy ===== *)
theory Program
  imports CliRun RunnerStop Admin Simulation
begin

text \<open>
  cmd/descry/main.go from the built targets on, as the goroutines it starts: \<open>run\<close>'s own, the
  one that waits for the context, the admin server's Serve, the drain of Results(), the signal
  notification, and the runner's scheduler and workers (theory RunnerModel) inside the call of Run.
  They share the readiness flag, the context and the results channel, and interleave freely; one
  transition is what one goroutine does between two accesses to those. The transitions are
  executable; None is a goroutine that is blocked or gone.
\<close>

section \<open>State\<close>

text \<open>Where \<open>run\<close> is, with the code and errors it holds.\<close>

datatype mpc =
    MReady                                 \<comment> \<open>about to set ready\<close>
  | MRecheck                               \<comment> \<open>about to look at the context again\<close>
  | MUnready                               \<comment> \<open>found it cancelled, about to clear ready\<close>
  | MCall                                  \<comment> \<open>about to call Run\<close>
  | MRun                                   \<comment> \<open>in Run\<close>
  | MReturned "goerr option"               \<comment> \<open>Run has returned; about to clear ready\<close>
  | MDrain "goerr option"                  \<comment> \<open>waiting for the drain\<close>
  | MShutdown "goerr option"               \<comment> \<open>about to shut the admin server down\<close>
  | MAwait "goerr option"                  \<comment> \<open>waiting for Serve to return\<close>
  | MCode "goerr option" "goerr option"    \<comment> \<open>about to work out the exit code\<close>
  | MCancel int                            \<comment> \<open>the deferred calls, last first\<close>
  | MStop int
  | MCloseFile int
  | MCloseListener int
  | MExit int

datatype watch = WaContext | WaUnready | WaStop | WaDone

text \<open>The goroutine of \<open>serveAdmin\<close>: serving, reporting a failure, cancelling, gone.\<close>

datatype serve = SvServe | SvPrint goerr | SvCancel | SvDone

text \<open>The runner before its Run, and during it.\<close>

datatype 'u engine = NotRun "'u runner" | InRun "'u sys"

record 'u proc =
  prMain :: mpc
  prWatch :: watch
  prServe :: serve
  prServeErr :: "goerr option"
  prShut :: bool         \<comment> \<open>Shutdown has been called\<close>
  prReady :: bool
  prCtx :: bool          \<comment> \<open>the context is cancelled\<close>
  prNotify :: bool       \<comment> \<open>signals are still notified, not fatal\<close>
  prSignal :: bool       \<comment> \<open>a notified signal that has not cancelled the context yet\<close>
  prKilled :: bool
  prEngine :: "'u engine"
  prHand :: "result option"   \<comment> \<open>received by the drain, not handled yet\<close>
  prDrain :: drain
  prDrained :: bool

text \<open>What does not change: whether there is a listener and a sink file, and the drain's interval.\<close>

record proc_env =
  peListening :: bool
  peCloses :: bool
  peInterval :: duration

definition start :: "proc_env \<Rightarrow> 'u runner \<Rightarrow> 'u proc" where
  "start pe r =
     \<lparr>prMain = MReady, prWatch = WaContext, prServe = (if peListening pe then SvServe else SvDone),
      prServeErr = None, prShut = False, prReady = False, prCtx = False, prNotify = True, prSignal = False,
      prKilled = False, prEngine = NotRun r, prHand = None, prDrain = new_drain, prDrained = False\<rparr>"

text \<open>What a transition did: an effect of one of \<open>run\<close>'s goroutines, or an event of the runner.\<close>

datatype pev = PMain effect | PWatch effect | PServe effect | PRunner ev

section \<open>The context\<close>

fun cancel_engine :: "'u engine \<Rightarrow> 'u engine" where
  "cancel_engine (NotRun r) = NotRun r"
| "cancel_engine (InRun s) = InRun (if ctx_err s = None then s\<lparr>ctx_err := Some context_Canceled\<rparr> else s)"

definition cancel_ctx :: "'u proc \<Rightarrow> 'u proc" where
  "cancel_ctx p = p\<lparr>prCtx := True, prEngine := cancel_engine (prEngine p)\<rparr>"

definition ctx_of :: "'u proc \<Rightarrow> goerr option" where
  "ctx_of p = (if prCtx p then Some context_Canceled else None)"

section \<open>run's goroutine\<close>

text \<open>The call of Run: it returns at once, panics, or starts the engine.\<close>

definition call_run :: "'u runner \<Rightarrow> 'u proc \<Rightarrow> 'u proc \<times> pev list" where
  "call_run r p =
     (case Run r (ctx_of p) of
        Inl (err, Some r') \<Rightarrow> (p\<lparr>prMain := MReturned (Some err), prEngine := NotRun r'\<rparr>, [PMain RunEngine])
      | Inl (err, None) \<Rightarrow> (p\<lparr>prKilled := True\<rparr>, [])
      | Inr s \<Rightarrow> (p\<lparr>prMain := MRun, prEngine := InRun s\<rparr>, []))"

definition run_return :: "'u sys \<Rightarrow> 'u proc \<Rightarrow> ('u proc \<times> pev list) option" where
  "run_return s p =
     (case spc s of RReturned err \<Rightarrow> Some (p\<lparr>prMain := MReturned (Some err)\<rparr>, [PMain RunEngine]) | _ \<Rightarrow> None)"

definition exit_code :: "goerr option \<Rightarrow> goerr option \<Rightarrow> int \<times> pev list" where
  "exit_code runErr serveErr =
     (let code = exitCodeFor runErr
      in (if serveErr \<noteq> None then 1 else code, if code \<noteq> 0 then [PMain ErrorLine] else []))"

definition close_file :: "int \<Rightarrow> goerr option \<Rightarrow> int \<times> pev list" where
  "close_file code cerr =
     (if cerr = None then (code, [PMain CloseFile])
      else (if code = 0 then 1 else code, [PMain CloseFile, PMain ErrorLine]))"

text \<open>\<open>cerr\<close> is what the sink file's Close returns.\<close>

fun main_step :: "proc_env \<Rightarrow> goerr option \<Rightarrow> 'u proc \<Rightarrow> ('u proc \<times> pev list) option" where
  "main_step pe cerr p =
     (case prMain p of
        MReady \<Rightarrow> Some (p\<lparr>prMain := MRecheck, prReady := True\<rparr>, [PMain (SetReady True)])
      | MRecheck \<Rightarrow> Some (p\<lparr>prMain := if prCtx p then MUnready else MCall\<rparr>, [])
      | MUnready \<Rightarrow> Some (p\<lparr>prMain := MCall, prReady := False\<rparr>, [PMain (SetReady False)])
      | MCall \<Rightarrow> (case prEngine p of NotRun r \<Rightarrow> Some (call_run r p) | InRun s \<Rightarrow> None)
      | MRun \<Rightarrow> (case prEngine p of NotRun r \<Rightarrow> None | InRun s \<Rightarrow> run_return s p)
      | MReturned err \<Rightarrow> Some (p\<lparr>prMain := MDrain err, prReady := False\<rparr>, [PMain (SetReady False)])
      | MDrain err \<Rightarrow>
          if prDrained p
          then Some (p\<lparr>prMain := if peListening pe then MShutdown err else MCode err None\<rparr>, [PMain Drained])
          else None
      | MShutdown err \<Rightarrow> Some (p\<lparr>prMain := MAwait err, prShut := True\<rparr>, [])
      | MAwait err \<Rightarrow>
          if prServe p = SvDone then Some (p\<lparr>prMain := MCode err (prServeErr p)\<rparr>, [PMain ShutdownAdmin]) else None
      | MCode err serr \<Rightarrow> (case exit_code err serr of (code, evs) \<Rightarrow> Some (p\<lparr>prMain := MCancel code\<rparr>, evs))
      | MCancel code \<Rightarrow> Some (cancel_ctx (p\<lparr>prMain := MStop code\<rparr>), [])
      | MStop code \<Rightarrow>
          Some (cancel_ctx (p\<lparr>prMain := if peCloses pe then MCloseFile code else MCloseListener code, prNotify := False\<rparr>), [])
      | MCloseFile code \<Rightarrow> (case close_file code cerr of (code', evs) \<Rightarrow> Some (p\<lparr>prMain := MCloseListener code'\<rparr>, evs))
      | MCloseListener code \<Rightarrow> Some (p\<lparr>prMain := MExit code\<rparr>, if peListening pe then [PMain CloseListener] else [])
      | MExit code \<Rightarrow> None)"

declare main_step.simps [simp del]

section \<open>The other goroutines\<close>

text \<open>\<open><-ctx.Done(); ready.set(false); stop()\<close>\<close>

fun watch_step :: "'u proc \<Rightarrow> ('u proc \<times> pev list) option" where
  "watch_step p =
     (case prWatch p of
        WaContext \<Rightarrow> if prCtx p then Some (p\<lparr>prWatch := WaUnready\<rparr>, []) else None
      | WaUnready \<Rightarrow> Some (p\<lparr>prWatch := WaStop, prReady := False\<rparr>, [PWatch (SetReady False)])
      | WaStop \<Rightarrow> Some (cancel_ctx (p\<lparr>prWatch := WaDone, prNotify := False\<rparr>), [])
      | WaDone \<Rightarrow> None)"

text \<open>
  Serve returns with an error, \<open>http.ErrServerClosed\<close> only after Shutdown; another error is
  kept, printed, and cancels the run before \<open>done\<close> is closed.
\<close>

fun serve_step :: "goerr \<Rightarrow> 'u proc \<Rightarrow> ('u proc \<times> pev list) option" where
  "serve_step err p =
     (case prServe p of
        SvServe \<Rightarrow>
          (case serve_end (Some err) of
             None \<Rightarrow> if prShut p then Some (p\<lparr>prServe := SvDone\<rparr>, []) else None
           | Some e \<Rightarrow> Some (p\<lparr>prServe := SvPrint e, prServeErr := Some e\<rparr>, []))
      | SvPrint e \<Rightarrow> Some (p\<lparr>prServe := SvCancel\<rparr>, [PServe ErrorLine])
      | SvCancel \<Rightarrow> Some (cancel_ctx (p\<lparr>prServe := SvDone\<rparr>), [])
      | SvDone \<Rightarrow> None)"

text \<open>The drain: it receives a Result, handles it, and ends when the channel is closed and empty.\<close>

fun eng_results :: "'u engine \<Rightarrow> result list \<times> bool" where
  "eng_results (NotRun r) = (results r, results_closed r)"
| "eng_results (InRun s) = (results s, results_closed s)"

fun eng_recv :: "'u engine \<Rightarrow> 'u engine" where
  "eng_recv (NotRun r) = NotRun (r\<lparr>results := tl (results r)\<rparr>)"
| "eng_recv (InRun s) = InRun (s\<lparr>results := tl (results s)\<rparr>)"

fun drain_go :: "proc_env \<Rightarrow> time \<Rightarrow> 'u proc \<Rightarrow> ('u proc \<times> pev list) option" where
  "drain_go pe now p =
     (if prDrained p then None
      else case prHand p of
        Some res \<Rightarrow> Some (p\<lparr>prHand := None, prDrain := drain_result (peListening pe) (peInterval pe) (now, res) (prDrain p)\<rparr>, [])
      | None \<Rightarrow>
          (case eng_results (prEngine p) of
             (res # q, c) \<Rightarrow> Some (p\<lparr>prHand := Some res, prEngine := eng_recv (prEngine p)\<rparr>, [PRunner (EvRecv res)])
           | ([], c) \<Rightarrow> if c then Some (p\<lparr>prDrained := True\<rparr>, []) else None))"

text \<open>A signal: noted while signals are notified, else fatal. The notification cancels the context.\<close>

definition signal_step :: "'u proc \<Rightarrow> 'u proc" where
  "signal_step p = (if prNotify p then p\<lparr>prSignal := True\<rparr> else p\<lparr>prKilled := True\<rparr>)"

definition notify_step :: "'u proc \<Rightarrow> ('u proc \<times> pev list) option" where
  "notify_step p = (if prSignal p then Some (cancel_ctx (p\<lparr>prSignal := False\<rparr>), []) else None)"

text \<open>The scheduler and the workers move while Run is called, and workers never outlive it.\<close>

definition engine_step ::
    "('p, 'u) sdk \<Rightarrow> action \<Rightarrow> 'u proc \<Rightarrow> ('u proc \<times> pev list) option" where
  "engine_step k a p =
     (case prEngine p of NotRun r \<Rightarrow> None
      | InRun s \<Rightarrow> if panicked s then None
          else map_option (\<lambda>(s', evs). (p\<lparr>prEngine := InRun s'\<rparr>, map PRunner evs)) (act k a s))"

section \<open>Interleaving\<close>

datatype paction =
    AMain "goerr option"
  | AWatch
  | AServe goerr
  | ADrain time
  | ASignal
  | ANotify
  | ASched input
  | AWorker nat input

fun exited :: "mpc \<Rightarrow> bool" where
  "exited (MExit code) = True"
| "exited pc = False"

definition alive :: "'u proc \<Rightarrow> bool" where
  "alive p \<longleftrightarrow> \<not> prKilled p \<and> \<not> exited (prMain p)"

fun pact :: "proc_env \<Rightarrow> ('p, 'u) sdk \<Rightarrow> paction \<Rightarrow> 'u proc \<Rightarrow> ('u proc \<times> pev list) option" where
  "pact pe k (AMain cerr) p = main_step pe cerr p"
| "pact pe k AWatch p = watch_step p"
| "pact pe k (AServe err) p = serve_step err p"
| "pact pe k (ADrain now) p = drain_go pe now p"
| "pact pe k ASignal p = Some (signal_step p, [])"
| "pact pe k ANotify p = notify_step p"
| "pact pe k (ASched inp) p = engine_step k (Sched inp) p"
| "pact pe k (AWorker w inp) p = engine_step k (Worker w inp) p"

inductive pstep :: "proc_env \<Rightarrow> ('p, 'u) sdk \<Rightarrow> 'u proc \<Rightarrow> pev list \<Rightarrow> 'u proc \<Rightarrow> bool" for pe k where
  pstep: "alive p \<Longrightarrow> pact pe k a p = Some (p', evs) \<Longrightarrow> pstep pe k p evs p'"

fun pplay :: "proc_env \<Rightarrow> ('p, 'u) sdk \<Rightarrow> paction list \<Rightarrow> 'u proc \<Rightarrow> ('u proc \<times> pev list) option" where
  "pplay pe k [] p = Some (p, [])"
| "pplay pe k (a # as) p =
     (if \<not> alive p then None
      else case pact pe k a p of None \<Rightarrow> None
      | Some (p', evs) \<Rightarrow> map_option (\<lambda>(p'', evs'). (p'', evs @ evs')) (pplay pe k as p'))"

section \<open>The transitions, case by case\<close>

lemma main_step_cases [consumes 1]:
  assumes "main_step pe cerr p = Some (p', evs)"
  obtains (ready) "prMain p = MReady" "p' = p\<lparr>prMain := MRecheck, prReady := True\<rparr>" "evs = [PMain (SetReady True)]"
  | (recheck) "prMain p = MRecheck" "p' = p\<lparr>prMain := if prCtx p then MUnready else MCall\<rparr>" "evs = []"
  | (unready) "prMain p = MUnready" "p' = p\<lparr>prMain := MCall, prReady := False\<rparr>" "evs = [PMain (SetReady False)]"
  | (call) r where "prMain p = MCall" "prEngine p = NotRun r" "call_run r p = (p', evs)"
  | (return) s err where "prMain p = MRun" "prEngine p = InRun s" "spc s = RReturned err"
      "p' = p\<lparr>prMain := MReturned (Some err)\<rparr>" "evs = [PMain RunEngine]"
  | (returned) err where "prMain p = MReturned err" "p' = p\<lparr>prMain := MDrain err, prReady := False\<rparr>"
      "evs = [PMain (SetReady False)]"
  | (drained) err where "prMain p = MDrain err" "prDrained p"
      "p' = p\<lparr>prMain := if peListening pe then MShutdown err else MCode err None\<rparr>" "evs = [PMain Drained]"
  | (shutdown) err where "prMain p = MShutdown err" "p' = p\<lparr>prMain := MAwait err, prShut := True\<rparr>" "evs = []"
  | (await) err where "prMain p = MAwait err" "prServe p = SvDone" "p' = p\<lparr>prMain := MCode err (prServeErr p)\<rparr>"
      "evs = [PMain ShutdownAdmin]"
  | (code) err serr c where "prMain p = MCode err serr" "exit_code err serr = (c, evs)" "p' = p\<lparr>prMain := MCancel c\<rparr>"
  | (cancel) c where "prMain p = MCancel c" "p' = cancel_ctx (p\<lparr>prMain := MStop c\<rparr>)" "evs = []"
  | (stop) c where "prMain p = MStop c" "evs = []"
      "p' = cancel_ctx (p\<lparr>prMain := if peCloses pe then MCloseFile c else MCloseListener c, prNotify := False\<rparr>)"
  | (close_file) c c' where "prMain p = MCloseFile c" "close_file c cerr = (c', evs)" "p' = p\<lparr>prMain := MCloseListener c'\<rparr>"
  | (close_listener) c where "prMain p = MCloseListener c" "p' = p\<lparr>prMain := MExit c\<rparr>"
      "evs = (if peListening pe then [PMain CloseListener] else [])"
proof (cases "prMain p")
  case MCall
  then show thesis using assms call by (auto simp: main_step.simps split: engine.splits)
next
  case MRun
  then show thesis using assms return
    by (auto simp: main_step.simps run_return_def split: engine.splits spc.splits)
next
  case (MDrain err)
  then show thesis using assms drained by (auto simp: main_step.simps split: if_splits)
next
  case (MAwait err)
  then show thesis using assms await by (auto simp: main_step.simps split: if_splits)
next
  case (MExit c)
  then show thesis using assms by (simp add: main_step.simps)
next
  case MReady
  then show thesis using assms by (intro ready) (auto simp: main_step.simps split: prod.splits)
next
  case MRecheck
  then show thesis using assms by (intro recheck) (auto simp: main_step.simps split: prod.splits)
next
  case MUnready
  then show thesis using assms by (intro unready) (auto simp: main_step.simps split: prod.splits)
next
  case (MReturned err)
  then show thesis using assms by (intro returned) (auto simp: main_step.simps split: prod.splits)
next
  case (MShutdown err)
  then show thesis using assms by (intro shutdown) (auto simp: main_step.simps split: prod.splits)
next
  case (MCode err serr)
  then show thesis using assms by (cases "exit_code err serr") (rule code; auto simp: main_step.simps)
next
  case (MCancel c)
  then show thesis using assms by (intro cancel) (auto simp: main_step.simps split: prod.splits)
next
  case (MStop c)
  then show thesis using assms by (intro stop) (auto simp: main_step.simps split: prod.splits)
next
  case (MCloseFile c)
  then show thesis using assms by (cases "close_file c cerr") (rule close_file; auto simp: main_step.simps)
next
  case (MCloseListener c)
  then show thesis using assms by (intro close_listener) (auto simp: main_step.simps split: prod.splits)
qed

lemma cancel_ctx_fields [simp]:
  "prMain (cancel_ctx p) = prMain p" "prWatch (cancel_ctx p) = prWatch p" "prServe (cancel_ctx p) = prServe p"
  "prServeErr (cancel_ctx p) = prServeErr p" "prShut (cancel_ctx p) = prShut p" "prReady (cancel_ctx p) = prReady p"
  "prCtx (cancel_ctx p)" "prNotify (cancel_ctx p) = prNotify p" "prSignal (cancel_ctx p) = prSignal p"
  "prKilled (cancel_ctx p) = prKilled p" "prEngine (cancel_ctx p) = cancel_engine (prEngine p)"
  "prHand (cancel_ctx p) = prHand p" "prDrain (cancel_ctx p) = prDrain p" "prDrained (cancel_ctx p) = prDrained p"
  by (simp_all add: cancel_ctx_def)

lemma signal_fields [simp]:
  "prMain (signal_step p) = prMain p" "prWatch (signal_step p) = prWatch p" "prServe (signal_step p) = prServe p"
  "prServeErr (signal_step p) = prServeErr p" "prShut (signal_step p) = prShut p" "prReady (signal_step p) = prReady p"
  "prCtx (signal_step p) = prCtx p" "prNotify (signal_step p) = prNotify p" "prEngine (signal_step p) = prEngine p"
  "prHand (signal_step p) = prHand p" "prDrain (signal_step p) = prDrain p" "prDrained (signal_step p) = prDrained p"
  by (simp_all add: signal_step_def)

text \<open>Only the consumer receives.\<close>

lemma report_no_recv: "report_step j rp inp s = Some (rp', t, es) \<Longrightarrow> recv_results es = []"
  by (cases "(j, rp, inp, s)" rule: report_step.cases) (auto simp: Let_def split: if_splits)

lemma sched_no_recv:
  assumes "sched_step inp s = Some (s', es)"
  shows "recv_results es = []"
  using assms
proof (cases rule: sched_step_cases)
  case (report now rp rp' t)
  then show ?thesis using report_no_recv by blast
qed (auto simp: sched_defs split: if_splits choice.splits)

lemma worker_no_recv:
  assumes "worker_step k w inp s = Some (s', es)"
  shows "recv_results es = []"
  using assms
proof (cases rule: worker_step_cases)
  case (report j rp rp' t)
  then show ?thesis using report_no_recv by blast
qed (auto simp: worker_defs split: list.splits option.splits sum.splits choice.splits prod.splits if_splits)

text \<open>The other transitions: what each goroutine leaves of \<open>run\<close>'s and the watcher's state.\<close>

lemma pact_cases [consumes 1]:
  assumes "pact pe k a p = Some (p', evs)"
  obtains (main) cerr where "a = AMain cerr" "main_step pe cerr p = Some (p', evs)"
  | (watch) "a = AWatch" "watch_step p = Some (p', evs)"
  | (serve) err where "a = AServe err" "serve_step err p = Some (p', evs)"
  | (recv) now res q c where "a = ADrain now" "\<not> prDrained p" "prHand p = None" "eng_results (prEngine p) = (res # q, c)"
      "p' = p\<lparr>prHand := Some res, prEngine := eng_recv (prEngine p)\<rparr>" "evs = [PRunner (EvRecv res)]"
  | (handle) now res where "a = ADrain now" "\<not> prDrained p" "prHand p = Some res" "evs = []"
      "p' = p\<lparr>prHand := None, prDrain := drain_result (peListening pe) (peInterval pe) (now, res) (prDrain p)\<rparr>"
  | (drain_end) now where "a = ADrain now" "\<not> prDrained p" "prHand p = None" "eng_results (prEngine p) = ([], True)"
      "p' = p\<lparr>prDrained := True\<rparr>" "evs = []"
  | (signal) "a = ASignal" "p' = signal_step p" "evs = []"
  | (notify) "a = ANotify" "prSignal p" "p' = cancel_ctx (p\<lparr>prSignal := False\<rparr>)" "evs = []"
  | (engine) s s' es where "prEngine p = InRun s" "\<not> panicked s"
      "step k s es s'" "ctx_err s' = ctx_err s" "p' = p\<lparr>prEngine := InRun s'\<rparr>" "evs = map PRunner es" "recv_results es = []"
proof (cases a)
  case (AMain cerr)
  then show thesis using assms main by simp
next
  case AWatch
  then show thesis using assms watch by simp
next
  case (AServe err)
  then show thesis using assms serve by simp
next
  case (ADrain now)
  then have go: "drain_go pe now p = Some (p', evs)" using assms by simp
  then have nd: "\<not> prDrained p" by auto
  show thesis
  proof (cases "prHand p")
    case (Some res)
    then show thesis using go nd handle [OF ADrain nd Some] by auto
  next
    case None
    obtain q c where q: "eng_results (prEngine p) = (q, c)" by fastforce
    show thesis
    proof (cases q)
      case Nil
      then have "c" using go nd None q by (auto split: if_splits)
      then show thesis using go nd None q Nil drain_end [OF ADrain nd None] by simp
    next
      case (Cons res q')
      then show thesis using go nd None q recv [OF ADrain nd None] by simp
    qed
  qed
next
  case ASignal
  then show thesis using assms signal by simp
next
  case ANotify
  then show thesis using assms notify by (auto simp: notify_step_def split: if_splits)
next
  case (ASched inp)
  then obtain s s' es where s: "prEngine p = InRun s" "\<not> panicked s" "sched_step inp s = Some (s', es)"
      "p' = p\<lparr>prEngine := InRun s'\<rparr>" "evs = map PRunner es"
    using assms by (auto simp: engine_step_def split: engine.splits if_splits)
  have "ctx_err s' = ctx_err s" using sched_frame [OF s(3)] by blast
  then show thesis using engine s step.sched [OF s(2,3)] sched_no_recv [OF s(3)] by blast
next
  case (AWorker w inp)
  then obtain s s' es where s: "prEngine p = InRun s" "\<not> panicked s" "w < length (workers s)"
      "worker_step k w inp s = Some (s', es)" "p' = p\<lparr>prEngine := InRun s'\<rparr>" "evs = map PRunner es"
    using assms by (auto simp: engine_step_def split: engine.splits if_splits)
  then show thesis using engine step.worker [OF s(2,3,4)] worker_frame(4) [OF s(4)] worker_no_recv [OF s(4)] by blast
qed

end
