(* ===== verification/ProgramEngine.thy ===== *)
theory ProgramEngine
  imports Program
begin

text \<open>
  The runner inside the program: whatever the goroutines around it do, the engine's state is one that
  the runner reaches by itself, so the runner's theorems (theories RunnerSafe to RunnerStop) hold of it;
  and the induction over the program's traces that the properties use.
\<close>

section \<open>The engine inside the program\<close>

fun run_evs :: "pev list \<Rightarrow> ev list" where
  "run_evs [] = []"
| "run_evs (PRunner e # xs) = e # run_evs xs"
| "run_evs (x # xs) = run_evs xs"

fun main_evs :: "pev list \<Rightarrow> effect list" where
  "main_evs [] = []"
| "main_evs (PMain e # xs) = e # main_evs xs"
| "main_evs (x # xs) = main_evs xs"

lemma run_evs_append [simp]: "run_evs (xs @ ys) = run_evs xs @ run_evs ys"
  by (induction xs rule: run_evs.induct) simp_all

lemma main_evs_append [simp]: "main_evs (xs @ ys) = main_evs xs @ main_evs ys"
  by (induction xs rule: main_evs.induct) simp_all

lemma evs_runner [simp]: "run_evs (map PRunner es) = es" "main_evs (map PRunner es) = []"
  by (induction es) simp_all

fun before_run :: "mpc \<Rightarrow> bool" where
  "before_run MReady = True"
| "before_run MRecheck = True"
| "before_run MUnready = True"
| "before_run MCall = True"
| "before_run pc = False"

fun held_err :: "mpc \<Rightarrow> goerr option option" where
  "held_err (MReturned err) = Some err"
| "held_err (MDrain err) = Some err"
| "held_err (MShutdown err) = Some err"
| "held_err (MAwait err) = Some err"
| "held_err (MCode err serr) = Some err"
| "held_err pc = None"

text \<open>
  Before the call the runner is untouched; from it on the engine's state is one that the runner
  reaches by the runner's events of the trace, with the program's context, and once \<open>run\<close> is past the
  call, Run has returned, with the error that \<open>run\<close> holds.
\<close>

definition engine_inv :: "('p, 'u) sdk \<Rightarrow> 'u runner \<Rightarrow> pev list \<Rightarrow> 'u proc \<Rightarrow> bool" where
  "engine_inv k r evs p \<longleftrightarrow>
     (case prEngine p of
        NotRun r' \<Rightarrow> r' = r \<and> before_run (prMain p) \<and> run_evs evs = []
      | InRun s \<Rightarrow> \<not> before_run (prMain p) \<and> ctx_err s = ctx_of p \<and>
          (\<exists>ctx. exec k (launch r ctx) (run_evs evs) s) \<and> \<not> panicked s \<and>
          (prMain p \<noteq> MRun \<longrightarrow> (\<exists>err. spc s = RReturned err \<and> held_err (prMain p) \<in> {None, Some (Some err)})))"

text \<open>A runner fresh from New, on a config whose encoder is fine.\<close>

definition fresh :: "'u runner \<Rightarrow> bool" where
  "fresh r \<longleftrightarrow> \<not> running r \<and> encErr r = None \<and> results r = [] \<and> \<not> results_closed r"

lemma fresh_Run: "fresh r \<Longrightarrow> Run r ctx = Inr (launch r ctx)"
  by (simp add: fresh_def Run_def)

lemma main_events_quiet:
  "exit_code err serr = (c, evs) \<Longrightarrow> run_evs evs = []" "close_file c cerr = (c', evs) \<Longrightarrow> run_evs evs = []"
  by (auto simp: exit_code_def close_file_def Let_def split: if_splits)

lemma engine_inv_cancel:
  assumes "engine_inv k r evs p"
  shows "engine_inv k r evs (cancel_ctx p)"
proof (cases "prEngine p")
  case (NotRun r')
  then show ?thesis using assms by (simp add: engine_inv_def)
next
  case (InRun s)
  then obtain ctx where i: "\<not> before_run (prMain p)" "ctx_err s = ctx_of p" "\<not> panicked s"
      "exec k (launch r ctx) (run_evs evs) s"
      "prMain p \<noteq> MRun \<longrightarrow> (\<exists>err. spc s = RReturned err \<and> held_err (prMain p) \<in> {None, Some (Some err)})"
    using assms by (auto simp: engine_inv_def)
  show ?thesis
  proof (cases "prCtx p")
    case True
    then show ?thesis using assms InRun i(2) by (simp add: engine_inv_def ctx_of_def)
  next
    case False
    then have c: "ctx_err s = None" using i(2) by (simp add: ctx_of_def)
    have "exec k (launch r ctx) (run_evs evs @ []) (s\<lparr>ctx_err := Some context_Canceled\<rparr>)"
      using i(4) step.cancel [OF i(3) c] by (rule exec_step)
    then show ?thesis using i InRun c by (auto simp: engine_inv_def ctx_of_def)
  qed
qed

lemma engine_inv_cong:
  assumes "engine_inv k r evs p" "prEngine p' = prEngine p" "prMain p' = prMain p" "prCtx p' = prCtx p"
    "run_evs es = []"
  shows "engine_inv k r (evs @ es) p'"
  using assms by (cases "prEngine p") (auto simp: engine_inv_def ctx_of_def)

lemma engine_inv_in:
  assumes "engine_inv k r evs p" "prEngine p = InRun s"
  obtains ctx where "\<not> before_run (prMain p)" "ctx_err s = ctx_of p" "exec k (launch r ctx) (run_evs evs) s" "\<not> panicked s"
    "prMain p \<noteq> MRun \<Longrightarrow> \<exists>err. spc s = RReturned err \<and> held_err (prMain p) \<in> {None, Some (Some err)}"
  using assms by (auto simp: engine_inv_def)

lemma returned_stays: "spc s = RReturned err \<Longrightarrow> step k s es s' \<Longrightarrow> spc s' = RReturned err"
  by (erule step.cases) (auto simp: sched_step.simps dest: worker_frame(2))

lemma engine_inv_exec:
  assumes inv: "engine_inv k r evs p" and s: "prEngine p = InRun s"
    and st: "step k s es s'" and c: "ctx_err s' = ctx_err s" and ok: "\<And>ctx. runner_inv ts (launch r ctx)"
    and p': "prEngine p' = InRun s'" "prMain p' = prMain p" "prCtx p' = prCtx p" and es: "run_evs es' = es"
  shows "engine_inv k r (evs @ es') p'"
proof -
  obtain ctx where i: "\<not> before_run (prMain p)" "ctx_err s = ctx_of p" "exec k (launch r ctx) (run_evs evs) s"
      "prMain p \<noteq> MRun \<Longrightarrow> \<exists>err. spc s = RReturned err \<and> held_err (prMain p) \<in> {None, Some (Some err)}"
    using engine_inv_in [OF inv s] by metis
  have x: "exec k (launch r ctx) (run_evs evs @ es) s'" using i(3) st by (rule exec_step)
  then have "runner_inv ts s'" using ok runner_inv_step by (rule exec_inv)
  then have "\<not> panicked s'" by (simp add: runner_inv_def chan_inv_def)
  moreover have "\<exists>err. spc s' = RReturned err \<and> held_err (prMain p) \<in> {None, Some (Some err)}" if "prMain p \<noteq> MRun"
    using i(4) [OF that] returned_stays [OF _ st] by blast
  ultimately show ?thesis using i(1,2) c x p' es by (auto simp: engine_inv_def ctx_of_def)
qed

lemma engine_inv_main:
  assumes inv: "engine_inv k r evs p" and m: "main_step pe cerr p = Some (p', es)" and fr: "fresh r"
  shows "engine_inv k r (evs @ es) p'"
  using m
proof (cases rule: main_step_cases)
  case (call r')
  then have r: "r' = r" "run_evs evs = []" using inv by (auto simp: engine_inv_def)
  have "p' = p\<lparr>prMain := MRun, prEngine := InRun (launch r (ctx_of p))\<rparr>" "es = []"
    using call(3) by (simp_all add: r fresh_Run [OF fr] call_run_def)
  moreover have "exec k (launch r (ctx_of p)) [] (launch r (ctx_of p))" by (rule exec_refl)
  ultimately show ?thesis using r(2)
    by (auto simp: engine_inv_def ctx_of_def launch_def runner.defs)
next
  case (return s err)
  then show ?thesis using inv by (auto simp: engine_inv_def ctx_of_def)
next
  case (cancel c)
  have "engine_inv k r (evs @ es) (p\<lparr>prMain := MStop c\<rparr>)"
    using inv cancel by (auto simp: engine_inv_def ctx_of_def split: engine.splits)
  then show ?thesis using engine_inv_cancel cancel by blast
next
  case (stop c)
  have "engine_inv k r (evs @ es) (p\<lparr>prMain := if peCloses pe then MCloseFile c else MCloseListener c, prNotify := False\<rparr>)"
    using inv stop by (auto simp: engine_inv_def ctx_of_def split: engine.splits)
  then show ?thesis using engine_inv_cancel stop by blast
next
  case (code err serr c)
  then show ?thesis using inv main_events_quiet(1) [OF code(2)]
    by (auto simp: engine_inv_def ctx_of_def split: engine.splits)
next
  case (close_file c c')
  then show ?thesis using inv main_events_quiet(2) [OF close_file(2)]
    by (auto simp: engine_inv_def ctx_of_def split: engine.splits)
qed (use inv in \<open>auto simp: engine_inv_def ctx_of_def split: engine.splits\<close>)

lemma watch_step_cases [consumes 1]:
  assumes "watch_step p = Some (p', es)"
  obtains (woken) "prWatch p = WaContext" "prCtx p" "p' = p\<lparr>prWatch := WaUnready\<rparr>" "es = []"
  | (unready) "prWatch p = WaUnready" "p' = p\<lparr>prWatch := WaStop, prReady := False\<rparr>" "es = [PWatch (SetReady False)]"
  | (stop) "prWatch p = WaStop" "p' = cancel_ctx (p\<lparr>prWatch := WaDone, prNotify := False\<rparr>)" "es = []"
  using assms by (cases "prWatch p") (auto split: if_splits)

lemma serve_step_cases [consumes 1]:
  assumes "serve_step err p = Some (p', es)"
  obtains (closed) "prServe p = SvServe" "prShut p" "p' = p\<lparr>prServe := SvDone\<rparr>" "es = []"
  | (failed) e where "prServe p = SvServe" "p' = p\<lparr>prServe := SvPrint e, prServeErr := Some e\<rparr>" "es = []"
  | (printed) e where "prServe p = SvPrint e" "p' = p\<lparr>prServe := SvCancel\<rparr>" "es = [PServe ErrorLine]"
  | (cancelled) "prServe p = SvCancel" "p' = cancel_ctx (p\<lparr>prServe := SvDone\<rparr>)" "es = []"
  using assms by (cases "prServe p") (auto split: if_splits option.splits)

lemma engine_inv_step:
  assumes inv: "engine_inv k r evs p" and a: "pact pe k a p = Some (p', es)" and fr: "fresh r"
    and ok: "\<And>ctx. runner_inv ts (launch r ctx)"
  shows "engine_inv k r (evs @ es) p'"
proof -
  have silent: "engine_inv k r (evs @ es) (cancel_ctx q)"
    if "prEngine q = prEngine p" "prMain q = prMain p" "prCtx q = prCtx p" "run_evs es = []" for q :: "'b proc"
    using engine_inv_cancel [OF engine_inv_cong [OF inv that]] .
  from a show ?thesis
  proof (cases rule: pact_cases)
    case (main cerr)
    then show ?thesis using engine_inv_main [OF inv _ fr] by blast
  next
    case watch
    from watch(2) show ?thesis
    proof (cases rule: watch_step_cases)
      case stop
      show ?thesis unfolding stop(2) using stop(3) by (intro silent) simp_all
    qed (rule engine_inv_cong [OF inv]; simp)+
  next
    case (serve err)
    from serve(2) show ?thesis
    proof (cases rule: serve_step_cases)
      case cancelled
      show ?thesis unfolding cancelled(2) using cancelled(3) by (intro silent) simp_all
    qed (rule engine_inv_cong [OF inv]; simp)+
  next
    case (recv now res q c)
    show ?thesis
    proof (cases "prEngine p")
      case (NotRun r')
      then show ?thesis using recv(4) inv fr by (simp add: engine_inv_def fresh_def)
    next
      case (InRun s)
      then have rs: "results s = res # q" using recv(4) by simp
      have "\<not> panicked s" using engine_inv_in [OF inv InRun] by metis
      from step.consume [OF this rs, of k]
      show ?thesis using recv rs InRun by (intro engine_inv_exec [OF inv InRun _ _ ok]) simp_all
    qed
  next
    case signal
    then show ?thesis by (intro engine_inv_cong [OF inv]) (simp_all add: signal_step_def)
  next
    case notify
    show ?thesis unfolding notify(3) using notify(4) by (intro silent) simp_all
  next
    case (engine s s' es')
    then show ?thesis by (intro engine_inv_exec [OF inv engine(1,3,4) ok]) simp_all
  qed (rule engine_inv_cong [OF inv]; simp)+
qed

section \<open>Reachable states of the program\<close>

text \<open>
  The program on a loaded config whose event settings are fine, with the runner that \<open>run\<close>
  builds (theory CliRun), after a trace of transitions.
\<close>

definition program ::
    "proc_env \<Rightarrow> ('p, 'u) sdk \<Rightarrow> app_config \<Rightarrow> 'u runner \<Rightarrow> pev list \<Rightarrow> 'u proc \<Rightarrow> bool" where
  "program pe k cfg r evs p \<longleftrightarrow>
     wf_config cfg \<and> (\<exists>e. NewEncoder k (event_config cfg) = Inr e) \<and>
     peCloses pe = (AcSink cfg = ''file'') \<and> peInterval pe = AcInterval cfg \<and>
     New k (event_config cfg) (fst (buildTargets cfg)) (AcInterval cfg) (AcConcurrency cfg) [] = Some r \<and>
     trace (pstep pe k) (start pe r) evs p"

lemma program_runner:
  assumes "program pe k cfg r evs p"
  shows "fresh r" "runner_inv (fst (buildTargets cfg)) (launch r ctx)"
    "exec k (launch r ctx) es s \<Longrightarrow>
      executes k (event_config cfg) (fst (buildTargets cfg)) (AcInterval cfg) (AcConcurrency cfg) [] ctx es s"
proof -
  have a: "args_ok (fst (buildTargets cfg)) (AcInterval cfg) ([] :: 'b runner_option list)"
    using assms by (intro built_args_ok) (simp add: program_def)
  obtain e where e: "NewEncoder k (event_config cfg) = Inr e" and
    n: "New k (event_config cfg) (fst (buildTargets cfg)) (AcInterval cfg) (AcConcurrency cfg) [] = Some r"
    using assms by (auto simp: program_def)
  note f = New_fields [OF n]
  show fr: "fresh r" using f e by (simp add: fresh_def)
  note run = fresh_Run [OF fr, of ctx]
  show "runner_inv (fst (buildTargets cfg)) (launch r ctx)" using launch_inv [OF a n run] .
  show "exec k (launch r ctx) es s \<Longrightarrow>
      executes k (event_config cfg) (fst (buildTargets cfg)) (AcInterval cfg) (AcConcurrency cfg) [] ctx es s"
    using a n run unfolding executes_def by blast
qed

lemma start_fields [simp]:
  "prMain (start pe r) = MReady" "prWatch (start pe r) = WaContext" "\<not> prReady (start pe r)" "\<not> prCtx (start pe r)"
  "prNotify (start pe r)" "\<not> prSignal (start pe r)" "\<not> prKilled (start pe r)" "prEngine (start pe r) = NotRun r"
  "prHand (start pe r) = None" "prDrain (start pe r) = new_drain" "\<not> prDrained (start pe r)"
  "prServeErr (start pe r) = None" "\<not> prShut (start pe r)"
  "prServe (start pe r) = (if peListening pe then SvServe else SvDone)"
  by (simp_all add: start_def)

text \<open>An invariant of the trace and the state, on top of the engine's.\<close>

lemma program_invariant:
  assumes p: "program pe k cfg r evs p" and start: "P [] (start pe r)"
    and step: "\<And>evs p a p' es. program pe k cfg r evs p \<Longrightarrow> engine_inv k r evs p \<Longrightarrow> alive p \<Longrightarrow>
      pact pe k a p = Some (p', es) \<Longrightarrow> P evs p \<Longrightarrow> P (evs @ es) p'"
  shows "P evs p \<and> engine_inv k r evs p"
proof -
  have "trace (pstep pe k) (start pe r) evs p" using p by (simp add: program_def)
  then show ?thesis
  proof (induction rule: trace.induct)
    case trace_refl
    then show ?case using start by (simp add: engine_inv_def)
  next
    case (trace_step evs q es q')
    have q: "program pe k cfg r evs q" using p trace_step.hyps(1) by (simp add: program_def)
    obtain a where a: "alive q" "pact pe k a q = Some (q', es)"
      using trace_step.hyps(2) by (auto elim: pstep.cases)
    show ?case
      using step [OF q _ a] engine_inv_step [OF _ a(2) program_runner(1) [OF q] program_runner(2) [OF q]]
        trace_step.IH by blast
  qed
qed

lemma program_engine:
  assumes "program pe k cfg r evs p"
  shows "engine_inv k r evs p"
  using program_invariant [OF assms, of "\<lambda>evs p. True"] by simp

lemma program_executes:
  assumes "program pe k cfg r evs p" "prEngine p = InRun s"
  obtains ctx where
    "executes k (event_config cfg) (fst (buildTargets cfg)) (AcInterval cfg) (AcConcurrency cfg) [] ctx (run_evs evs) s"
  using engine_inv_in [OF program_engine [OF assms(1)] assms(2)] program_runner(3) [OF assms(1)] by metis

end
