(* ===== verification/ProgramSafe.thy ===== *)
theory ProgramSafe
  imports ProgramEngine
begin

text \<open>
  What holds of the whole program in every interleaving: readiness, the refinement of \<open>run\<close>'s
  sequential account, the completeness of the drain, and that shutdown goes through.
\<close>

section \<open>A session\<close>

lemma pplay_trace: "pplay pe k as p = Some (p', evs) \<Longrightarrow> trace (pstep pe k) p evs p'"
proof (induction pe k as p arbitrary: p' evs rule: pplay.induct)
  case (2 pe k a as p)
  then obtain q evs1 evs2 where q: "alive p" "pact pe k a p = Some (q, evs1)"
    "pplay pe k as q = Some (p', evs2)" "evs = evs1 @ evs2"
    by (auto split: if_splits option.splits)
  have "trace (pstep pe k) p evs1 q" by (rule trace_one) (rule pstep [OF q(1,2)])
  moreover have "trace (pstep pe k) q evs2 p'" using "2.IH" q by simp
  ultimately show ?case unfolding q(4) by (rule trace_append)
qed (simp add: trace_refl)

definition demo_config :: app_config where
  "demo_config = \<lparr>AcSource = ''descry'', AcSink = ''file'', AcFilePath = ''events'', AcInterval = 10 * Second,
     AcTimeout = Second, AcConcurrency = 1,
     AcTargets = [\<lparr>CtURL = ''https://x/'', CtLabels = [''url'' \<mapsto> ''x''], CtInterval = 0\<rparr>]\<rparr>"

definition demo_proc_env :: proc_env where
  "demo_proc_env = \<lparr>peListening = True, peCloses = True, peInterval = 10 * Second\<rparr>"

definition demo_runner :: "string runner option" where
  "demo_runner = New demo_sdk (event_config demo_config) (fst (buildTargets demo_config)) (AcInterval demo_config)
     (AcConcurrency demo_config) []"

definition session :: "paction list \<Rightarrow> (string proc \<times> pev list) option" where
  "session as = (case demo_runner of None \<Rightarrow> None | Some r \<Rightarrow> pplay demo_proc_env demo_sdk as (start demo_proc_env r))"

text \<open>The engine starts, one check fails, a signal arrives, and everything shuts down.\<close>

definition go_up :: "paction list" where
  "go_up = [AMain None, AMain None, AMain None]"

definition one_failure :: "paction list" where
  "one_failure = [ASched (Clock (1000 * Second)), ASched NoInput, ASched (Clock (1010 * Second)), ASched (Choose OnChannel),
     ASched NoInput, AWorker 0 NoInput, AWorker 0 NoInput, AWorker 0 NoInput,
     AWorker 0 (CheckReturns (Inl (Sentinel ''eof''))), AWorker 0 NoInput, AWorker 0 NoInput]"

definition go_down :: "paction list" where
  "go_down = [ASignal, ANotify, AWatch, AWatch, ASched NoInput, ASched NoInput, ASched (Clock (1010 * Second)),
     ASched (Choose OnContext), ASched NoInput, AWorker 0 NoInput, ASched NoInput, AMain None, AMain None]"

definition go_out :: "paction list" where
  "go_out = [ADrain (1011 * Second), ADrain (1011 * Second), ADrain (1011 * Second), AMain None, AMain None,
     AServe http_ErrServerClosed, AMain None, AMain None, AMain None, AMain None, AMain None, AMain None]"

lemma session_program:
  assumes "map_option f (session as) = Some v"
  obtains r p evs where "session as = Some (p, evs)" "f (p, evs) = v" "program demo_proc_env demo_sdk demo_config r evs p"
proof -
  obtain p evs where s: "session as = Some (p, evs)" "f (p, evs) = v" using assms by (cases "session as") auto
  then obtain r where r: "demo_runner = Some r" "pplay demo_proc_env demo_sdk as (start demo_proc_env r) = Some (p, evs)"
    by (auto simp: session_def split: option.splits)
  have "wf_config demo_config"
    by (simp add: demo_config_def wf_config_def wf_target_def MinInterval_def Millisecond_def Second_def max64_def)
  moreover have "case NewEncoder demo_sdk (event_config demo_config) of Inl _ \<Rightarrow> False | Inr _ \<Rightarrow> True" by code_simp
  then have "\<exists>e. NewEncoder demo_sdk (event_config demo_config) = Inr e" by (simp split: sum.splits)
  ultimately have "program demo_proc_env demo_sdk demo_config r evs p"
    using r pplay_trace by (simp add: program_def demo_runner_def demo_proc_env_def demo_config_def)
  with s show thesis using that by blast
qed

section \<open>Readiness and signals\<close>

fun serving :: "mpc \<Rightarrow> bool" where
  "serving MRecheck = True"
| "serving MUnready = True"
| "serving MCall = True"
| "serving MRun = True"
| "serving (MReturned err) = True"
| "serving pc = False"

text \<open>A goroutine that is about to clear ready once the context is cancelled.\<close>

definition clearing :: "'u proc \<Rightarrow> bool" where
  "clearing p \<longleftrightarrow> prWatch p \<in> {WaContext, WaUnready} \<or> prMain p \<in> {MRecheck, MUnready}"

definition control_inv :: "'u proc \<Rightarrow> bool" where
  "control_inv p \<longleftrightarrow>
     (prReady p \<longrightarrow> serving (prMain p)) \<and> (prReady p \<and> prCtx p \<longrightarrow> clearing p) \<and>
     (prMain p = MUnready \<longrightarrow> prCtx p) \<and> (prWatch p \<noteq> WaContext \<longrightarrow> prCtx p) \<and>
     (\<not> prNotify p \<longrightarrow> prCtx p) \<and> (prKilled p \<longrightarrow> \<not> prNotify p)"

lemma control_inv_step:
  assumes e: "engine_inv k r evs p" and fr: "fresh r" and a: "pact pe k a p = Some (p', es)" and inv: "control_inv p"
  shows "control_inv p'"
  using a
proof (cases rule: pact_cases)
  case (main cerr)
  from main(2) show ?thesis
  proof (cases rule: main_step_cases)
    case (call r')
    then have "r' = r" using e by (simp add: engine_inv_def)
    then have "p' = p\<lparr>prMain := MRun, prEngine := InRun (launch r (ctx_of p))\<rparr>"
      using call(3) by (simp add: fresh_Run [OF fr] call_run_def)
    then show ?thesis using inv call(1) by (auto simp: control_inv_def clearing_def)
  qed (use inv in \<open>auto simp: control_inv_def clearing_def\<close>)
next
  case watch
  from watch(2) show ?thesis
    by (cases rule: watch_step_cases) (use inv in \<open>auto simp: control_inv_def clearing_def\<close>)
next
  case (serve err)
  from serve(2) show ?thesis
    by (cases rule: serve_step_cases) (use inv in \<open>auto simp: control_inv_def clearing_def\<close>)
qed (use inv in \<open>auto simp: control_inv_def clearing_def signal_step_def\<close>)

definition settled :: "'u proc \<Rightarrow> bool" where
  "settled p \<longleftrightarrow> prCtx p \<and> prWatch p \<in> {WaStop, WaDone} \<and> prMain p \<notin> {MReady, MRecheck, MUnready} \<and> \<not> prReady p"

lemma settled_step:
  assumes "pstep pe k p es p'" "settled p"
  shows "settled p'"
proof -
  obtain a where "pact pe k a p = Some (p', es)" using assms(1) by (auto elim: pstep.cases)
  then show ?thesis
  proof (cases rule: pact_cases)
    case (main cerr)
    from main(2) show ?thesis
    proof (cases rule: main_step_cases)
      case (call r)
      then show ?thesis using assms(2)
        by (auto simp: settled_def call_run_def split: sum.splits prod.splits option.splits)
    qed (use assms(2) in \<open>auto simp: settled_def\<close>)
  next
    case watch
    from watch(2) show ?thesis
      by (cases rule: watch_step_cases) (use assms(2) in \<open>auto simp: settled_def\<close>)
  next
    case (serve err)
    from serve(2) show ?thesis
      by (cases rule: serve_step_cases) (use assms(2) in \<open>auto simp: settled_def\<close>)
  qed (use assms(2) in \<open>auto simp: settled_def signal_step_def\<close>)
qed

lemma program_control:
  assumes "program pe k cfg r evs p"
  shows "control_inv p"
proof -
  have "control_inv p \<and> engine_inv k r evs p"
    using assms
  proof (rule program_invariant)
    show "control_inv p'" if "program pe k cfg r evs p" "engine_inv k r evs p" "pact pe k a p = Some (p', es)" "control_inv p"
      for evs p a p' es
      using control_inv_step [OF that(2) program_runner(1) [OF that(1)] that(3,4)] .
  qed (simp add: control_inv_def)
  then show ?thesis ..
qed

text \<open>
  C10: readiness, in any interleaving of \<open>run\<close>'s goroutines. /readyz says ready only between the
  store before Run and the one after it. If it says so although the context is cancelled, a goroutine
  is about to clear it and can move: the one that waits for the context, or \<open>run\<close> at the check it
  makes after its store. Once both are past their stores it is never ready again, in any continuation. A signal
  kills the process only after an earlier cancellation has restored the default handling.
\<close>

theorem program_readiness:
  assumes "program pe k cfg r evs p"
  shows "(prReady p \<longrightarrow> serving (prMain p)) \<and>
    (prReady p \<and> prCtx p \<longrightarrow>
      prWatch p \<in> {WaContext, WaUnready} \<and> watch_step p \<noteq> None \<or>
      prMain p \<in> {MRecheck, MUnready} \<and> main_step pe None p \<noteq> None) \<and>
    (prCtx p \<and> prWatch p \<in> {WaStop, WaDone} \<and> prMain p \<notin> {MReady, MRecheck, MUnready} \<and>
      trace (pstep pe k) p evs' p' \<longrightarrow> \<not> prReady p') \<and>
    (prKilled p \<longrightarrow> prCtx p \<and> \<not> prNotify p)"
proof -
  note c = program_control [OF assms, unfolded control_inv_def]
  have w: "watch_step p \<noteq> None" if "prWatch p \<in> {WaContext, WaUnready}" "prCtx p" using that by auto
  have m: "main_step pe None p \<noteq> None" if "prMain p \<in> {MRecheck, MUnready}"
    using that by (auto simp: main_step.simps)
  have "\<not> prReady p'"
    if "prCtx p" "prWatch p \<in> {WaStop, WaDone}" "prMain p \<notin> {MReady, MRecheck, MUnready}" "trace (pstep pe k) p evs' p'"
  proof -
    have "settled p" using that(1-3) c by (auto simp: settled_def clearing_def)
    with that(4) have "settled p'" using settled_step by (rule trace_inv)
    then show ?thesis by (simp add: settled_def)
  qed
  then show ?thesis using c w m unfolding clearing_def by blast
qed

theorem program_readiness_witness:
  "\<exists>p evs r p'. session (go_up @ [ASignal, ANotify]) = Some (p, evs) \<and> program demo_proc_env demo_sdk demo_config r evs p \<and>
    prReady p \<and> prCtx p \<and> watch_step p = Some (p', []) \<and> prWatch p' = WaUnready"
proof -
  have "map_option (\<lambda>(p, evs). (prReady p, prCtx p, prMain p, prWatch p)) (session (go_up @ [ASignal, ANotify])) =
      Some (True, True, MRun, WaContext)"
    by code_simp
  from session_program [OF this] obtain r p evs where s: "session (go_up @ [ASignal, ANotify]) = Some (p, evs)"
      "prReady p" "prCtx p" "prMain p = MRun" "prWatch p = WaContext"
    and pr: "program demo_proc_env demo_sdk demo_config r evs p"
    by (metis (no_types, lifting) Pair_inject case_prod_conv)
  from program_readiness [OF pr] have "prWatch p \<in> {WaContext, WaUnready}" "watch_step p \<noteq> None" using s by auto
  moreover from this have "watch_step p = Some (p\<lparr>prWatch := WaUnready\<rparr>, [])" using s by simp
  ultimately show ?thesis using s pr by auto
qed

section \<open>What run does, and its exit code\<close>

lemma grace_step_same: "step k s es s' \<Longrightarrow> grace s' = grace s"
  by (erule step.cases) (auto dest: sched_frame worker_frame(8))

lemma exec_grace: "exec k s0 evs s \<Longrightarrow> grace s = grace s0"
  by (induction rule: exec.induct) (simp_all add: grace_step_same)

lemma New_grace: "New k cfg ts iv0 conc [] = Some r \<Longrightarrow> grace r = 0"
  by (auto simp: New_def Let_def split: if_splits option.splits)

text \<open>When Run has returned in the program, it was for the cancelled context.\<close>

lemma program_run_error:
  assumes "program pe k cfg r evs p" "prEngine p = InRun s" "spc s = RReturned err"
  shows "err = context_Canceled" "prCtx p" "results_closed s" "shut s"
proof -
  obtain ctx where ctx: "ctx_err s = ctx_of p" "exec k (launch r ctx) (run_evs evs) s"
    using engine_inv_in [OF program_engine [OF assms(1)] assms(2)] by metis
  note x = program_runner(3) [OF assms(1) ctx(2)]
  have "grace r = 0" using assms(1) New_grace by (auto simp: program_def)
  then have g: "grace s = 0" using exec_grace [OF ctx(2)] by (simp add: launch_def runner.defs)
  obtain e where e: "ctx_err s = Some e" "err = e" and c: "results_closed s"
    using executes_return_inv [OF x] assms(3) g by (auto simp: return_inv_def)
  then show "err = context_Canceled" "prCtx p" using ctx(1) by (auto simp: ctx_of_def split: if_splits)
  show "results_closed s" by (rule c)
  show "shut s" using c runner_invD(2) [OF executes_inv [OF x]] assms(3) by (auto simp: chan_inv_def shut_def)
qed

lemma program_held:
  assumes "program pe k cfg r evs p" "held_err (prMain p) = Some err"
  shows "err = Some context_Canceled"
proof -
  note e = program_engine [OF assms(1)]
  have b: "\<not> before_run (prMain p)" "prMain p \<noteq> MRun" using assms(2) by (cases "prMain p"; simp)+
  then obtain s where s: "prEngine p = InRun s" using e by (auto simp: engine_inv_def split: engine.splits)
  obtain err' where "spc s = RReturned err'" "Some err = Some (Some err')"
    by (rule engine_inv_in [OF e s]) (use b(2) assms(2) in auto)
  then show ?thesis using program_run_error(1) [OF assms(1) s] by simp
qed

text \<open>The effects of \<open>run\<close>'s goroutine up to where it is.\<close>

definition up_to_run :: "bool \<Rightarrow> effect list" where
  "up_to_run rc = [SetReady True] @ (if rc then [SetReady False] else [])"

definition up_to_drain :: "bool \<Rightarrow> effect list" where
  "up_to_drain rc = up_to_run rc @ [RunEngine, SetReady False, Drained]"

definition up_to_code :: "bool \<Rightarrow> bool \<Rightarrow> effect list" where
  "up_to_code rc L = up_to_drain rc @ (if L then [ShutdownAdmin] else [])"

definition up_to_file :: "bool \<Rightarrow> bool \<Rightarrow> bool \<Rightarrow> goerr option \<Rightarrow> effect list" where
  "up_to_file rc L C cerr = up_to_code rc L @ (if C then [CloseFile] else []) @ (if C \<and> cerr \<noteq> None then [ErrorLine] else [])"

lemmas up_to_defs = up_to_run_def up_to_drain_def up_to_code_def up_to_file_def

definition serve_code :: "'u proc \<Rightarrow> int" where
  "serve_code p = (if prServeErr p = None then 0 else 1)"

definition closed_code :: "int \<Rightarrow> bool \<Rightarrow> goerr option \<Rightarrow> int" where
  "closed_code c C cerr = (if C \<and> cerr \<noteq> None \<and> c = 0 then 1 else c)"

fun main_at :: "proc_env \<Rightarrow> bool \<Rightarrow> goerr option \<Rightarrow> 'u proc \<Rightarrow> mpc \<Rightarrow> effect list \<Rightarrow> bool" where
  "main_at pe rc cerr p MReady es = (es = [])"
| "main_at pe rc cerr p MRecheck es = (es = [SetReady True])"
| "main_at pe rc cerr p MUnready es = (es = [SetReady True] \<and> rc)"
| "main_at pe rc cerr p MCall es = (es = up_to_run rc)"
| "main_at pe rc cerr p MRun es = (es = up_to_run rc)"
| "main_at pe rc cerr p (MReturned err) es = (es = up_to_run rc @ [RunEngine])"
| "main_at pe rc cerr p (MDrain err) es = (es = up_to_run rc @ [RunEngine, SetReady False])"
| "main_at pe rc cerr p (MShutdown err) es = (es = up_to_drain rc \<and> peListening pe)"
| "main_at pe rc cerr p (MAwait err) es = (es = up_to_drain rc \<and> peListening pe)"
| "main_at pe rc cerr p (MCode err serr) es = (es = up_to_code rc (peListening pe) \<and> serr = prServeErr p)"
| "main_at pe rc cerr p (MCancel c) es = (es = up_to_code rc (peListening pe) \<and> c = serve_code p)"
| "main_at pe rc cerr p (MStop c) es = (es = up_to_code rc (peListening pe) \<and> c = serve_code p)"
| "main_at pe rc cerr p (MCloseFile c) es = (es = up_to_code rc (peListening pe) \<and> c = serve_code p \<and> peCloses pe)"
| "main_at pe rc cerr p (MCloseListener c) es =
     (es = up_to_file rc (peListening pe) (peCloses pe) cerr \<and> c = closed_code (serve_code p) (peCloses pe) cerr)"
| "main_at pe rc cerr p (MExit c) es =
     (es = up_to_file rc (peListening pe) (peCloses pe) cerr @ (if peListening pe then [CloseListener] else []) \<and>
      c = closed_code (serve_code p) (peCloses pe) cerr)"

fun serve_over :: "mpc \<Rightarrow> bool" where
  "serve_over (MCode err serr) = True"
| "serve_over (MCancel c) = True"
| "serve_over (MStop c) = True"
| "serve_over (MCloseFile c) = True"
| "serve_over (MCloseListener c) = True"
| "serve_over (MExit c) = True"
| "serve_over pc = False"

definition main_inv :: "proc_env \<Rightarrow> pev list \<Rightarrow> 'u proc \<Rightarrow> bool" where
  "main_inv pe evs p \<longleftrightarrow> (\<exists>rc cerr. main_at pe rc cerr p (prMain p) (main_evs evs)) \<and>
     (\<not> peListening pe \<longrightarrow> prServe p = SvDone \<and> prServeErr p = None) \<and>
     (serve_over (prMain p) \<longrightarrow> prServe p = SvDone) \<and>
     (prServe p = SvServe \<longrightarrow> prServeErr p = None)"

lemma main_at_cong:
  "prServeErr p' = prServeErr p \<or> \<not> serve_over pc \<Longrightarrow> main_at pe rc cerr p' pc es = main_at pe rc cerr p pc es"
  by (cases pc) (auto simp: serve_code_def)

lemma main_inv_other:
  assumes inv: "main_inv pe evs p" and "main_evs es = []" "prMain p' = prMain p"
    and s: "prServe p' = prServe p \<and> prServeErr p' = prServeErr p \<or> prServe p \<noteq> SvDone \<and>
      (prServeErr p' = prServeErr p \<or> prServe p = SvServe) \<and> prServe p' \<noteq> SvServe"
  shows "main_inv pe (evs @ es) p'"
proof -
  obtain rc cerr where m: "main_at pe rc cerr p (prMain p) (main_evs evs)" using inv by (auto simp: main_inv_def)
  have "prServeErr p' = prServeErr p \<or> \<not> serve_over (prMain p)" using inv s by (auto simp: main_inv_def)
  from main_at_cong [OF this] m have "main_at pe rc cerr p' (prMain p') (main_evs (evs @ es))" using assms(2,3) by simp
  then show ?thesis using inv s assms(3) unfolding main_inv_def by metis
qed

lemma main_inv_main:
  assumes inv: "main_inv pe evs p" and h: "\<And>err. held_err (prMain p) = Some err \<Longrightarrow> err = Some context_Canceled"
    and e: "engine_inv k r evs p" and fr: "fresh r" and m: "main_step pe cerr0 p = Some (p', es)"
  shows "main_inv pe (evs @ es) p'"
proof -
  obtain rc cerr where at: "main_at pe rc cerr p (prMain p) (main_evs evs)" using inv by (auto simp: main_inv_def)
  note fill = inv [unfolded main_inv_def]
  have goal: ?thesis
    if "main_at pe rc' cerr' p' (prMain p') (main_evs (evs @ es))" "prServe p' = prServe p" "prServeErr p' = prServeErr p"
      "serve_over (prMain p') \<longrightarrow> prServe p = SvDone" for rc' cerr'
    using that fill unfolding main_inv_def by metis
  have ok: "exitCodeFor (Some context_Canceled) = 0"
    by (simp add: exitCodeFor_def context_Canceled_def)
  from m show ?thesis
  proof (cases rule: main_step_cases)
    case recheck
    then show ?thesis using at by (intro goal [of "prCtx p" cerr]) (auto simp: up_to_run_def)
  next
    case (call r')
    then have "r' = r" using e by (simp add: engine_inv_def)
    then have "p' = p\<lparr>prMain := MRun, prEngine := InRun (launch r (ctx_of p))\<rparr>" "es = []"
      using call(3) by (simp_all add: fresh_Run [OF fr] call_run_def)
    then show ?thesis using at call(1) by (intro goal [of rc cerr]) auto
  next
    case (code err serr c)
    have "err = Some context_Canceled" using h code(1) by simp
    then have "c = serve_code p" "es = []" using code at ok
      by (auto simp: exit_code_def serve_code_def Let_def split: if_splits)
    then show ?thesis using at code fill by (intro goal [of rc cerr]) (auto simp: serve_code_def)
  next
    case (close_file c c')
    then have "c' = closed_code (serve_code p) (peCloses pe) cerr0" "main_evs es = CloseFile # (if cerr0 \<noteq> None then [ErrorLine] else [])"
      using at by (auto simp: close_file_def closed_code_def split: if_splits)
    then show ?thesis using at close_file fill
      by (intro goal [of rc cerr0]) (auto simp: serve_code_def up_to_file_def)
  next
    case (stop c)
    then show ?thesis using at fill
      by (intro goal [of rc "if peCloses pe then cerr else None"]) (auto simp: serve_code_def up_to_file_def closed_code_def)
  next
    case (await err)
    then show ?thesis using at fill by (intro goal [of rc cerr]) (auto simp: up_to_code_def)
  next
    case (drained err)
    then show ?thesis using at fill by (intro goal [of rc cerr]) (auto simp: up_to_drain_def up_to_code_def)
  qed (use at fill in \<open>intro goal [of rc cerr]; auto simp: up_to_run_def serve_code_def split: if_splits\<close>)+
qed

lemma main_inv_step:
  assumes pr: "program pe k cfg r evs p" and e: "engine_inv k r evs p" and a: "pact pe k a p = Some (p', es)"
    and inv: "main_inv pe evs p"
  shows "main_inv pe (evs @ es) p'"
  using a
proof (cases rule: pact_cases)
  case (main cerr)
  show ?thesis using main_inv_main [OF inv program_held [OF pr] e program_runner(1) [OF pr] main(2)] .
next
  case watch
  from watch(2) show ?thesis
    by (cases rule: watch_step_cases) (rule main_inv_other [OF inv]; simp)+
next
  case (serve err)
  from serve(2) show ?thesis
    by (cases rule: serve_step_cases) (rule main_inv_other [OF inv]; simp)+
next
  case signal
  then show ?thesis by (intro main_inv_other [OF inv]) (simp_all add: signal_step_def)
qed (rule main_inv_other [OF inv]; simp)+

lemma program_main:
  assumes "program pe k cfg r evs p"
  shows "main_inv pe evs p"
proof -
  have "main_inv pe evs p \<and> engine_inv k r evs p"
    using assms
  proof (rule program_invariant)
    show "main_inv pe [] (start pe r)" by (simp add: main_inv_def)
    show "main_inv pe (evs @ es) p'" if "program pe k cfg r evs p" "engine_inv k r evs p"
      "pact pe k a p = Some (p', es)" "main_inv pe evs p" for evs p a p' es
      using main_inv_step [OF that] .
  qed
  then show ?thesis ..
qed

text \<open>
  C7: the interleaved program refines \<open>run\<close>'s sequential account. However the goroutines,
  the runner, signals and the admin server's failures interleave, when \<open>run\<close> has returned, its exit code
  and the effects of its goroutine, in order, are those of \<open>run_engine\<close> in an environment in which Run
  returned context.Canceled, Serve's error is the one kept by the admin server, and the sink's Close what it
  returned; so the code is 0 exactly when neither failed.
\<close>

theorem program_refines_run:
  assumes "program pe k cfg r evs p" "prMain p = MExit code"
  shows "\<exists>env. reSdk env = k \<and> reRun env = Some context_Canceled \<and> reServe env = prServeErr p \<and>
    run_engine env (peListening pe) cfg = Some (code, main_evs evs) \<and>
    (code = 0) = (prServeErr p = None \<and> \<not> (AcSink cfg = ''file'' \<and> reClose env \<noteq> None))"
proof -
  obtain rc cerr where at: "main_at pe rc cerr p (MExit code) (main_evs evs)"
    and nl: "\<not> peListening pe \<longrightarrow> prServeErr p = None"
    using program_main [OF assms(1)] assms(2) unfolding main_inv_def by metis
  define env where "env = \<lparr>reSdk = k, reLoad = undefined, reBind = None, reRegister = undefined, reFile = undefined,
     reCancelled = rc, reRun = Some context_Canceled, reServe = prServeErr p, reClose = cerr\<rparr>"
  have c: "wf_config cfg" "peCloses pe = (AcSink cfg = ''file'')" using assms(1) by (auto simp: program_def)
  have ok: "exitCodeFor (Some context_Canceled) = 0" by (simp add: exitCodeFor_def context_Canceled_def)
  have "final_code env (peListening pe) (peCloses pe) = code"
    using at nl by (auto simp: env_def final_code_def ok closed_code_def serve_code_def)
  moreover have "engine_effects env (peListening pe) (peCloses pe) = main_evs evs"
    using at by (auto simp: env_def engine_effects_def ok up_to_defs)
  moreover have "(code = 0) = (prServeErr p = None \<and> \<not> (AcSink cfg = ''file'' \<and> reClose env \<noteq> None))"
    using at c(2) by (auto simp: env_def closed_code_def serve_code_def split: if_splits)
  ultimately show ?thesis using run_engine_total [OF c(1), of env "peListening pe"] c(2)
    by (intro exI [of _ env]) (simp add: env_def)
qed

theorem program_refines_run_witness:
  "\<exists>p evs r env. session (go_up @ one_failure @ go_down @ go_out) = Some (p, evs) \<and>
    program demo_proc_env demo_sdk demo_config r evs p \<and> prMain p = MExit 0 \<and>
    reSdk env = demo_sdk \<and> run_engine env True demo_config = Some (0, main_evs evs)"
proof -
  have "map_option (\<lambda>(p, evs). prMain p) (session (go_up @ one_failure @ go_down @ go_out)) = Some (MExit 0)" by code_simp
  from session_program [OF this] obtain r p evs where s: "session (go_up @ one_failure @ go_down @ go_out) = Some (p, evs)"
      "prMain p = MExit 0" and pr: "program demo_proc_env demo_sdk demo_config r evs p"
    by (metis (no_types, lifting) case_prod_conv)
  obtain env where "reSdk env = demo_sdk" "run_engine env (peListening demo_proc_env) demo_config = Some (0, main_evs evs)"
    using program_refines_run [OF pr s(2)] by blast
  then have "reSdk env = demo_sdk \<and> run_engine env True demo_config = Some (0, main_evs evs)"
    by (simp add: demo_proc_env_def)
  with s pr show ?thesis by blast
qed

section \<open>The drain\<close>

fun past_drain :: "mpc \<Rightarrow> bool" where
  "past_drain (MShutdown err) = True"
| "past_drain (MAwait err) = True"
| "past_drain pc = serve_over pc"

text \<open>
  What the drain has handled, with what it has in hand, is what it has received; it ends on a
  closed and empty channel, which stays so; and \<open>run\<close> passes the wait only then.
\<close>

definition drain_feed :: "proc_env \<Rightarrow> pev list \<Rightarrow> 'u proc \<Rightarrow> bool" where
  "drain_feed pe evs p \<longleftrightarrow>
     (\<exists>rs. prDrain p = drainResults (peListening pe) (peInterval pe) rs \<and>
        map snd rs @ (case prHand p of None \<Rightarrow> [] | Some res \<Rightarrow> [res]) = recv_results (run_evs evs)) \<and>
     (prDrained p \<longrightarrow> prHand p = None \<and> eng_results (prEngine p) = ([], True)) \<and>
     (past_drain (prMain p) \<longrightarrow> prDrained p) \<and> ((\<exists>err. prMain p = MAwait err) \<longrightarrow> prShut p)"

lemma drain_feed_cong:
  assumes "drain_feed pe evs p" "recv_results (run_evs es) = []" "prDrain p' = prDrain p" "prHand p' = prHand p"
    "prDrained p' = prDrained p" "prDrained p \<Longrightarrow> eng_results (prEngine p') = eng_results (prEngine p)"
    "past_drain (prMain p') \<Longrightarrow> prDrained p" "\<exists>err. prMain p' = MAwait err \<Longrightarrow> prShut p'"
  shows "drain_feed pe (evs @ es) p'"
  using assms by (simp add: drain_feed_def)

lemma cancel_engine_results [simp]: "eng_results (cancel_engine e) = eng_results e"
  by (cases e) auto

lemma engine_quiet:
  assumes "step k s es s'" "shut s" "results s = []"
  shows "es = []" "results s' = []" "results_closed s' = results_closed s"
proof -
  have "es = [] \<and> results s' = [] \<and> results_closed s' = results_closed s"
    using assms(1)
  proof cases
    case (sched inp)
    then show ?thesis using assms(2) by (auto simp: shut_def sched_step.simps)
  next
    case (worker w inp)
    have "workers s ! w = WExit" using assms(2) worker(2) all_exited_worker by (auto simp: shut_def)
    then show ?thesis using worker(3) by (simp add: exited_worker_stuck)
  qed (use assms(3) in auto)
  then show "es = []" "results s' = []" "results_closed s' = results_closed s" by simp_all
qed


lemma drain_feed_main:
  assumes inv: "drain_feed pe evs p" and e: "engine_inv k r evs p" and fr: "fresh r"
    and m: "main_step pe cerr p = Some (p', es)"
  shows "drain_feed pe (evs @ es) p'"
  using m
proof (cases rule: main_step_cases)
  case (call r')
  then have r': "r' = r" using e by (simp add: engine_inv_def)
  then have p': "p' = p\<lparr>prMain := MRun, prEngine := InRun (launch r (ctx_of p))\<rparr>" "es = []"
    using call(3) by (simp_all add: fresh_Run [OF fr] call_run_def)
  have "eng_results (InRun (launch r (ctx_of p))) = eng_results (NotRun r)"
    by (simp add: launch_def runner.defs)
  then show ?thesis using p' call(2) r' by (intro drain_feed_cong [OF inv]) simp_all
next
  case (code err serr c)
  then show ?thesis using inv main_events_quiet(1) [OF code(2)]
    by (intro drain_feed_cong [OF inv]) (simp_all add: drain_feed_def)
next
  case (close_file c c')
  then show ?thesis using inv main_events_quiet(2) [OF close_file(2)]
    by (intro drain_feed_cong [OF inv]) (simp_all add: drain_feed_def)
qed (rule drain_feed_cong [OF inv]; use inv in \<open>auto simp: drain_feed_def split: if_splits\<close>)+

lemma drain_feed_step:
  assumes pr: "program pe k cfg r evs p" and e: "engine_inv k r evs p" and a: "pact pe k a p = Some (p', es)"
    and inv: "drain_feed pe evs p"
  shows "drain_feed pe (evs @ es) p'"
  using a
proof (cases rule: pact_cases)
  case (main cerr)
  show ?thesis using drain_feed_main [OF inv e program_runner(1) [OF pr] main(2)] .
next
  case watch
  from watch(2) show ?thesis
    by (cases rule: watch_step_cases) (rule drain_feed_cong [OF inv]; use inv in \<open>simp add: drain_feed_def\<close>)+
next
  case (serve err)
  from serve(2) show ?thesis
    by (cases rule: serve_step_cases) (rule drain_feed_cong [OF inv]; use inv in \<open>simp add: drain_feed_def\<close>)+
next
  case (recv now res q c)
  then show ?thesis using inv by (auto simp: drain_feed_def)
next
  case (handle now res)
  obtain rs where rs: "prDrain p = drainResults (peListening pe) (peInterval pe) rs" "map snd rs @ [res] = recv_results (run_evs evs)"
    using inv handle(3) by (auto simp: drain_feed_def)
  then have "\<exists>rs. prDrain p' = drainResults (peListening pe) (peInterval pe) rs \<and> map snd rs = recv_results (run_evs evs)"
    using handle(5) by (intro exI [of _ "rs @ [(now, res)]"]) (simp add: drainResults_snoc)
  then show ?thesis using inv handle by (simp add: drain_feed_def)
next
  case (drain_end now)
  then show ?thesis using inv by (simp add: drain_feed_def)
next
  case signal
  then show ?thesis using inv by (intro drain_feed_cong [OF inv]) (simp_all add: drain_feed_def)
next
  case notify
  then show ?thesis using inv by (intro drain_feed_cong [OF inv]) (simp_all add: drain_feed_def)
next
  case (engine s s' es')
  have q: "eng_results (InRun s') = eng_results (InRun s)" if "prDrained p"
  proof -
    have r: "results s = []" "results_closed s" using inv that engine(1) by (auto simp: drain_feed_def)
    obtain ctx where x: "exec k (launch r ctx) (run_evs evs) s" using engine_inv_in [OF e engine(1)] by metis
    have "runner_inv (fst (buildTargets cfg)) s"
      using executes_inv [OF program_runner(3) [OF pr x]] .
    then have "shut s" using r(2) by (auto simp: runner_inv_def chan_inv_def shut_def)
    from engine_quiet [OF engine(3) this r(1)] show ?thesis using r by simp
  qed
  show ?thesis using engine inv q by (intro drain_feed_cong [OF inv]) (simp_all add: drain_feed_def)
qed

lemma program_feed:
  assumes "program pe k cfg r evs p"
  shows "drain_feed pe evs p"
proof -
  have "drain_feed pe evs p \<and> engine_inv k r evs p"
    using assms
  proof (rule program_invariant)
    show "drain_feed pe [] (start pe r)"
      by (auto simp: drain_feed_def drainResults_def intro: exI [of _ "[]"])
    show "drain_feed pe (evs @ es) p'" if "program pe k cfg r evs p" "engine_inv k r evs p"
      "pact pe k a p = Some (p', es)" "drain_feed pe evs p" for evs p a p' es
      using drain_feed_step [OF that] .
  qed
  then show ?thesis ..
qed

lemma map_filter_map: "List.map_filter f (map g xs) = List.map_filter (f \<circ> g) xs"
  by (induction xs) (simp_all add: map_filter_simps split: option.split)

text \<open>
  C8: nothing is lost between the engine and stderr. Once \<open>run\<close> has passed the wait for the
  drain, Run has returned for the cancelled context, Results() is closed and empty, and the drain has
  handled exactly the Results that were sent, in order: its failure count is the number of them that are
  failures, as a wrapping 64-bit counter; with a listener the skips it has passed to the collector are their
  skips, and without one it has passed on none. Every skip and every completed run of every target was sent or
  is in the count of drops.
\<close>

theorem program_drains_everything:
  assumes "program pe k cfg r evs p" "past_drain (prMain p)"
  shows "\<exists>rs s. prEngine p = InRun s \<and> spc s = RReturned context_Canceled \<and> results_closed s \<and> results s = [] \<and>
    prDrain p = drainResults (peListening pe) (AcInterval cfg) rs \<and> map snd rs = sent_results (run_evs evs) \<and>
    dr_failures (prDrain p) = wrap64 (int (length (filter is_failure (sent_results (run_evs evs))))) \<and>
    dr_observed (prDrain p) = (if peListening pe then List.map_filter skip_kind (sent_results (run_evs evs)) else []) \<and>
    (\<forall>i. n_skips i (run_evs evs) + n_completed i (run_evs evs) = n_sent i (run_evs evs) + n_dropped i (run_evs evs)) \<and>
    dropped s = wrap64 (int (all_dropped (run_evs evs)))"
proof -
  note e = program_engine [OF assms(1)] and feed = program_feed [OF assms(1), unfolded drain_feed_def]
  have b: "\<not> before_run (prMain p)" "prMain p \<noteq> MRun" using assms(2) by (cases "prMain p"; simp)+
  then obtain s where s: "prEngine p = InRun s" using e by (auto simp: engine_inv_def split: engine.splits)
  obtain ctx err where x: "exec k (launch r ctx) (run_evs evs) s" and pc: "spc s = RReturned err"
    by (rule engine_inv_in [OF e s]) (use b(2) in auto)
  note ret = program_run_error [OF assms(1) s pc]
  note exe = program_runner(3) [OF assms(1) x]
  have d: "prDrained p" using feed assms(2) by blast
  then have r: "results s = []" "prHand p = None" using feed s by auto
  obtain rs where rs: "prDrain p = drainResults (peListening pe) (AcInterval cfg) rs" "map snd rs = recv_results (run_evs evs)"
    using feed r(2) assms(1) by (auto simp: program_def)
  then have m: "map snd rs = sent_results (run_evs evs)" using counters(3) [OF exe] r(1) by simp
  have "dr_failures (prDrain p) = wrap64 (int (length (filter is_failure (sent_results (run_evs evs)))))"
    unfolding rs(1) drainResults_counts m [symmetric] by (simp add: filter_map)
  moreover have "dr_observed (prDrain p) = (if peListening pe then List.map_filter skip_kind (sent_results (run_evs evs)) else [])"
    unfolding rs(1) drainResults_counts m [symmetric] by (simp add: map_filter_map)
  moreover have "n_skips i (run_evs evs) + n_completed i (run_evs evs) = n_sent i (run_evs evs) + n_dropped i (run_evs evs)" for i
    using slot_counts(2) [OF exe, of i] returned_quiet(2) [OF executes_inv [OF exe] ret(3), of i] by simp
  ultimately show ?thesis using s pc ret(1,3) r(1) rs(1) m counters(2) [OF exe] by blast
qed

theorem program_drains_everything_witness:
  "\<exists>p evs r. session (go_up @ one_failure @ go_down @ take 5 go_out) = Some (p, evs) \<and>
    program demo_proc_env demo_sdk demo_config r evs p \<and> past_drain (prMain p) \<and>
    dr_failures (prDrain p) = 1 \<and> length (filter is_failure (sent_results (run_evs evs))) = 1"
proof -
  have "map_option (\<lambda>(p, evs). (past_drain (prMain p), length (filter is_failure (sent_results (run_evs evs)))))
      (session (go_up @ one_failure @ go_down @ take 5 go_out)) = Some (True, 1)" by code_simp
  from session_program [OF this] obtain r p evs where
      s: "session (go_up @ one_failure @ go_down @ take 5 go_out) = Some (p, evs)" "past_drain (prMain p)"
      "length (filter is_failure (sent_results (run_evs evs))) = 1"
    and pr: "program demo_proc_env demo_sdk demo_config r evs p"
    by (metis (no_types, lifting) Pair_inject case_prod_conv)
  have "wrap64 1 = 1" by (simp add: wrap64_def)
  with program_drains_everything [OF pr s(2)] show ?thesis using s pr by auto
qed

section \<open>Progress\<close>

text \<open>
  After the context is cancelled, until \<open>run\<close> has returned, some goroutine can move without another
  signal: the wait for Run, for the drain and for Serve each have someone left who will end them.
\<close>

lemma program_can_move:
  assumes "program pe k cfg r evs p" "alive p" "prCtx p"
  shows "\<exists>a. a \<noteq> ASignal \<and> pact pe k a p \<noteq> None"
proof -
  note e = program_engine [OF assms(1)] and feed = program_feed [OF assms(1), unfolded drain_feed_def]
  have main: ?thesis if "main_step pe None p \<noteq> None"
    using that by (intro exI [of _ "AMain None"]) simp
  show ?thesis
  proof (cases "prMain p")
    case MCall
    then obtain r' where "prEngine p = NotRun r'" using e by (auto simp: engine_inv_def split: engine.splits)
    then show ?thesis using MCall by (intro main) (simp add: main_step.simps)
  next
    case MRun
    then obtain s where s: "prEngine p = InRun s" using e by (auto simp: engine_inv_def split: engine.splits)
    obtain ctx where x: "exec k (launch r ctx) (run_evs evs) s" "ctx_err s = ctx_of p" "\<not> panicked s"
      using engine_inv_in [OF e s] by metis
    note inv = executes_inv [OF program_runner(3) [OF assms(1) x(1)]]
    show ?thesis
    proof (cases "\<exists>err. spc s = RReturned err")
      case True
      then show ?thesis using MRun s by (intro main) (auto simp: main_step.simps run_return_def)
    next
      case False
      have "can_move k s"
        using scheduling_can_move [OF inv] stopped_can_move [OF inv] False x(2) assms(3)
        by (cases "scheduling (spc s)") (auto simp: can_move_def ctx_of_def)
      then consider (sched) inp where "sched_step inp s \<noteq> None"
        | (worker) w inp where "w < length (workers s)" "worker_step k w inp s \<noteq> None"
        unfolding can_move_def by blast
      then show ?thesis
      proof cases
        case (sched inp)
        then show ?thesis using s x(3) by (intro exI [of _ "ASched inp"]) (simp add: engine_step_def)
      next
        case (worker w inp)
        then show ?thesis using s x(3) by (intro exI [of _ "AWorker w inp"]) (simp add: engine_step_def)
      qed
    qed
  next
    case (MDrain err)
    show ?thesis
    proof (cases "prDrained p")
      case True
      then show ?thesis using MDrain by (intro main) (simp add: main_step.simps)
    next
      case False
      obtain s where s: "prEngine p = InRun s" using e MDrain by (auto simp: engine_inv_def split: engine.splits)
      obtain err' where "spc s = RReturned err'" by (rule engine_inv_in [OF e s]) (use MDrain in auto)
      then have "results_closed s" using program_run_error(3) [OF assms(1) s] by blast
      then have "drain_go pe 0 p \<noteq> None" using False s by (cases "prHand p"; cases "results s") auto
      then show ?thesis by (intro exI [of _ "ADrain 0"]) simp
    qed
  next
    case (MAwait err)
    then have sh: "prShut p" using feed by blast
    show ?thesis
    proof (cases "prServe p = SvDone")
      case True
      then show ?thesis using MAwait by (intro main) (simp add: main_step.simps)
    next
      case False
      then have "serve_step http_ErrServerClosed p \<noteq> None" using sh
        by (cases "prServe p") (auto simp: serve_end_def http_ErrServerClosed_def)
      then show ?thesis by (intro exI [of _ "AServe http_ErrServerClosed"]) simp
    qed
  next
    case (MExit c)
    then show ?thesis using assms(2) by (simp add: alive_def)
  qed (rule main; simp add: main_step.simps split: prod.splits)+
qed

section \<open>Closing the sink\<close>

definition engine_over :: "'u proc \<Rightarrow> bool" where
  "engine_over p \<longleftrightarrow> (\<exists>s. prEngine p = InRun s \<and> shut s)"

lemma shut_env: "shut (s\<lparr>ctx_err := c\<rparr>) = shut s" "shut (s\<lparr>results := rs\<rparr>) = shut s"
  by (simp_all add: shut_def all_exited_def)

lemma engine_over_cancel: "engine_over p \<Longrightarrow> engine_over (cancel_ctx p)"
  by (auto simp: engine_over_def shut_env)

lemma engine_over_step:
  assumes "pstep pe k p es p'" "engine_over p"
  shows "engine_over p' \<and> (\<exists>rs. run_evs es = map EvRecv rs)"
proof -
  obtain s where s: "prEngine p = InRun s" "shut s" using assms(2) by (auto simp: engine_over_def)
  obtain a where "pact pe k a p = Some (p', es)" using assms(1) by (auto elim: pstep.cases)
  then show ?thesis
  proof (cases rule: pact_cases)
    case (main cerr)
    have q: "run_evs es = [] \<and> engine_over p'"
      using main(2)
    proof (cases rule: main_step_cases)
      case (code err serr c)
      then show ?thesis using s main_events_quiet(1) [OF code(2)] by (auto simp: engine_over_def)
    next
      case (close_file c c')
      then show ?thesis using s main_events_quiet(2) [OF close_file(2)] by (auto simp: engine_over_def)
    qed (use s in \<open>auto simp: engine_over_def shut_env\<close>)
    then show ?thesis by (metis list.map_disc_iff)
  next
    case watch
    from watch(2) show ?thesis
      by (cases rule: watch_step_cases) (use s in \<open>auto simp: engine_over_def shut_env\<close>)
  next
    case (serve err)
    from serve(2) show ?thesis
      by (cases rule: serve_step_cases) (use s in \<open>auto simp: engine_over_def shut_env\<close>)
  next
    case (recv now res q c)
    then show ?thesis using s by (auto simp: engine_over_def shut_env intro: exI [of _ "[res]"])
  next
    case (engine t t' es')
    then show ?thesis using s shut_step [of t k es' t'] by (auto simp: engine_over_def)
  qed (use s in \<open>auto simp: engine_over_def shut_env\<close>)
qed

lemma engine_over_trace:
  assumes "trace (pstep pe k) p es p'" "engine_over p"
  shows "engine_over p' \<and> (\<exists>rs. run_evs es = map EvRecv rs)"
  using assms
proof (induction rule: trace.induct)
  case (trace_step es1 q es2 q')
  then obtain rs1 where r1: "engine_over q" "run_evs es1 = map EvRecv rs1" by blast
  obtain rs2 where "engine_over q'" "run_evs es2 = map EvRecv rs2"
    using engine_over_step [OF trace_step.hyps(2) r1(1)] by blast
  then show ?case using r1(2) by (auto intro: exI [of _ "rs1 @ rs2"])
qed simp

text \<open>A drain that has ended stays so, and nothing is received after it.\<close>

lemma drained_step:
  assumes "pact pe k a p = Some (p', es)" "prDrained p"
  shows "prDrained p' \<and> prDrain p' = prDrain p \<and> recv_results (run_evs es) = []"
  using assms(1)
proof (cases rule: pact_cases)
  case (main cerr)
  from main(2) show ?thesis
  proof (cases rule: main_step_cases)
    case (call r')
    then show ?thesis using assms(2) by (auto simp: call_run_def split: sum.splits option.splits)
  next
    case (code err serr c)
    then show ?thesis using assms(2) main_events_quiet(1) [OF code(2)] by auto
  next
    case (close_file c c')
    then show ?thesis using assms(2) main_events_quiet(2) [OF close_file(2)] by auto
  qed (use assms(2) in auto)
next
  case watch
  from watch(2) show ?thesis by (cases rule: watch_step_cases) (use assms(2) in auto)
next
  case (serve err)
  from serve(2) show ?thesis by (cases rule: serve_step_cases) (use assms(2) in auto)
qed (use assms(2) in \<open>auto simp: signal_step_def\<close>)

lemma drained_trace:
  assumes "trace (pstep pe k) p es p'" "prDrained p"
  shows "prDrained p' \<and> prDrain p' = prDrain p \<and> recv_results (run_evs es) = []"
  using assms
proof (induction rule: trace.induct)
  case (trace_step es1 q es2 q')
  obtain a where "pact pe k a q = Some (q', es2)" using trace_step.hyps(2) by (auto elim: pstep.cases)
  then show ?case using drained_step [of pe k a q q' es2] trace_step by simp
qed simp

text \<open>
  C19: the sink is closed last. When \<open>run\<close> is past Run, every worker has exited, and in every
  continuation no run is started and nothing is published. When it is past the wait for the drain, in
  particular when it closes the sink file, Results() is closed and empty, the drain has ended with nothing in
  hand, and in every continuation no Result is received and what the drain has counted and printed stays as it
  is. When it is past the admin server's shutdown, Serve has returned.
\<close>

theorem program_closes_last:
  assumes "program pe k cfg r evs p" "\<not> before_run (prMain p)" "prMain p \<noteq> MRun" "trace (pstep pe k) p evs' p'"
  shows "(\<exists>s. prEngine p = InRun s \<and> all_exited s \<and> work s = []) \<and>
    n_started i (run_evs evs') = 0 \<and> n_published i (run_evs evs') = 0 \<and>
    (past_drain (prMain p) \<longrightarrow> prDrained p \<and> prHand p = None \<and> eng_results (prEngine p) = ([], True) \<and>
      prDrained p' \<and> recv_results (run_evs evs') = [] \<and> prDrain p' = prDrain p) \<and>
    (serve_over (prMain p) \<longrightarrow> prServe p = SvDone)"
proof -
  note e = program_engine [OF assms(1)]
  obtain s where s: "prEngine p = InRun s" using e assms(2) by (auto simp: engine_inv_def split: engine.splits)
  obtain ctx err where x: "exec k (launch r ctx) (run_evs evs) s" and pc: "spc s = RReturned err"
    by (rule engine_inv_in [OF e s]) (use assms(3) in auto)
  note ret = program_run_error [OF assms(1) s pc]
  have ex: "all_exited s" using ret(4) by (simp add: shut_def)
  have inv: "runner_inv (fst (buildTargets cfg)) s" using executes_inv [OF program_runner(3) [OF assms(1) x]] .
  have "WExit \<in> set (workers s)"
    using ex runner_invD(6) [OF inv] by (cases "workers s") (auto simp: all_exited_conv)
  then have "work s = []" using runner_invD(2) [OF inv] unfolding chan_inv_def by blast
  moreover obtain rs where rs: "run_evs evs' = map EvRecv rs"
    using engine_over_trace [OF assms(4)] s ret(4) by (auto simp: engine_over_def)
  moreover have "n_started i (map EvRecv rs) = 0" "n_published i (map EvRecv rs) = 0"
    by (induction rs) (simp_all add: n_defs)
  moreover have "past_drain (prMain p) \<longrightarrow> prDrained p \<and> prHand p = None \<and> eng_results (prEngine p) = ([], True)"
    using program_feed [OF assms(1)] by (simp add: drain_feed_def)
  moreover have "serve_over (prMain p) \<longrightarrow> prServe p = SvDone" using program_main [OF assms(1)] by (auto simp: main_inv_def)
  ultimately show ?thesis using s ex drained_trace [OF assms(4)] by auto
qed

theorem program_closes_last_witness:
  "\<exists>p evs r. session (go_up @ one_failure @ go_down @ butlast (butlast go_out)) = Some (p, evs) \<and>
    program demo_proc_env demo_sdk demo_config r evs p \<and> prMain p = MCloseFile 0 \<and> prServe p = SvDone \<and>
    prDrained p \<and> (\<exists>s. prEngine p = InRun s \<and> all_exited s)"
proof -
  have "map_option (\<lambda>(p, evs). prMain p) (session (go_up @ one_failure @ go_down @ butlast (butlast go_out))) =
      Some (MCloseFile 0)" by code_simp
  from session_program [OF this] obtain r p evs where
      s: "session (go_up @ one_failure @ go_down @ butlast (butlast go_out)) = Some (p, evs)" "prMain p = MCloseFile 0"
    and pr: "program demo_proc_env demo_sdk demo_config r evs p"
    by (metis (no_types, lifting) case_prod_conv)
  from program_closes_last [OF pr _ _ trace_refl, of 0] show ?thesis using s pr by auto
qed

end
