(* ===== verification/ProgramExit.thy ===== *)
theory ProgramExit
  imports ProgramSafe
begin

text \<open>
  The process exits: from the moment the scheduler has returned, every transition of every goroutine but
  the arrival of another signal uses up a bounded measure, and something can move until the exit.
\<close>

section \<open>The measure\<close>

fun main_left :: "mpc \<Rightarrow> nat" where
  "main_left (MExit c) = 0"
| "main_left (MCloseListener c) = 1"
| "main_left (MCloseFile c) = 2"
| "main_left (MStop c) = 3"
| "main_left (MCancel c) = 4"
| "main_left (MCode err serr) = 5"
| "main_left (MAwait err) = 6"
| "main_left (MShutdown err) = 7"
| "main_left (MDrain err) = 8"
| "main_left (MReturned err) = 9"
| "main_left MRun = 10"
| "main_left MCall = 11"
| "main_left MUnready = 12"
| "main_left MRecheck = 13"
| "main_left MReady = 14"

fun watch_left :: "watch \<Rightarrow> nat" where
  "watch_left WaDone = 0"
| "watch_left WaStop = 1"
| "watch_left WaUnready = 2"
| "watch_left WaContext = 3"

fun serve_left :: "serve \<Rightarrow> nat" where
  "serve_left SvDone = 0"
| "serve_left SvCancel = 1"
| "serve_left (SvPrint e) = 2"
| "serve_left SvServe = 3"

text \<open>
  A transition of the runner buffers at most one Result, which costs the drain two transitions: hence
  its weight.
\<close>

fun engine_left :: "'u engine \<Rightarrow> nat" where
  "engine_left (NotRun r) = 0"
| "engine_left (InRun s) = 3 * stop_left s + 2 * length (results s)"

definition drain_left :: "'u proc \<Rightarrow> nat" where
  "drain_left p = (if prHand p = None then 0 else 1) + (if prDrained p then 0 else 1)"

definition proc_left :: "'u proc \<Rightarrow> nat" where
  "proc_left p = main_left (prMain p) + watch_left (prWatch p) + serve_left (prServe p) + engine_left (prEngine p) +
     drain_left p + (if prSignal p then 1 else 0)"

definition winding_down :: "'u proc \<Rightarrow> bool" where
  "winding_down p \<longleftrightarrow> (\<exists>s. prEngine p = InRun s \<and> \<not> scheduling (spc s))"

lemma engine_left_cancel [simp]: "engine_left (cancel_engine e) = engine_left e"
  by (cases e) (simp_all add: stop_left_def)

lemma winding_down_cancel [simp]: "winding_down (cancel_ctx p) = winding_down p"
  by (cases "prEngine p") (auto simp: winding_down_def)

section \<open>Every transition uses it up\<close>

text \<open>After the scheduler has returned only workers send Results, one at a time.\<close>

lemma report_one_result:
  "report_step i rp inp s = Some (rp', s', evs) \<Longrightarrow> length (results s') \<le> length (results s) + 1"
  by (cases "(i, rp, inp, s)" rule: report_step.cases) (auto simp: Let_def split: if_splits)

lemma worker_one_result:
  assumes "worker_step k w inp s = Some (s', evs)"
  shows "length (results s') \<le> length (results s) + 1"
  using assms
proof (cases rule: worker_step_cases)
  case (report i rp rp' t)
  then show ?thesis using report_one_result [OF report(2)] by simp
qed (auto simp: worker_defs split: list.splits if_splits option.splits sum.splits choice.splits prod.splits)

lemma engine_left_step:
  assumes "step k s es s'" "\<not> scheduling (spc s)" "chan_inv s" "ctx_err s' = ctx_err s" "recv_results es = []"
  shows "engine_left (InRun s') < engine_left (InRun s)" "\<not> scheduling (spc s')"
proof -
  have "engine_left (InRun s') < engine_left (InRun s) \<and> \<not> scheduling (spc s')"
    using assms(1)
  proof cases
    case (sched inp)
    have "results s' = results s" by (rule sched_results [OF sched(2)]) (use assms(2) in auto)
    then show ?thesis using stop_left_sched [OF assms(2) sched(2) assms(3)] by simp
  next
    case (worker w inp)
    then show ?thesis
      using stop_left_worker [OF worker(2,3)] worker_one_result [OF worker(3)] worker_frame(2) [OF worker(3)] assms(2)
      by simp
  qed (use assms(4,5) in auto)
  then show "engine_left (InRun s') < engine_left (InRun s)" "\<not> scheduling (spc s')" by simp_all
qed

lemma main_left_step:
  assumes "main_step pe cerr p = Some (p', evs)" "winding_down p"
  shows "proc_left p' < proc_left p" "winding_down p'"
proof -
  have "proc_left p' < proc_left p \<and> winding_down p'"
    using assms(1)
  proof (cases rule: main_step_cases)
    case (call r)
    then show ?thesis using assms(2) by (simp add: winding_down_def)
  qed (use assms(2) in \<open>auto simp: proc_left_def drain_left_def winding_down_def stop_left_def\<close>)
  then show "proc_left p' < proc_left p" "winding_down p'" by simp_all
qed

lemma proc_left_step:
  assumes "pact pe k a p = Some (p', evs)" "winding_down p" "\<And>s. prEngine p = InRun s \<Longrightarrow> chan_inv s"
  shows "winding_down p'" "a \<noteq> ASignal \<Longrightarrow> proc_left p' < proc_left p" "proc_left p' \<le> proc_left p + 1"
proof -
  obtain s where s: "prEngine p = InRun s" "\<not> scheduling (spc s)" using assms(2) by (auto simp: winding_down_def)
  have "winding_down p' \<and> (a \<noteq> ASignal \<longrightarrow> proc_left p' < proc_left p) \<and> proc_left p' \<le> proc_left p + 1"
    using assms(1)
  proof (cases rule: pact_cases)
    case (main cerr)
    then show ?thesis using main_left_step [OF main(2) assms(2)] by simp
  next
    case watch
    from watch(2) show ?thesis
      by (cases rule: watch_step_cases) (use assms(2) in \<open>auto simp: proc_left_def drain_left_def winding_down_def\<close>)
  next
    case (serve err)
    from serve(2) show ?thesis
      by (cases rule: serve_step_cases) (use assms(2) in \<open>auto simp: proc_left_def drain_left_def winding_down_def\<close>)
  next
    case signal
    then show ?thesis using assms(2) by (auto simp: proc_left_def drain_left_def winding_down_def signal_step_def)
  next
    case (engine t t' es)
    then show ?thesis using engine_left_step [OF engine(3) _ assms(3) engine(4,7)] s
      by (auto simp: proc_left_def drain_left_def winding_down_def)
  qed (use s in \<open>auto simp: proc_left_def drain_left_def winding_down_def stop_left_def\<close>)
  then show "winding_down p'" "a \<noteq> ASignal \<Longrightarrow> proc_left p' < proc_left p" "proc_left p' \<le> proc_left p + 1"
    by simp_all
qed

section \<open>The exit\<close>

lemma program_play:
  assumes "program pe k cfg r evs p" "pplay pe k as p = Some (p', evs')"
  shows "program pe k cfg r (evs @ evs') p'"
  using assms pplay_trace [OF assms(2)] trace_append by (fastforce simp: program_def)

lemma program_chan:
  assumes "program pe k cfg r evs p" "prEngine p = InRun s"
  shows "chan_inv s" "\<not> scheduling (spc s) \<Longrightarrow> prCtx p"
proof -
  obtain ctx where ctx: "ctx_err s = ctx_of p" "exec k (launch r ctx) (run_evs evs) s"
    using engine_inv_in [OF program_engine [OF assms(1)] assms(2)] by metis
  note x = program_runner(3) [OF assms(1) ctx(2)]
  show "chan_inv s" using runner_invD(2) [OF executes_inv [OF x]] .
  show "\<not> scheduling (spc s) \<Longrightarrow> prCtx p"
    using executes_return_inv [OF x] ctx(1) by (cases "spc s") (auto simp: return_inv_def ctx_of_def split: if_splits)
qed

lemma play_left:
  assumes "program pe k cfg r evs p" "winding_down p" "pplay pe k as p = Some (p', evs')"
  shows "winding_down p' \<and>
    length (filter (\<lambda>a. a \<noteq> ASignal) as) + proc_left p' \<le> proc_left p + length (filter (\<lambda>a. a = ASignal) as)"
  using assms
proof (induction as arbitrary: p evs evs')
  case (Cons a as)
  obtain q es es' where q: "alive p" "pact pe k a p = Some (q, es)" "pplay pe k as q = Some (p', es')"
    using Cons.prems(3) by (auto split: if_splits option.splits)
  note st = proc_left_step [OF q(2) Cons.prems(2) program_chan(1) [OF Cons.prems(1)]]
  have "trace (pstep pe k) p es q" by (rule trace_one) (rule pstep [OF q(1,2)])
  then have "program pe k cfg r (evs @ es) q" using Cons.prems(1) trace_append by (fastforce simp: program_def)
  from Cons.IH [OF this st(1) q(3)] st show ?case by auto
qed simp

lemma proc_left_bound:
  assumes "prEngine p = InRun s"
  shows "proc_left p \<le> 31 + 57 * (length (workers s) + length (work s)) + 2 * length (results s)"
proof -
  have "main_left (prMain p) \<le> 14" "watch_left (prWatch p) \<le> 3" "serve_left (prServe p) \<le> 3" "drain_left p \<le> 2"
    by (cases "prMain p"; cases "prWatch p"; cases "prServe p"; simp add: drain_left_def)+
  then show ?thesis using assms stop_left_bound [of s] by (simp add: proc_left_def)
qed

text \<open>
  C18: the process exits. After the context is cancelled something other than a signal can always move
  until the process is gone: the waits for Run, for the drain and for Serve each have someone who will end
  them. And once the scheduler has returned, whatever the order, the transitions of all goroutines are
  at most \<open>proc_left\<close>, which the workers, the queued entries and the buffered Results bound, plus one
  for each further signal; so after at most that many the process has exited.
\<close>

theorem program_exits:
  assumes "program pe k cfg r evs p" "prCtx p"
  shows "(alive p \<longrightarrow> (\<exists>a. a \<noteq> ASignal \<and> pact pe k a p \<noteq> None)) \<and>
    (\<forall>s as p' evs'. prEngine p = InRun s \<and> \<not> scheduling (spc s) \<and> pplay pe k as p = Some (p', evs') \<longrightarrow>
       length (filter (\<lambda>a. a \<noteq> ASignal) as) \<le> proc_left p + length (filter (\<lambda>a. a = ASignal) as) \<and>
       proc_left p \<le> 31 + 57 * (length (workers s) + length (work s)) + 2 * length (results s) \<and>
       (alive p' \<longrightarrow> (\<exists>a. a \<noteq> ASignal \<and> pact pe k a p' \<noteq> None)))"
proof -
  have "length (filter (\<lambda>a. a \<noteq> ASignal) as) \<le> proc_left p + length (filter (\<lambda>a. a = ASignal) as) \<and>
      (alive p' \<longrightarrow> (\<exists>a. a \<noteq> ASignal \<and> pact pe k a p' \<noteq> None))"
    if "prEngine p = InRun s" "\<not> scheduling (spc s)" "pplay pe k as p = Some (p', evs')" for s as p' evs'
  proof -
    have w: "winding_down p" using that(1,2) by (auto simp: winding_down_def)
    note play = play_left [OF assms(1) w that(3)] and pr = program_play [OF assms(1) that(3)]
    then have "prCtx p'" using program_chan(2) [OF pr] by (auto simp: winding_down_def)
    then show ?thesis using play program_can_move [OF pr] by auto
  qed
  then show ?thesis using program_can_move [OF assms(1) _ assms(2)] proc_left_bound [of p] by fastforce
qed

definition scheduler_out :: "paction list" where
  "scheduler_out = go_up @ one_failure @ take 8 go_down"

definition the_rest :: "paction list" where
  "the_rest = drop 8 go_down @ go_out"

theorem program_exits_witness:
  "\<exists>p evs r p' evs'. session scheduler_out = Some (p, evs) \<and> program demo_proc_env demo_sdk demo_config r evs p \<and>
    pplay demo_proc_env demo_sdk the_rest p = Some (p', evs') \<and> prMain p' = MExit 0 \<and>
    proc_left p = 26 \<and> length (filter (\<lambda>a. a \<noteq> ASignal) the_rest) \<le> 26"
proof -
  have v: "map_option (\<lambda>(p, evs). (proc_left p, prCtx p,
        case prEngine p of NotRun r \<Rightarrow> False | InRun s \<Rightarrow> \<not> scheduling (spc s),
        map_option (\<lambda>(p', evs'). prMain p') (pplay demo_proc_env demo_sdk the_rest p)))
      (session scheduler_out) = Some (26, True, True, Some (MExit 0))" by code_simp
  obtain r p evs where s: "session scheduler_out = Some (p, evs)" "proc_left p = 26" "prCtx p"
      "case prEngine p of NotRun r \<Rightarrow> False | InRun s \<Rightarrow> \<not> scheduling (spc s)"
      "map_option (\<lambda>(p', evs'). prMain p') (pplay demo_proc_env demo_sdk the_rest p) = Some (MExit 0)"
    and pr: "program demo_proc_env demo_sdk demo_config r evs p"
    by (rule session_program [OF v]) (auto simp only: prod.case prod.inject)
  obtain s' where e: "prEngine p = InRun s'" "\<not> scheduling (spc s')" using s(4) by (cases "prEngine p") simp_all
  obtain p' evs' where x: "pplay demo_proc_env demo_sdk the_rest p = Some (p', evs')" "prMain p' = MExit 0"
    using s(5) by (auto split: prod.splits)
  have "length (filter (\<lambda>a. a = ASignal) the_rest) = 0" by (simp add: the_rest_def go_down_def go_out_def)
  then have "length (filter (\<lambda>a. a \<noteq> ASignal) the_rest) \<le> 26"
    using program_exits [OF pr s(3), THEN conjunct2, rule_format, of s' the_rest p' evs'] e x(1) s(2) by simp
  then show ?thesis using x s(1,2) pr by blast
qed

end
