(* ===== verification/ProgramMetrics.thy ===== *)
theory ProgramMetrics
  imports ProgramSafe
begin

text \<open>
  The metrics of the running program: what the collector that \<open>run\<close> wires to the runner and
  to the drain reads at a scrape, at any instant of any interleaving.
\<close>

section \<open>The wiring\<close>

text \<open>\<open>Runner.Skipped\<close> and \<open>Runner.Dropped\<close>, loads of the runner's counters.\<close>

definition Runner_Skipped :: "('u, 'm) runner_scheme \<Rightarrow> int" where "Runner_Skipped r = skipped r"
definition Runner_Dropped :: "('u, 'm) runner_scheme \<Rightarrow> int" where "Runner_Dropped r = dropped r"

definition engine_stats :: "'u proc runner_stats" where
  "engine_stats =
     \<lparr>Skipped = (\<lambda>p. case prEngine p of NotRun r \<Rightarrow> Runner_Skipped r | InRun s \<Rightarrow> Runner_Skipped s),
      Dropped = (\<lambda>p. case prEngine p of NotRun r \<Rightarrow> Runner_Dropped r | InRun s \<Rightarrow> Runner_Dropped s)\<rparr>"

text \<open>\<open>metrics.New\<close> with \<open>failures.Load\<close>, then \<open>SetRunner\<close> and \<open>SetTargetCount\<close>.\<close>

definition wired_collector ::
    "(string \<Rightarrow> goerr option) \<Rightarrow> bool \<Rightarrow> nat \<Rightarrow> goerr + 'u proc collector" where
  "wired_collector register perTarget n =
     (case NewCollector register
         \<lparr>OptVersion = ''dev'', OptCommit = ''none'', DisablePerTarget = \<not> perTarget,
          ResultErrors = Some (\<lambda>p. dr_failures (prDrain p))\<rparr> of
        Inl err \<Rightarrow> Inl err
      | Inr c \<Rightarrow> Inr (SetTargetCount (int n) (SetRunner (Some engine_stats) c)))"

lemma wired_reads:
  assumes "wired_collector register perTarget n = Inr c"
  shows "scrape_skipped c p = double_of_int (Skipped engine_stats p)"
    "scrape_dropped c p = double_of_int (Dropped engine_stats p)"
    "scrape_result_errors c p = double_of_int (dr_failures (prDrain p))"
  using assms
  by (auto simp: wired_collector_def NewCollector_def SetRunner_def SetTargetCount_def emit_def Let_def
      scrape_skipped_def scrape_dropped_def scrape_result_errors_def split: sum.splits option.splits)

section \<open>A scrape\<close>

text \<open>The slots judged as skips: those reported and the one about to be.\<close>

definition skips_judged :: "pev list \<Rightarrow> 'u proc \<Rightarrow> nat" where
  "skips_judged evs p =
     all_skips (run_evs evs) + (case prEngine p of NotRun r \<Rightarrow> 0 | InRun s \<Rightarrow> in_skip (spc s))"

text \<open>The Results the drain has received and handled.\<close>

definition handled :: "pev list \<Rightarrow> 'u proc \<Rightarrow> result list" where
  "handled evs p =
     (let rs = recv_results (run_evs evs) in if prHand p = None then rs else butlast rs)"

lemma drain_handled:
  assumes "program pe k cfg r evs p"
  shows "dr_failures (prDrain p) = wrap64 (int (length (filter is_failure (handled evs p))))"
proof -
  obtain rs where rs: "prDrain p = drainResults (peListening pe) (peInterval pe) rs"
      "map snd rs @ (case prHand p of None \<Rightarrow> [] | Some res \<Rightarrow> [res]) = recv_results (run_evs evs)"
    using program_feed [OF assms] by (auto simp: drain_feed_def)
  have m: "handled evs p = map snd rs"
    unfolding handled_def Let_def using rs(2) [symmetric] by (simp split: option.splits)
  show ?thesis unfolding m rs(1) drainResults_counts by (simp add: filter_map)
qed

text \<open>
  C26: what a scrape sees. In every reachable state of the program, the collector as \<open>run\<close>
  wires it reports, modulo 64-bit wrap-around, the slots the scheduler has judged as skips, the Results it has
  dropped, and the failures among the Results that the drain has handled, each read from the live
  engine and the live drain.
\<close>

theorem program_scrape:
  assumes "program pe k cfg r evs p" "wired_collector register perTarget n = Inr c"
  shows "scrape_skipped c p = double_of_int (wrap64 (int (skips_judged evs p))) \<and>
    scrape_dropped c p = double_of_int (wrap64 (int (all_dropped (run_evs evs)))) \<and>
    scrape_result_errors c p = double_of_int (wrap64 (int (length (filter is_failure (handled evs p)))))"
proof -
  have "Skipped engine_stats p = wrap64 (int (skips_judged evs p)) \<and>
    Dropped engine_stats p = wrap64 (int (all_dropped (run_evs evs)))"
  proof (cases "prEngine p")
    case (NotRun r')
    then have "r' = r" "run_evs evs = []" using program_engine [OF assms(1)] by (auto simp: engine_inv_def)
    moreover have "New k (event_config cfg) (fst (buildTargets cfg)) (AcInterval cfg) (AcConcurrency cfg) [] = Some r"
      using assms(1) by (simp add: program_def)
    from New_fields(8,9) [OF this] have "skipped r = 0" "dropped r = 0" by simp_all
    ultimately show ?thesis using NotRun \<open>skipped r = 0\<close> \<open>dropped r = 0\<close>
      by (simp add: engine_stats_def Runner_Skipped_def Runner_Dropped_def skips_judged_def wrap64_def
          all_skips_def all_dropped_def n_ev_def)
  next
    case (InRun s)
    obtain ctx where "executes k (event_config cfg) (fst (buildTargets cfg)) (AcInterval cfg) (AcConcurrency cfg) [] ctx
        (run_evs evs) s"
      using program_executes [OF assms(1) InRun] by metis
    from counters(1,2) [OF this] show ?thesis using InRun
      by (simp add: engine_stats_def Runner_Skipped_def Runner_Dropped_def skips_judged_def)
  qed
  then show ?thesis using wired_reads [OF assms(2)] drain_handled [OF assms(1)] by simp
qed

theorem program_scrape_witness:
  "\<exists>p evs r c. session (go_up @ one_failure @ [ADrain (1011 * Second), ADrain (1011 * Second)]) = Some (p, evs) \<and>
    program demo_proc_env demo_sdk demo_config r evs p \<and> wired_collector (\<lambda>n. None) True 1 = Inr c \<and>
    scrape_result_errors c p = double_of_int 1"
proof -
  let ?as = "go_up @ one_failure @ [ADrain (1011 * Second), ADrain (1011 * Second)]"
  have "map_option (\<lambda>(p, evs). length (filter is_failure (handled evs p))) (session ?as) = Some 1" by code_simp
  from session_program [OF this] obtain r p evs where s: "session ?as = Some (p, evs)"
      "length (filter is_failure (handled evs p)) = 1" and pr: "program demo_proc_env demo_sdk demo_config r evs p"
    by (metis (no_types, lifting) case_prod_conv)
  have reg: "register_all (\<lambda>n. None) xs = None" for xs by (induction xs) simp_all
  obtain c :: "string proc collector" where c: "wired_collector (\<lambda>n. None) True 1 = Inr c"
    by (simp add: wired_collector_def NewCollector_def reg Let_def)
  have "wrap64 1 = 1" by (simp add: wrap64_def)
  with program_scrape [OF pr c] show ?thesis using s pr c by auto
qed

end
