(* ===== verification/RunnerLife.thy ===== *)
theory RunnerLife
  imports RunnerAcct Simulation
begin

text \<open>
  The life cycle of one target, as the diagram in runner.go's package comment draws it, and the
  proof that the runner refines it: seen from one entry, every interleaving of the scheduler, the
  workers, the canceller and the consumer is a run of this machine with the same events.
\<close>

section \<open>The life cycle\<close>

datatype life =
    Idle
  | Offered         \<comment> \<open>its slot waits for room in the pool\<close>
  | GivenUp         \<comment> \<open>the context ended that wait\<close>
  | Queued          \<comment> \<open>in the pool, not started\<close>
  | Running nat     \<comment> \<open>started, with the Publish calls so far\<close>
  | Owing result    \<comment> \<open>the run is over, its Result is not out yet\<close>
  | Finished bool   \<comment> \<open>the scheduler has not seen the ack; whether it ran\<close>

text \<open>A slot that comes due meanwhile: judged, then its Result is owed.\<close>

datatype skipping = NoSkip | Judged | SkipOwed result

fun has_started :: "life \<Rightarrow> bool" where
  "has_started (Running n) = True"
| "has_started (Owing r) = True"
| "has_started (Finished b) = b"
| "has_started l = False"

inductive life_step :: "target \<Rightarrow> nat \<Rightarrow> life \<times> skipping \<Rightarrow> ev list \<Rightarrow> life \<times> skipping \<Rightarrow> bool" for t i where
  due: "life_step t i (Idle, NoSkip) [EvSlot i now] (Offered, NoSkip)"
| enqueue: "life_step t i (Offered, NoSkip) [EvDispatch i] (Queued, NoSkip)"
| give_up: "life_step t i (Offered, NoSkip) [EvAbandon i] (GivenUp, NoSkip)"
| cancelled: "life_step t i (Queued, k) [EvCancelled i] (Finished False, k)"
| begin_run: "life_step t i (Queued, k) [EvStart i] (Running 0, k)"
| publish: "n < maxPublishAttempts \<Longrightarrow> life_step t i (Running n, k) [EvPublish i] (Running (Suc n), k)"
| end_run: "n = 0 \<longrightarrow> out \<noteq> None \<Longrightarrow>
    life_step t i (Running n, k) [EvDone i out] (Owing \<lparr>ResTarget = t, ResErr = out\<rparr>, k)"
| sent: "life_step t i (Owing r, k) [EvSent i r] (Finished True, k)"
| dropped: "life_step t i (Owing r, k) [EvDropped i r] (Finished True, k)"
| acked: "life_step t i (Finished b, NoSkip) [] (Idle, NoSkip)"
| due_again: "l \<notin> {Idle, Offered, GivenUp} \<Longrightarrow> life_step t i (l, NoSkip) [EvSlot i now] (l, Judged)"
| skip: "err = (if has_started l then ErrSkipped else ErrSkippedQueued) \<Longrightarrow>
    life_step t i (l, Judged) [EvSkip i err] (l, SkipOwed \<lparr>ResTarget = t, ResErr = Some err\<rparr>)"
| skip_sent: "life_step t i (l, SkipOwed r) [EvSent i r] (l, NoSkip)"
| skip_dropped: "life_step t i (l, SkipOwed r) [EvDropped i r] (l, NoSkip)"

section \<open>Where a target is\<close>

fun phase :: "bool \<Rightarrow> 'u wpc \<Rightarrow> life" where
  "phase st (WGot i) = Queued"
| "phase st (WStart i) = Queued"
| "phase st (WCheck i) = Running 0"
| "phase st (WEncode i obs) = Running 0"
| "phase st (WPublish i e a) = Running a"
| "phase st (WBackoff i e a err) = Running (a + 1)"
| "phase st (WReport i (RpSend r)) = Owing r"
| "phase st (WReport i (RpDrop r)) = Owing r"
| "phase st p = Finished st"

definition life_of :: "'u sys \<Rightarrow> nat \<Rightarrow> life" where
  "life_of s i =
     (if \<not> inflight s i then Idle
      else if offering (spc s) \<and> htop s = i then Offered
      else if i \<in> set (done_ch s) then Finished (started s i)
      else if i \<in> set (work s) then Queued
      else case find (\<lambda>p. i \<in> set (held p)) (workers s) of
             Some p \<Rightarrow> phase (started s i) p
           | None \<Rightarrow> GivenUp)"

fun skip_at :: "spc \<Rightarrow> skipping" where
  "skip_at (SSkip now) = Judged"
| "skip_at (SReport now (RpSend r)) = SkipOwed r"
| "skip_at (SReport now (RpDrop r)) = SkipOwed r"
| "skip_at pc = NoSkip"

definition skip_of :: "'u sys \<Rightarrow> nat \<Rightarrow> skipping" where
  "skip_of s i = (if htop s = i then skip_at (spc s) else NoSkip)"

fun about :: "nat \<Rightarrow> ev \<Rightarrow> bool" where
  "about i (EvSlot j now) = (i = j)"
| "about i (EvSkip j err) = (i = j)"
| "about i (EvDispatch j) = (i = j)"
| "about i (EvAbandon j) = (i = j)"
| "about i (EvCancelled j) = (i = j)"
| "about i (EvStart j) = (i = j)"
| "about i (EvPublish j) = (i = j)"
| "about i (EvDone j out) = (i = j)"
| "about i (EvSent j r) = (i = j)"
| "about i (EvDropped j r) = (i = j)"
| "about i (EvWarn n) = False"
| "about i (EvRecv r) = False"

text \<open>The token is in one place, so the first place found is the only one.\<close>

lemma find_unique:
  assumes "w < length xs" "P (xs ! w)" "\<And>v. v < length xs \<Longrightarrow> P (xs ! v) \<Longrightarrow> v = w"
  shows "find P xs = Some (xs ! w)"
  using assms unfolding find_Some_iff by (metis less_trans nat_neq_iff)

lemma find_update_other:
  "\<not> P (xs ! w) \<Longrightarrow> \<not> P x \<Longrightarrow> find P (xs[w := x]) = find P xs"
proof (induction xs arbitrary: w)
  case (Cons y ys)
  then show ?case by (cases w) auto
qed simp

lemma in_count: "i \<in> set xs \<longleftrightarrow> 0 < count_list xs i"
  by (metis count_list_0_iff gr0I less_irrefl)

lemma life_done:
  assumes "token_inv s" "i \<in> set (done_ch s)"
  shows "life_of s i = Finished (started s i)" "inflight s i" "i \<notin> set (work s)"
    "\<not> (offering (spc s) \<and> htop s = i)"
proof -
  have "tok s i \<le> 1" "tok s i \<noteq> 0 \<Longrightarrow> inflight s i" using token_invD [OF assms(1)] by blast+
  then show a: "inflight s i" "i \<notin> set (work s)" "\<not> (offering (spc s) \<and> htop s = i)"
    using assms(2) by (auto simp: tok_def in_count split: if_splits)
  show "life_of s i = Finished (started s i)" using a assms(2) by (auto simp: life_of_def)
qed

lemma life_work:
  assumes "token_inv s" "i \<in> set (work s)"
  shows "life_of s i = Queued" "inflight s i"
proof -
  have "tok s i \<le> 1" "tok s i \<noteq> 0 \<Longrightarrow> inflight s i" using token_invD [OF assms(1)] by blast+
  then have a: "inflight s i" "i \<notin> set (done_ch s)" "\<not> (offering (spc s) \<and> htop s = i)"
    using assms(2) by (auto simp: tok_def in_count split: if_splits)
  then show "life_of s i = Queued" "inflight s i" using assms(2) by (auto simp: life_of_def)
qed

lemma life_held:
  assumes "token_inv s" "w < length (workers s)" "i \<in> set (held (workers s ! w))"
  shows "life_of s i = phase (started s i) (workers s ! w)" "inflight s i"
    "i \<notin> set (done_ch s)" "i \<notin> set (work s)"
proof -
  have t: "tok s i \<le> 1" "tok s i \<noteq> 0 \<Longrightarrow> inflight s i" using token_invD [OF assms(1)] by blast+
  have h: "0 < count_list (held (workers s ! w)) i" using assms(3) by (simp add: in_count)
  then have "0 < held_by (workers s) i" using held_by_pos [OF assms(2), of i] by simp
  then show a: "inflight s i" "i \<notin> set (done_ch s)" "i \<notin> set (work s)"
    using t by (auto simp: tok_def in_count split: if_splits)
  have o: "\<not> (offering (spc s) \<and> htop s = i)" using t(1) \<open>0 < held_by (workers s) i\<close> by (auto simp: tok_def)
  have u: "v = w" if "v < length (workers s)" "i \<in> set (held (workers s ! v))" for v
  proof (rule ccontr)
    assume "v \<noteq> w"
    then have "2 \<le> held_by (workers s) i"
      using held_by_two [OF that(1) assms(2), of i] h that(2) by (simp add: in_count)
    then show False using t(1) by (simp add: tok_def)
  qed
  have "find (\<lambda>p. i \<in> set (held p)) (workers s) = Some (workers s ! w)"
    by (rule find_unique [OF assms(2)]) (fact assms(3), erule (1) u)
  then show "life_of s i = phase (started s i) (workers s ! w)" using a o by (auto simp: life_of_def)
qed

section \<open>The workers\<close>

lemma life_of_cong:
  assumes "inflight s' i = inflight s i" "started s' i = started s i"
    "(offering (spc s') \<and> htop s' = i) = (offering (spc s) \<and> htop s = i)"
    "(i \<in> set (done_ch s')) = (i \<in> set (done_ch s))" "(i \<in> set (work s')) = (i \<in> set (work s))"
    "find (\<lambda>p. i \<in> set (held p)) (workers s') = find (\<lambda>p. i \<in> set (held p)) (workers s)"
  shows "life_of s' i = life_of s i"
  unfolding life_of_def assms ..

lemma report_about:
  assumes "report_step j rp inp s = Some (rp', t, evs)"
  shows "i \<noteq> j \<Longrightarrow> filter (about i) evs = []"
  using assms
  by (cases "(j, rp, inp, s)" rule: report_step.cases) (auto simp: Let_def split: if_splits)

text \<open>What a worker does with one entry is nothing to any other.\<close>

lemma worker_other:
  assumes "w < length (workers s)" "worker_step k w inp s = Some (s', evs)"
    "i \<notin> set (held (workers s ! w))" "i \<notin> set (held (workers s' ! w))"
  shows "life_of s' i = life_of s i \<and> filter (about i) evs = []"
proof -
  have "workers s' = (workers s)[w := workers s' ! w] \<and> started s' i = started s i \<and>
      (i \<in> set (done_ch s')) = (i \<in> set (done_ch s)) \<and> (i \<in> set (work s')) = (i \<in> set (work s)) \<and>
      filter (about i) evs = []"
    using assms(2)
  proof (cases rule: worker_step_cases)
    case (report j rp rp' t)
    have "filter (about i) evs = []" using report_about [OF report(2)] assms(3) report(1) by simp
    then show ?thesis using report report_step_frame [OF report(2)] assms(1) by simp
  qed (use assms(1,3,4) in \<open>auto simp: worker_defs nth_list_update
        split: list.splits if_splits option.splits sum.splits choice.splits prod.splits\<close>)
  moreover from this have "find (\<lambda>p. i \<in> set (held p)) (workers s') = find (\<lambda>p. i \<in> set (held p)) (workers s)"
    using find_update_other [of "\<lambda>p. i \<in> set (held p)" "workers s" w "workers s' ! w"] assms(3,4) by metis
  ultimately show ?thesis
    using inflight_worker [OF assms(2), of i] worker_frame(1,2) [OF assms(2)]
    by (intro conjI life_of_cong) (simp_all add: htop_def)
qed

text \<open>The life says whether the target has started.\<close>

lemma life_places:
  assumes "life_of s i \<notin> {Idle, Offered, GivenUp}"
  obtains (acked) "i \<in> set (done_ch s)" | (queued) "i \<in> set (work s)"
  | (held) w where "w < length (workers s)" "i \<in> set (held (workers s ! w))"
  using assms
  by (auto simp: life_of_def find_None_iff find_Some_iff split: if_splits option.splits)

lemma life_started:
  assumes tk: "token_inv s" and st: "started_inv s" and len: "i < length (entries s)"
    and l: "life_of s i \<notin> {Idle, Offered, GivenUp}"
  shows "has_started (life_of s i) = started s i"
proof -
  have no: "\<not> started s i" if "life_of s i = Queued"
  proof
    assume a: "started s i"
    have "i \<notin> set (done_ch s)" using life_done(1) [OF tk] that by auto
    then obtain w where w: "w < length (workers s)" "begun (workers s ! w) = Some i"
      using started_invD(2) [OF st len a] by (auto simp: in_set_conv_nth)
    have "phase (started s i) (workers s ! w) = Queued"
      using life_held(1) [OF tk w(1) begun_held [OF w(2)]] that by simp
    then show False using w(2) by (cases "(started s i, workers s ! w)" rule: phase.cases) simp_all
  qed
  from l show ?thesis
  proof (cases rule: life_places)
    case (held w)
    note h = life_held(1) [OF tk held]
    have yes: "started s i" if "in_run (workers s ! w) i"
      using started_invD(1) [OF st _ len that] held(1) by simp
    show ?thesis using h no yes held(2)
      by (cases "(started s i, workers s ! w)" rule: phase.cases) (auto simp: in_run_def)
  qed (use life_done(1) [OF tk] life_work(1) [OF tk] no in auto)
qed

lemmas life_refl = trace_refl [of "life_step t i" for t i]
lemmas life_one = trace_one [of "life_step t i" for t i]

lemmas life_moves = life_step.intros [THEN life_one]

definition life_inv :: "target list \<Rightarrow> 'u sys \<Rightarrow> bool" where
  "life_inv ts s \<longleftrightarrow> runner_inv ts s \<and> attempts_ok s"

text \<open>A report sends the Result, drops it, or is past both.\<close>

lemma report_life:
  assumes "report_step j rp inp s = Some (rp', t, evs)" "\<not> results_closed s"
  obtains (sent) r where "rp = RpSend r" "evs = [EvSent j r]" "rp' = None"
  | (full) r where "rp = RpSend r" "evs = []" "rp' = Some (RpDrop r)"
  | (dropped) r where "rp = RpDrop r" "evs = [EvDropped j r]" "rp' = Some (RpClock r)"
  | (late) "\<nexists>r. rp = RpSend r" "\<nexists>r. rp = RpDrop r" "filter (about i) evs = []"
      "\<nexists>r. rp' = Some (RpSend r)" "\<nexists>r. rp' = Some (RpDrop r)"
  using assms
  by (cases "(j, rp, inp, s)" rule: report_step.cases) (auto simp: Let_def split: if_splits)

lemma life_worker:
  assumes inv: "life_inv ts s" and inv': "token_inv s'" and w: "w < length (workers s)"
    and i: "i < length (entries s)" and step: "worker_step k w inp s = Some (s', evs)"
  shows "trace (life_step (ent_t (entries s ! i)) i) (life_of s i, q) (filter (about i) evs) (life_of s' i, q)"
proof (cases "i \<in> set (held (workers s ! w)) \<or> i \<in> set (held (workers s' ! w))")
  case False
  then show ?thesis using worker_other [OF w step, of i] by (auto intro: life_refl)
next
  case True
  note invs = runner_invD [OF conjunct1 [OF inv [unfolded life_inv_def]]]
  have w': "w < length (workers s')" using w worker_frame(11) [OF step] by simp
  note old = life_held(1) [OF invs(4) w, of i] and new = life_held(1) [OF inv' w', of i]
  show ?thesis
    using step
  proof (cases rule: worker_step_cases)
    case recv
    then have "i \<in> set (work s)" "i \<in> set (held (workers s' ! w))" "workers s' ! w = WGot i" "evs = []"
      using True w by (auto simp: recv_work_def split: list.splits if_splits)
    then show ?thesis using life_work(1) [OF invs(4)] new by (auto intro: life_refl)
  next
    case (ctx j)
    then have j: "j = i" using True w by (auto simp: check_ctx_def split: if_splits)
    have l: "life_of s i = Queued" using old ctx(1) j by simp
    then have "\<not> started s i" using life_started [OF invs(4,5) i] by simp
    then show ?thesis using ctx(2) l new w j
      by (auto simp: check_ctx_def intro!: life_refl life_moves split: if_splits)
  next
    case (start j)
    then have j: "j = i" using True w by (auto simp: start_run_def)
    show ?thesis using start old new w j
      by (auto simp: start_run_def intro!: life_moves)
  next
    case (check j out)
    then have j: "j = i" using True w by (auto simp: check_returns_def report_run_def split: sum.splits)
    show ?thesis using check old new w j
      by (auto simp: check_returns_def report_run_def intro!: life_refl life_moves split: sum.splits)
  next
    case (encode j obs uid)
    then have j: "j = i" using True w
      by (auto simp: encode_obs_def report_run_def split: prod.splits option.splits)
    show ?thesis using encode old new w j
      by (auto simp: encode_obs_def report_run_def intro!: life_refl life_moves
          split: prod.splits option.splits)
  next
    case (publish j e a out)
    then have j: "j = i" using True w
      by (auto simp: publish_returns_def report_run_def split: option.splits if_splits)
    have "workers s ! w \<in> set (workers s)" using w by simp
    then have a: "a < maxPublishAttempts" using inv publish(1)
      by (auto simp: life_inv_def attempts_ok_def list_all_iff)
    have two: "trace (life_step t i) (Running a, q) [EvPublish i, EvDone i out]
        (Owing \<lparr>ResTarget = t, ResErr = out\<rparr>, q)" for t out
      using trace_append [OF life_one [OF life_step.publish [OF a]] life_one [OF life_step.end_run]] by simp
    show ?thesis using publish old new w j a two
      by (auto simp: publish_returns_def report_run_def intro!: life_moves
          split: option.splits if_splits)
  next
    case (backoff j e a err c)
    then have j: "j = i" using True w
      by (auto simp: backoff_def report_run_def split: choice.splits if_splits)
    show ?thesis using backoff old new w j
      by (auto simp: backoff_def report_run_def intro!: life_refl life_moves
          split: choice.splits if_splits)
  next
    case (report j rp rp' t)
    note f = report_step_frame [OF report(2)]
    have j: "j = i" using True w report(1,3) f(4) by (auto split: option.splits)
    have len: "length (entries s') = length (entries s)" by (simp add: report(3) f)
    have "WReport i rp \<in> set (workers s)" using w report(1) j by (metis nth_mem)
    then have st: "started s i" "started s' i"
      using started_invD(1) [OF invs(5) _ i, of "WReport i rp"] report(3) f(1) by (simp_all add: in_run_def)
    have "\<not> all_exited s" using all_exited_worker [OF _ w] report(1) by auto
    then have "\<not> results_closed s" using invs(2) by (auto simp: chan_inv_def)
    from report(2) this show ?thesis
    proof (cases rule: report_life [where i = i])
      case late
      have "phase True (workers s ! w) = Finished True"
        using late(1,2) by (cases rp) (simp_all add: report(1))
      moreover have "phase True (workers s' ! w) = Finished True"
        using late(4,5) f(4) w report(3) by (cases rp'; cases "the rp'"; simp)
      moreover have "i \<in> set (held (workers s ! w))" "i \<in> set (held (workers s' ! w))"
        using report(1,3) f(4) w j by (auto split: option.splits)
      ultimately show ?thesis using late(3) old new st by (simp add: life_refl)
    qed (use old new report(1,3) f(4) j w st in
      \<open>auto intro!: life_refl life_moves\<close>)
  next
    case (ack j)
    then have j: "j = i" using True w by (auto simp: send_ack_def split: if_splits)
    then have "i \<in> set (done_ch s')" "started s' i = started s i" "evs = []"
      using ack by (auto simp: send_ack_def split: if_splits)
    then show ?thesis using old ack(1) j life_done(1) [OF inv'] by (auto intro: life_refl)
  qed
qed

section \<open>The scheduler\<close>

lemma phase_placed: "phase b p \<notin> {Idle, Offered, GivenUp}"
  by (cases "(b, p)" rule: phase.cases) simp_all

lemma life_placed:
  assumes tk: "token_inv s" and sc: "scheduling (spc s)" and fl: "inflight s i"
    and no: "\<not> (offering (spc s) \<and> htop s = i)"
  shows "life_of s i \<notin> {Idle, Offered, GivenUp}"
proof -
  have "tok s i = 1" using token_invD(3) [OF tk sc fl] .
  then have "i \<in> set (work s) \<or> i \<in> set (done_ch s) \<or> held_by (workers s) i \<noteq> 0"
    using no by (auto simp: tok_def in_count)
  then consider (d) "i \<in> set (done_ch s)" | (q) "i \<in> set (work s)"
    | (h) w where "w < length (workers s)" "i \<in> set (held (workers s ! w))"
    using held_by_nonzero [of "workers s" i] by (metis in_set_conv_nth)
  then show ?thesis
    by cases (simp_all add: life_done(1) [OF tk] life_work(1) [OF tk] life_held(1) [OF tk] phase_placed [simplified])
qed

abbreviation life_trace :: "'u sys \<Rightarrow> nat \<Rightarrow> ev list \<Rightarrow> 'u sys \<Rightarrow> bool" where
  "life_trace s i evs s' \<equiv> trace (life_step (ent_t (entries s ! i)) i) (life_of s i, skip_of s i)
     (filter (about i) evs) (life_of s' i, skip_of s' i)"

lemma life_same:
  assumes "workers s' = workers s" "done_ch s' = done_ch s" "work s' = work s"
    "inflight s' i = inflight s i" "started s' i = started s i" "\<not> offering (spc s)" "\<not> offering (spc s')"
  shows "life_of s' i = life_of s i"
  using assms by (intro life_of_cong) simp_all

text \<open>A transition that is silent for the entry and moves it nowhere.\<close>

lemma life_still:
  assumes "workers s' = workers s" "done_ch s' = done_ch s" "work s' = work s"
    "inflight s' i = inflight s i" "started s' i = started s i" "\<not> offering (spc s)" "\<not> offering (spc s')"
    "skip_of s' i = skip_of s i" "filter (about i) evs = []"
  shows "life_trace s i evs s'"
  using life_same [OF assms(1-7)] assms(8,9) by (simp add: life_refl)

lemma life_finish:
  assumes tk: "token_inv s" and d: "done_ch s = j # q" and s': "s' = finish j (s\<lparr>done_ch := q, spc := SDrain\<rparr>)"
    and pc: "\<not> offering (spc s)" "skip_at (spc s) = NoSkip"
  shows "life_trace s i [] s'"
proof -
  have j: "life_of s j = Finished (started s j)" "inflight s j" using life_done [OF tk, of j] d by simp_all
  show ?thesis
  proof (cases "i = j")
    case True
    have "\<not> inflight s' j" using j(2) by (simp add: s' inflight_def)
    then have "life_of s' j = Idle" by (simp add: life_of_def)
    then show ?thesis using True j(1) pc life_one [OF life_step.acked]
      by (simp add: skip_of_def s' htop_def)
  next
    case False
    then have "life_of s' i = life_of s i" using pc d
      by (intro life_of_cong) (auto simp: s' inflight_def nth_list_update)
    then show ?thesis using pc by (simp add: skip_of_def s' htop_def life_refl)
  qed
qed

lemma life_peek:
  assumes tk: "token_inv s" and pc: "spc s = SPeek" and top: "htop s < length (entries s)"
    and step: "peek_step now s = (s', evs)" and i: "i < length (entries s)"
  shows "life_trace s i evs s'"
proof -
  let ?e = "entries s ! htop s"
  consider (calm) "s' = (reanchor now s)\<lparr>spc := SDrain\<rparr> \<or> s' = s\<lparr>spc := SWait\<rparr>" "evs = []"
    | (skip) "ent_inflight ?e" "s' = s\<lparr>skipped := wrap64 (skipped s + 1), spc := SSkip now\<rparr>" "evs = [EvSlot (htop s) now]"
    | (offer) "\<not> ent_inflight ?e" "evs = [EvSlot (htop s) now]"
      "s' = upd_entry (htop s) (\<lambda>e. e\<lparr>ent_inflight := True\<rparr>) (s\<lparr>spc := SDispatch now\<rparr>)"
    using step by (auto simp: peek_step_def Let_def split: if_splits)
  then show ?thesis
  proof cases
    case calm
    have "skip_of s' i = skip_of s i" using calm(1) pc by (auto simp: skip_of_def)
    then show ?thesis using calm pc i by (intro life_still) (auto simp: inflight_def split: if_splits)
  next
    case skip
    have l: "life_of s' i = life_of s i" using skip pc by (intro life_same) (simp_all add: inflight_def)
    show ?thesis
    proof (cases "htop s = i")
      case True
      then have "inflight s i" using skip(1) i by (simp add: inflight_def)
      then have "life_of s i \<notin> {Idle, Offered, GivenUp}" using life_placed [OF tk] pc by simp
      from life_one [OF life_step.due_again [OF this]] show ?thesis
        using l skip pc True by (simp add: skip_of_def htop_def)
    qed (use l skip pc in \<open>simp add: skip_of_def htop_def life_refl\<close>)
  next
    case offer
    show ?thesis
    proof (cases "htop s = i")
      case True
      then have "life_of s i = Idle" "life_of s' i = Offered"
        using offer i by (simp_all add: life_of_def inflight_def htop_def)
      then show ?thesis using offer(2,3) pc True life_one [OF life_step.due]
        by (simp add: skip_of_def htop_def)
    next
      case False
      then have "life_of s' i = life_of s i" using offer pc
        by (intro life_of_cong) (simp_all add: inflight_def htop_def nth_list_update)
      then show ?thesis using False offer pc by (simp add: skip_of_def htop_def life_refl)
    qed
  qed
qed

lemma life_dispatch:
  assumes tk: "token_inv s" and pc: "spc s = SDispatch now" and top: "htop s < length (entries s)"
    and step: "dispatch_step c now s = Some (s', evs)" and tk': "token_inv s'"
    and nc: "\<not> work_closed s" and i: "i < length (entries s)"
  shows "life_trace s i evs s'"
proof -
  consider (ctx) err where "s' = s\<lparr>spc := SReturned err\<rparr>" "evs = [EvAbandon (htop s)]"
    | (send) "s' = s\<lparr>work := work s @ [htop s], spc := SAdvance now\<rparr>" "evs = [EvDispatch (htop s)]"
    using step nc by (auto simp: dispatch_step_def split: choice.splits if_splits)
  note way = this
  have "skip_at (spc s') = NoSkip" by (rule way) simp_all
  then have skip: "skip_of s i = NoSkip" "skip_of s' i = NoSkip" using pc by (simp_all add: skip_of_def)
  show ?thesis
  proof (cases "htop s = i")
    case True
    have t: "tok s i \<le> 1" "tok s i \<noteq> 0 \<Longrightarrow> inflight s i" using token_invD [OF tk] by blast+
    then have fl: "inflight s i" using pc True by (simp add: tok_def)
    then have l: "life_of s i = Offered" using pc True by (simp add: life_of_def)
    from way show ?thesis
    proof cases
      case (ctx err)
      have "i \<notin> set (work s)" "i \<notin> set (done_ch s)" "held_by (workers s) i = 0"
        using t(1) pc True by (auto simp: tok_def in_count)
      moreover from this(3) have "\<forall>p \<in> set (workers s). i \<notin> set (held p)"
        using held_by_pos [of _ "workers s" i] by (metis in_count in_set_conv_nth le_zero_eq less_irrefl)
      ultimately have "life_of s' i = GivenUp" using fl ctx(1)
        by (simp add: life_of_def inflight_def find_None_iff [THEN iffD2] htop_def)
      then show ?thesis using ctx(2) True l skip life_one [OF life_step.give_up] by simp
    next
      case send
      then have "i \<in> set (work s')" using True by simp
      then have "life_of s' i = Queued" using life_work(1) [OF tk'] by simp
      then show ?thesis using send(2) True l skip life_one [OF life_step.enqueue] by simp
    qed
  next
    case False
    from way show ?thesis
    proof cases
      case (ctx err)
      then have "life_of s' i = life_of s i" using False
        by (intro life_of_cong) (simp_all add: inflight_def htop_def)
      then show ?thesis using ctx(2) False skip by (simp add: life_refl)
    next
      case send
      then have "life_of s' i = life_of s i" using False
        by (intro life_of_cong) (simp_all add: inflight_def htop_def)
      then show ?thesis using send(2) False skip by (simp add: life_refl)
    qed
  qed
qed

lemma life_sched:
  assumes inv: "life_inv ts s" and tk': "token_inv s'" and i: "i < length (entries s)"
    and step: "sched_step inp s = Some (s', evs)"
  shows "life_trace s i evs s'"
proof -
  note invs = runner_invD [OF conjunct1 [OF inv [unfolded life_inv_def]]]
  note tk = invs(4)
  have top: "htop s < length (entries s)" if "lapping (spc s)"
    using top_valid(1) [OF invs(3) that] .
  show ?thesis
    using step
  proof (cases rule: sched_step_cases)
    case (init now)
    have e: "inflight (init_step now s) i = inflight s i" "started (init_step now s) i = started s i"
      using i by (auto simp: init_step_def Let_def inflight_def)
    show ?thesis using init e
      by (intro life_still) (auto simp: init_step_def Let_def skip_of_def)
  next
    case drain
    show ?thesis
    proof (cases "done_ch s")
      case Nil
      then show ?thesis using drain
        by (intro life_still) (auto simp: drain_step_def inflight_def skip_of_def htop_def)
    next
      case (Cons j q)
      have "s\<lparr>done_ch := q\<rparr> = s\<lparr>done_ch := q, spc := SDrain\<rparr>" using drain(1) by simp
      then have "s' = finish j (s\<lparr>done_ch := q, spc := SDrain\<rparr>)"
        using drain(2) Cons by (simp add: drain_step_def)
      then show ?thesis using life_finish [OF tk Cons] drain by simp
    qed
  next
    case (peek now)
    show ?thesis using life_peek [OF tk peek(1) top peek(2) i] peek(1) by simp
  next
    case (wait c)
    show ?thesis
    proof (cases c)
      case OnChannel
      then obtain j q where "done_ch s = j # q" "s' = finish j (s\<lparr>done_ch := q, spc := SDrain\<rparr>)"
        using wait(2) by (auto simp: wait_step_def split: list.splits)
      then show ?thesis using life_finish [OF tk] wait(1,3) by simp
    qed (use wait in \<open>intro life_still; auto simp: wait_step_def inflight_def skip_of_def htop_def\<close>)+
  next
    case (skip now)
    let ?err = "if started s (htop s) then ErrSkipped else ErrSkippedQueued"
    have s': "s' = s\<lparr>spc := SReport now (RpSend \<lparr>ResTarget = ent_t (entries s ! htop s), ResErr = Some ?err\<rparr>)\<rparr>"
      "evs = [EvSkip (htop s) ?err]"
      using skip(2) by (auto simp: skip_step_def Let_def)
    have l: "life_of s' i = life_of s i" using skip(1) s' by (intro life_same) (simp_all add: inflight_def)
    show ?thesis
    proof (cases "htop s = i")
      case True
      then have "inflight s i" using started_invD(4) [OF invs(5) skip(1)] by simp
      then have "life_of s i \<notin> {Idle, Offered, GivenUp}" using life_placed [OF tk] skip(1) by simp
      then have "?err = (if has_started (life_of s i) then ErrSkipped else ErrSkippedQueued)"
        using life_started [OF tk invs(5) i] True by simp
      from life_one [OF life_step.skip [OF this]] show ?thesis
        using l s' skip(1) True by (simp add: skip_of_def htop_def)
    qed (use l s' skip(1) in \<open>simp add: skip_of_def htop_def life_refl\<close>)
  next
    case (report now rp rp' t)
    note f = report_step_frame [OF report(2)]
    have l: "life_of s' i = life_of s i" using report f
      by (intro life_same) (auto simp: inflight_def split: option.splits)
    have h: "htop s' = htop s" using report(3) f(2) by (simp add: htop_def)
    have "\<not> results_closed s" using invs(2) report(1) by (auto simp: chan_inv_def)
    with report(2) show ?thesis
    proof (cases rule: report_life [where i = i])
      case late
      have "skip_at (spc s) = NoSkip" using late(1,2) by (cases rp) (simp_all add: report(1))
      moreover have "skip_at (spc s') = NoSkip"
        using late(4,5) report(3) by (cases rp'; cases "the rp'"; simp)
      ultimately show ?thesis using l h late(3) by (simp add: skip_of_def life_refl)
    qed (use l h report(1,3) in \<open>cases "htop s = i";
        auto simp: skip_of_def intro!: life_refl life_step.skip_sent [THEN life_one] life_step.skip_dropped [THEN life_one]\<close>)+
  next
    case (dispatch c now)
    have "\<not> work_closed s" using invs(2) dispatch(1) by (auto simp: chan_inv_def)
    then show ?thesis using life_dispatch [OF tk dispatch(1) top dispatch(2) tk' _ i] dispatch(1) by simp
  next
    case (advance now)
    have "inflight s' i = inflight s i" "started s' i = started s i"
      using advance(2) i top advance(1) by (auto simp: advance_step_def Let_def inflight_def nth_list_update)
    then show ?thesis using advance
      by (intro life_still) (auto simp: advance_step_def Let_def skip_of_def)
  next
    case (graced c err)
    then show ?thesis
      by (intro life_still) (auto simp: grace_step_def close_results_def inflight_def skip_of_def htop_def
          split: choice.splits if_splits)
  qed (intro life_still; simp add: close_work_def close_results_def inflight_def skip_of_def htop_def)+
qed

section \<open>The refinement\<close>

lemma life_env:
  "life_of (s\<lparr>ctx_err := c\<rparr>) i = life_of s i" "life_of (s\<lparr>results := rs\<rparr>) i = life_of s i"
  "skip_of (s\<lparr>ctx_err := c\<rparr>) i = skip_of s i" "skip_of (s\<lparr>results := rs\<rparr>) i = skip_of s i"
  by (rule life_of_cong; simp add: inflight_def htop_def)+ (simp_all add: skip_of_def htop_def)

lemma life_inv_step: "step k s evs s' \<Longrightarrow> life_inv ts s \<Longrightarrow> life_inv ts s'"
  using runner_inv_step attempts_ok_step unfolding life_inv_def by blast

lemma life_simulates:
  assumes "step k s evs s'" "life_inv ts s" "i < length ts"
  shows "trace (life_step (ts ! i) i) (life_of s i, skip_of s i) (filter (about i) evs) (life_of s' i, skip_of s' i)"
proof -
  have "shape ts s" and tk: "token_inv s'"
    using assms(2) life_inv_step [OF assms(1,2)] by (simp_all add: life_inv_def runner_inv_def)
  then have i: "i < length (entries s)" and t: "ent_t (entries s ! i) = ts ! i"
    using assms(3) by (auto simp: shape_def)
  from assms(1) show ?thesis
  proof cases
    case (sched inp)
    then show ?thesis using life_sched [OF assms(2) tk i] t by simp
  next
    case (worker w inp)
    have "skip_of s' i = skip_of s i" using worker_frame(1,2) [OF worker(3)] by (simp add: skip_of_def htop_def)
    then show ?thesis using life_worker [OF assms(2) tk worker(2) i worker(3)] t by simp
  qed (simp_all add: life_env life_refl)
qed

interpretation life: simulation "step k" "\<lambda>s. life_inv ts s \<and> i < length ts" "life_step (ts ! i) i"
    "\<lambda>s. (life_of s i, skip_of s i)" "filter (about i)" for k ts i
  using life_inv_step life_simulates by unfold_locales auto

lemma exec_trace: "exec k s evs s' \<Longrightarrow> trace (step k) s evs s'"
  by (induction rule: exec.induct) (auto intro: trace_refl trace_step)

lemma launch_life:
  assumes "runner_inv ts (launch r ctx)"
  shows "(life_of (launch r ctx) i, skip_of (launch r ctx) i) = (Idle, NoSkip)"
proof -
  have "tok (launch r ctx) i = 0" by (simp add: tok_def launch_def runner.defs held_by_zero)
  moreover have "inflight (launch r ctx) i \<Longrightarrow> tok (launch r ctx) i = 1"
    using token_invD(3) [OF runner_invD(4) [OF assms]] by simp
  ultimately have "\<not> inflight (launch r ctx) i" by auto
  then show ?thesis by (simp add: life_of_def skip_of_def)
qed

text \<open>
  C4: the runner refines the life cycle of each target. Seen from one entry, the events of any
  interleaving are a run of the machine of the package comment's diagram: a slot of an idle
  target is offered to the pool and queued, or given up for the context; a queued target is
  started, or acked without a run; a started one publishes at most three times, ends with one
  outcome, puts out exactly that outcome as one Result, sent or dropped, and is idle again once the
  scheduler has seen the ack. A slot that comes due in between is a skip, whose Result is
  ErrSkipped exactly when the run has started and ErrSkippedQueued otherwise. The state of the
  channels, the workers and the flags always stands for the machine's state.
\<close>

theorem runner_refines_life_cycle:
  assumes "executes k cfg ts iv0 conc opts ctx evs s" "i < length ts"
  shows "trace (life_step (ts ! i) i) (Idle, NoSkip) (filter (about i) evs) (life_of s i, skip_of s i)"
proof -
  obtain r where r: "exec k (launch r ctx) evs s" "runner_inv ts (launch r ctx)"
    using executes_start [OF assms(1)] by metis
  have "life_inv ts (launch r ctx) \<and> i < length ts"
    using r(2) fresh_zero(4) assms(2) by (auto simp: life_inv_def)
  from life.trace_inclusion [OF exec_trace [OF r(1)] this] show ?thesis
    by (simp add: launch_life [OF r(2)])
qed

definition skip_then_run :: "action list" where
  "skip_then_run = dispatch_one @ [Sched NoInput, Sched (Clock 1017), Sched NoInput, Sched NoInput, Sched NoInput] @ run_one"

theorem runner_refines_life_cycle_witness:
  "\<exists>s evs. demo [demo_target 0] 10 1 None skip_then_run = Some (s, evs) \<and>
    length (filter (about 0) evs) = 9 \<and> n_skips 0 evs = 1 \<and> has_started (life_of s 0) \<and>
    trace (life_step (demo_target 0) 0) (Idle, NoSkip) (filter (about 0) evs) (life_of s 0, skip_of s 0)"
proof -
  have "map_option (\<lambda>(s, evs). (length (filter (about 0) evs), n_skips 0 evs, has_started (life_of s 0)))
      (demo [demo_target 0] 10 1 None skip_then_run) = Some (9, 1, True)" by code_simp
  then obtain s evs where d: "demo [demo_target 0] 10 1 None skip_then_run = Some (s, evs)"
    and c: "length (filter (about 0) evs) = 9" "n_skips 0 evs = 1" "has_started (life_of s 0)"
    by (auto elim: demo_result)
  have "executes demo_sdk \<lparr>CfgSource = ''descry'', CfgType = []\<rparr> [demo_target 0] 10 1 [] None evs s"
    using d by (rule demo_executes) (simp_all add: max64_def demo_target_def)
  from runner_refines_life_cycle [OF this, of 0] show ?thesis using c d by simp
qed

end
