(* ===== verification/RunnerTime.thy ===== *)
theory RunnerTime
  imports RunnerAcct
begin

text \<open>
  The runner and the clock: every entry stays on its epoch-aligned grid, a lap moves exactly the
  served entry to the next slot, a backward clock step is repaired within one interval, and the
  spacing of the drop warnings.
\<close>

section \<open>Warnings\<close>

text \<open>The condition under which a reporter tries to swap the stamp.\<close>

definition may_warn :: "duration \<Rightarrow> int \<Rightarrow> int \<Rightarrow> bool" where
  "may_warn iv now prev \<longleftrightarrow> prev = 0 \<or> iv \<le> wrap64 (now - prev) \<or> now < prev"

fun cas_ok :: "duration \<Rightarrow> rpc \<Rightarrow> bool" where
  "cas_ok iv (RpCas res now prev) = may_warn iv now prev"
| "cas_ok iv rp = True"

definition warn_inv :: "'u sys \<Rightarrow> bool" where
  "warn_inv s \<longleftrightarrow>
     (\<forall>now rp. spc s = SReport now rp \<longrightarrow> cas_ok (interval s) rp) \<and>
     (\<forall>i rp. WReport i rp \<in> set (workers s) \<longrightarrow> cas_ok (interval s) rp)"

lemma report_cas_ok:
  assumes "report_step i rp inp s = Some (rp', t, evs)"
  shows "rp' = Some rq \<Longrightarrow> cas_ok (interval s) rq"
    "cas_ok (interval s) rp \<Longrightarrow> EvWarn now \<in> set evs \<Longrightarrow>
      lastDropWarn t = now \<and> may_warn (interval s) now (lastDropWarn s)"
  using assms
  by (cases "(i, rp, inp, s)" rule: report_step.cases; auto simp: Let_def may_warn_def split: if_splits)+

lemma warn_inv_step:
  assumes inv: "warn_inv s" and step: "step k s evs s'"
  shows "warn_inv s'"
  using step
proof cases
  case (sched inp)
  note f = sched_frame [OF sched(2)]
  from sched(2) have "cas_ok (interval s) rq" if "spc s' = SReport now rq" for now rq
  proof (cases rule: sched_step_cases)
    case (report now' rp rp' t)
    then show ?thesis using that report_cas_ok(1) [OF report(2)] by (auto split: option.splits)
  next
    case (skip now')
    then show ?thesis using that by (auto simp: skip_step_def Let_def)
  qed (use that in \<open>auto simp: sched_defs split: list.splits if_splits option.splits choice.splits\<close>)
  then show ?thesis using inv f by (simp add: warn_inv_def)
next
  case (worker w inp)
  note f = worker_frame(2,6) [OF worker(3)]
  have "cas_ok (interval s) rq" if new: "WReport i rq \<in> set (workers s')" for i rq
  proof -
    have old: "WReport i rq \<in> set (workers s) \<Longrightarrow> cas_ok (interval s) rq"
      using inv unfolding warn_inv_def by blast
    from worker(3) show ?thesis
    proof (cases rule: worker_step_cases)
      case (report j rp rp' t)
      then show ?thesis using new old report_cas_ok(1) [OF report(2)] report_step_frame(4) [OF report(2)]
        by (auto dest!: in_set_update split: option.splits)
    qed (use new old in \<open>auto simp: worker_defs dest!: in_set_update
        split: list.splits option.splits sum.splits choice.splits prod.splits if_splits\<close>)
  qed
  then show ?thesis using inv f by (simp add: warn_inv_def)
qed (use inv in \<open>simp_all add: warn_inv_def\<close>)

lemma warn_event:
  assumes inv: "warn_inv s" and step: "step k s evs s'" and ev: "EvWarn now \<in> set evs"
  shows "lastDropWarn s' = now \<and> may_warn (interval s) now (lastDropWarn s)"
  using step
proof cases
  case (sched inp)
  from sched(2) show ?thesis
  proof (cases rule: sched_step_cases)
    case (report now' rp rp' t)
    then show ?thesis using report_cas_ok(2) [OF report(2) _ ev] inv by (auto simp: warn_inv_def)
  qed (use ev in \<open>auto simp: sched_defs split: list.splits if_splits option.splits choice.splits\<close>)
next
  case (worker w inp)
  from worker(3) show ?thesis
  proof (cases rule: worker_step_cases)
    case (report j rp rp' t)
    have "WReport j rp \<in> set (workers s)" using report(1) worker(2) by (metis nth_mem)
    then show ?thesis using report report_cas_ok(2) [OF report(2) _ ev] inv
      by (auto simp: warn_inv_def)
  qed (use ev in \<open>auto simp: worker_defs
      split: list.splits option.splits sum.splits choice.splits prod.splits if_splits\<close>)
qed (use ev in auto)

lemma step_interval: "step k s evs s' \<Longrightarrow> interval s' = interval s"
  by (erule step.cases) (simp_all add: sched_frame worker_frame(6))

lemma executes_warn_inv:
  assumes "executes k cfg ts iv0 conc opts ctx evs s"
  shows "warn_inv s \<and> interval s = iv0"
proof -
  obtain r where e: "exec k (launch r ctx) evs s" and i: "interval r = iv0" using executes_start [OF assms] by metis
  have "warn_inv (launch r ctx)" by (simp add: warn_inv_def)
  with e have "warn_inv s" using warn_inv_step by (rule exec_inv)
  moreover have "interval s = iv0"
    using e
  proof (rule exec_inv [where I = "\<lambda>s. interval s = iv0"])
    fix s evs s' assume "interval s = iv0" "step k s evs s'"
    then show "interval s' = iv0" using step_interval by metis
  qed (simp add: i)
  ultimately show ?thesis ..
qed

section \<open>Properties\<close>

text \<open>
  C27: cadence. Once the scheduler has started, every entry's next slot lies on its grid (congruent to
  the FNV phase modulo the interval), whatever the clock does; and the end of a lap moves the served
  entry, and no other, to the first slot of its grid after the clock's reading.
\<close>

theorem runner_keeps_phase:
  assumes "executes k cfg ts iv0 conc opts ctx evs s"
  shows "(spc s \<noteq> SInit \<and> i < length ts \<longrightarrow>
      on_grid (ent_interval (entries s ! i)) (ent_phase (entries s ! i)) (next_of s i)) \<and>
    (spc s = SAdvance now \<longrightarrow> (\<exists>s'. sched_step NoInput s = Some (s', []) \<and> spc s' = SDrain \<and>
      next_of s' (htop s) = slotAfter now (ent_interval (entries s ! htop s)) (ent_phase (entries s ! htop s)) \<and>
      (\<forall>j. j \<noteq> htop s \<longrightarrow> next_of s' j = next_of s j)))"
proof -
  note inv = runner_invD [OF executes_inv [OF assms]]
  have wf: "list_all wf_entry (entries s)" and len: "length (entries s) = length ts"
    using inv(1) shape_length by (auto simp: shape_def)
  have "on_grid (ent_interval (entries s ! i)) (ent_phase (entries s ! i)) (next_of s i)"
    if "spc s \<noteq> SInit" "i < length ts"
    using plan_invD(3) [OF inv(3) that(1)] that(2) len
    by (simp add: list_all_length entry_on_grid_def next_of_def)
  moreover have "\<exists>s'. sched_step NoInput s = Some (s', []) \<and> spc s' = SDrain \<and>
      next_of s' (htop s) = slotAfter now (ent_interval (entries s ! htop s)) (ent_phase (entries s ! htop s)) \<and>
      (\<forall>j. j \<noteq> htop s \<longrightarrow> next_of s' j = next_of s j)" if "spc s = SAdvance now"
    using that plan_inv_advance(2) [OF wf inv(3) that]
    by (intro exI [of _ "advance_step now s"])
      (simp add: sched_step.simps advance_step_def Let_def next_of_def)
  ultimately show ?thesis by blast
qed

theorem runner_keeps_phase_witness:
  "\<exists>s evs. demo [demo_target 0] 10 1 None dispatch_one = Some (s, evs) \<and>
    on_grid (ent_interval (entries s ! 0)) (ent_phase (entries s ! 0)) (next_of s 0)"
proof -
  have "map_option (\<lambda>(s, evs). (case spc s of SDrain \<Rightarrow> True | _ \<Rightarrow> False))
      (demo [demo_target 0] 10 1 None dispatch_one) = Some True" by code_simp
  then obtain s evs where d: "demo [demo_target 0] 10 1 None dispatch_one = Some (s, evs)"
    and c: "case spc s of SDrain \<Rightarrow> True | _ \<Rightarrow> False" by (auto elim: demo_result)
  have "spc s \<noteq> SInit" using c by auto
  moreover have "executes demo_sdk \<lparr>CfgSource = ''descry'', CfgType = []\<rparr> [demo_target 0] 10 1 [] None evs s"
    using d by (rule demo_executes) (simp_all add: max64_def demo_target_def)
  note runner_keeps_phase [OF this, of 0]
  ultimately show ?thesis using d by simp
qed

text \<open>
  A backward clock step is repaired. When the top entry is more than an interval away, the lap
  serves no slot and re-anchors: afterwards every entry (with an interval below the largest int64) is
  due within one interval of the clock's reading, and an entry that was within its interval keeps its
  slot.
\<close>

theorem runner_reanchors:
  assumes "executes k cfg ts iv0 conc opts ctx evs s" "spc s = SPeek" "stale now (entries s ! htop s)"
  shows "\<exists>s'. sched_step (Clock now) s = Some (s', []) \<and> spc s' = SDrain \<and>
    (\<forall>i < length ts. (ent_interval (entries s ! i) < max64 \<longrightarrow> next_of s' i \<le> now + ent_interval (entries s ! i)) \<and>
      (\<not> stale now (entries s ! i) \<longrightarrow> next_of s' i = next_of s i) \<and>
      (stale now (entries s ! i) \<longrightarrow> now < next_of s' i \<and> next_of s' i < next_of s i))"
proof -
  note inv = runner_invD [OF executes_inv [OF assms(1)]]
  have len: "length (entries s) = length ts" using shape_length [OF inv(1)] .
  let ?s = "(reanchor now s)\<lparr>spc := SDrain\<rparr>"
  have "(ent_interval (entries s ! i) < max64 \<longrightarrow> next_of ?s i \<le> now + ent_interval (entries s ! i)) \<and>
      (\<not> stale now (entries s ! i) \<longrightarrow> next_of ?s i = next_of s i) \<and>
      (stale now (entries s ! i) \<longrightarrow> now < next_of ?s i \<and> next_of ?s i < next_of s i)" if i: "i < length ts" for i
  proof -
    let ?e = "entries s ! i"
    have wf: "0 < ent_interval ?e" "0 \<le> ent_phase ?e" "ent_phase ?e < ent_interval ?e"
      using inv(1) i len by (auto simp: shape_def list_all_length wf_entry_def)
    note b = slotAfter_bounds [OF wf, of now]
    have n: "next_of ?s i = (if stale now ?e then slotAfter now (ent_interval ?e) (ent_phase ?e) else ent_next ?e)"
      using i len by (simp add: next_of_def)
    have st: "stale now ?e \<Longrightarrow> ent_interval ?e < ent_next ?e - now"
      using wf(1) by (auto simp: stale_def time_sub_def int64_defs split: if_splits)
    have "ent_next ?e \<le> now + ent_interval ?e" if "\<not> stale now ?e" "ent_interval ?e < max64"
      using that wf(1) sat64_gt_iff [of "ent_interval ?e" "ent_next ?e - now"]
      by (simp add: stale_def time_sub_def)
    then show ?thesis using n b st by (auto simp: next_of_def)
  qed
  then show ?thesis using assms(2,3)
    by (intro exI [of _ ?s]) (simp add: sched_step.simps peek_step_def Let_def)
qed

theorem runner_reanchors_witness:
  "\<exists>s evs s'. demo [demo_target 0] 10 1 None (take 2 dispatch_one) = Some (s, evs) \<and>
    sched_step (Clock 500) s = Some (s', []) \<and> next_of s' 0 \<le> 510"
proof -
  have "map_option (\<lambda>(s, evs). (case spc s of SPeek \<Rightarrow> True | _ \<Rightarrow> False, htop s, length (entries s),
        ent_next (entries s ! 0), ent_interval (entries s ! 0)))
      (demo [demo_target 0] 10 1 None (take 2 dispatch_one)) = Some (True, 0, 1, 1007, 10)" by code_simp
  then obtain s evs where d: "demo [demo_target 0] 10 1 None (take 2 dispatch_one) = Some (s, evs)"
    and c: "case spc s of SPeek \<Rightarrow> True | _ \<Rightarrow> False" "htop s = 0" "length (entries s) = 1"
      "ent_next (entries s ! 0) = 1007" "ent_interval (entries s ! 0) = 10" by (auto elim: demo_result)
  have pc: "spc s = SPeek" using c(1) by (cases "spc s") simp_all
  have e: "executes demo_sdk \<lparr>CfgSource = ''descry'', CfgType = []\<rparr> [demo_target 0] 10 1 [] None evs s"
    using d by (rule demo_executes) (simp_all add: max64_def demo_target_def)
  have "stale 500 (entries s ! htop s)" using c by (simp add: stale_def time_sub_def int64_defs)
  from runner_reanchors [OF e pc this] show ?thesis using d c(5) by (auto simp: max64_def)
qed

text \<open>
  The spacing of drop warnings. A warning stamps the clock's reading, and the stamp before it is
  either none, or at least the default interval older (as int64 nanoseconds), or newer than the
  reading.
\<close>

theorem runner_warn_spacing:
  assumes "executes k cfg ts iv0 conc opts ctx evs s" "step k s evs' s'" "EvWarn now \<in> set evs'"
  shows "lastDropWarn s' = now \<and>
    (lastDropWarn s = 0 \<or> iv0 \<le> wrap64 (now - lastDropWarn s) \<or> now < lastDropWarn s)"
  using warn_event [OF _ assms(2,3)] executes_warn_inv [OF assms(1)] by (auto simp: may_warn_def)

definition lap :: "time \<Rightarrow> action list" where
  "lap now = [Sched NoInput, Sched (Clock now), Sched (Choose OnChannel), Sched NoInput]"

definition skip_lap :: "time \<Rightarrow> action list" where
  "skip_lap now = [Sched NoInput, Sched (Clock now), Sched NoInput, Sched NoInput, Sched NoInput]"

definition fail_check :: "nat \<Rightarrow> action list" where
  "fail_check w = [Worker w NoInput, Worker w NoInput, Worker w NoInput,
     Worker w (CheckReturns (Inl (Sentinel ''boom'')))]"

text \<open>
  Two workers that drop at once: the first reads the clock, the second reads it a nanosecond later and
  warns, then the first loads the newer stamp.
\<close>

definition epoch :: time where "epoch = 62135596800 * Second"

definition drop_race :: "action list" where
  "drop_race = Sched (Clock epoch) # lap (epoch + 6) @ lap (epoch + 7) @ fail_check 0 @ fail_check 1 @
     skip_lap (epoch + 16) @ skip_lap (epoch + 17) @ skip_lap (epoch + 26) @ skip_lap (epoch + 27) @
     skip_lap (epoch + 36) @
     [Worker 0 NoInput, Worker 0 NoInput, Worker 1 NoInput, Worker 1 NoInput,
      Worker 0 (Clock (epoch + 40)), Worker 1 (Clock (epoch + 41)), Worker 1 NoInput, Worker 1 NoInput,
      Worker 0 NoInput, Worker 0 NoInput]"

fun warn_stamps :: "ev list \<Rightarrow> int list" where
  "warn_stamps [] = []"
| "warn_stamps (EvWarn now # evs) = now # warn_stamps evs"
| "warn_stamps (e # evs) = warn_stamps evs"

fun clock_readings :: "action list \<Rightarrow> time list" where
  "clock_readings [] = []"
| "clock_readings (Sched (Clock t) # as) = t # clock_readings as"
| "clock_readings (Worker w (Clock t) # as) = t # clock_readings as"
| "clock_readings (a # as) = clock_readings as"

lemma drop_race_clock: "sorted (clock_readings drop_race)"
  by code_simp

text \<open>
  C33: the drop warning is not limited to once per interval. In this interleaving of two reporters, with
  clock readings that never step back, two warnings carry stamps a nanosecond apart although the default
  interval is ten: reading the clock and loading the stamp are not one atomic step, so the slower reporter
  takes the newer stamp for a backward clock step.
\<close>

theorem drop_warning_race:
  "sorted (clock_readings drop_race) \<and> (\<exists>s evs. demo [demo_target 0, demo_target 1] 10 2 None drop_race = Some (s, evs) \<and>
    warn_stamps evs = [41, 40] \<and> interval s = 10)"
proof -
  have "map_option (\<lambda>(s, evs). (warn_stamps evs, interval s))
      (demo [demo_target 0, demo_target 1] 10 2 None drop_race) = Some ([41, 40], 10)" by code_simp
  then show ?thesis using drop_race_clock by (auto elim: demo_result)
qed

theorem runner_warn_spacing_witness:
  "\<exists>s evs s' evs'. demo [demo_target 0, demo_target 1] 10 2 None (butlast drop_race) = Some (s, evs) \<and>
    step demo_sdk s evs' s' \<and> evs' = [EvWarn 40] \<and> lastDropWarn s' = 40 \<and> lastDropWarn s = 41"
proof -
  let ?as = "butlast drop_race"
  have "map_option (\<lambda>(s, evs). (length (workers s), lastDropWarn s,
        case workers s ! 0 of WReport i (RpCas res now prev) \<Rightarrow> (now, prev) | _ \<Rightarrow> (0, 0)))
      (demo [demo_target 0, demo_target 1] 10 2 None ?as) = Some (2, 41, 40, 41)" by code_simp
  then obtain s evs where d: "demo [demo_target 0, demo_target 1] 10 2 None ?as = Some (s, evs)"
    and c: "length (workers s) = 2" "lastDropWarn s = 41"
      "(case workers s ! 0 of WReport i (RpCas res now prev) \<Rightarrow> (now, prev) | _ \<Rightarrow> (0, 0)) = (40, 41)"
    by (auto elim: demo_result)
  obtain i res where p: "workers s ! 0 = WReport i (RpCas res 40 41)"
    using c(3) by (auto split: wpc.splits rpc.splits)
  have e: "executes demo_sdk \<lparr>CfgSource = ''descry'', CfgType = []\<rparr> [demo_target 0, demo_target 1] 10 2 [] None evs s"
    using d by (rule demo_executes) (simp_all add: max64_def demo_target_def)
  have "\<not> panicked s" using executes_inv [OF e] by (simp add: runner_inv_def chan_inv_def)
  then obtain s' where st: "step demo_sdk s [EvWarn 40] s'"
    using step.worker [of s 0 demo_sdk NoInput] p c(1,2) by (force simp: worker_step.simps)
  from runner_warn_spacing [OF e st, of 40] show ?thesis using d st c(2) by auto
qed

end
