(* ===== verification/Cadence.thy ===== *)
theory Cadence
  imports RunnerTime
begin

text \<open>
  The runner under a clock that does not step back: a target is served at most once per interval of
  its grid, however long the scheduler stalls, and it is always due within one interval of the last
  reading. And a clock that jumps ahead and steps back between two slots, which the re-anchor guard
  misses.
\<close>

section \<open>The intervals of a grid\<close>

text \<open>The number of the interval of the grid an instant lies in, and the instants of a target's slots.\<close>

definition cell :: "duration \<Rightarrow> duration \<Rightarrow> time \<Rightarrow> int" where
  "cell iv ph t = (t - ph) div iv"

fun slot_times :: "nat \<Rightarrow> ev list \<Rightarrow> time list" where
  "slot_times i [] = []"
| "slot_times i (EvSlot j t # evs) = (if j = i then t # slot_times i evs else slot_times i evs)"
| "slot_times i (e # evs) = slot_times i evs"

text \<open>The readings of the clock on Run's goroutine.\<close>

fun sched_readings :: "action list \<Rightarrow> time list" where
  "sched_readings [] = []"
| "sched_readings (Sched (Clock t) # as) = t # sched_readings as"
| "sched_readings (a # as) = sched_readings as"

lemma slot_times_append [simp]: "slot_times i (evs @ evs') = slot_times i evs @ slot_times i evs'"
  by (induction i evs rule: slot_times.induct) simp_all

lemma slot_times_none: "(\<And>j t. EvSlot j t \<notin> set evs) \<Longrightarrow> slot_times i evs = []"
  by (induction i evs rule: slot_times.induct) auto

lemma cell_mono: "0 < iv \<Longrightarrow> s \<le> t \<Longrightarrow> cell iv ph s \<le> cell iv ph t"
  by (simp add: cell_def zdiv_mono1)

lemma cell_grid_less:
  assumes "0 < iv" "on_grid iv ph t" "s < t"
  shows "cell iv ph s < cell iv ph t"
proof -
  have "t - ph = cell iv ph t * iv"
    using assms(2) by (metis add.right_neutral cell_def div_mult_mod_eq on_grid_def)
  moreover have "cell iv ph s * iv \<le> s - ph"
    using assms(1) by (simp add: cell_def flip: minus_mod_eq_div_mult)
  ultimately have "cell iv ph s * iv < cell iv ph t * iv" using assms(3) by linarith
  then show ?thesis using assms(1) by simp
qed

text \<open>The interval an instant's successor on the grid begins is a later one.\<close>

lemma cell_slotAfter:
  assumes "0 < iv" "0 \<le> ph" "ph < iv"
  shows "cell iv ph now < cell iv ph (slotAfter now iv ph)"
  using assms by (intro cell_grid_less slots.slot_grid slots.slot_future)

section \<open>The pace of a target\<close>

text \<open>
  With M the last reading of the clock and c the interval of the last slot served: the entry is due
  within one interval of M, and in a later interval than c unless its slot is being processed.
\<close>

definition paced :: "nat \<Rightarrow> duration \<Rightarrow> duration \<Rightarrow> time \<Rightarrow> int \<Rightarrow> 'u sys \<Rightarrow> bool" where
  "paced i iv ph M c s \<longleftrightarrow>
     i < length (entries s) \<and> ent_interval (entries s ! i) = iv \<and> ent_phase (entries s ! i) = ph \<and>
     c \<le> cell iv ph M \<and> (spc s \<noteq> SInit \<longrightarrow> next_of s i \<le> M + iv) \<and>
     (\<forall>t. judged (spc s) = Some t \<longrightarrow> t \<le> M) \<and>
     (lapping (spc s) \<longrightarrow> c < cell iv ph (next_of s i) \<or>
        i = htop s \<and> (\<exists>t. judged (spc s) = Some t \<and> c = cell iv ph t))"

lemma pacedD:
  assumes "paced i iv ph M c s"
  shows "i < length (entries s)" "ent_interval (entries s ! i) = iv" "ent_phase (entries s ! i) = ph"
    "c \<le> cell iv ph M" "spc s \<noteq> SInit \<Longrightarrow> next_of s i \<le> M + iv" "judged (spc s) = Some t \<Longrightarrow> t \<le> M"
    "lapping (spc s) \<Longrightarrow> c < cell iv ph (next_of s i) \<or>
       i = htop s \<and> (\<exists>t. judged (spc s) = Some t \<and> c = cell iv ph t)"
  using assms unfolding paced_def by blast+

text \<open>A transition that leaves the due times and the judged slot alone.\<close>

lemma paced_same:
  assumes p: "paced i iv ph M c s" and iv: "0 < iv" and M: "M \<le> M'"
    and due: "list_all2 same_due (entries s) (entries s')"
    and pc: "spc s' = SInit \<or> spc s \<noteq> SInit" "htop s' = htop s"
      "lapping (spc s') \<Longrightarrow> lapping (spc s) \<and> judged (spc s') = judged (spc s)"
  shows "paced i iv ph M' c s'"
proof -
  note d = pacedD [OF p]
  have e: "length (entries s') = length (entries s)" "same_due (entries s ! i) (entries s' ! i)"
    using due d(1) by (simp_all add: list_all2_conv_all_nth)
  have n: "next_of s' i = next_of s i" using e(2) by (simp add: next_of_def same_due_def)
  have "next_of s' i \<le> M' + iv" if "spc s' \<noteq> SInit" using d(5) pc(1) that M by (auto simp: n)
  moreover have "t \<le> M'" if t: "judged (spc s') = Some t" for t
    using d(6) [of t] pc(3) [OF judged_lapping [OF t]] t M by simp
  moreover have "c \<le> cell iv ph M'" using d(4) cell_mono [OF iv M, of ph] by simp
  ultimately show ?thesis using d(1,2,3,7) e pc(2,3) by (simp add: paced_def same_due_def n)
qed

text \<open>The start: every entry takes its first slot.\<close>

lemma paced_init:
  assumes p: "paced i iv ph M c s" and w: "wf_entry (entries s ! i)" and M: "M \<le> now"
  shows "paced i iv ph now c (init_step now s)"
proof -
  note d = pacedD [OF p]
  have wf: "0 < iv" "0 \<le> ph" "ph < iv" using w d(2,3) by (auto simp: wf_entry_def)
  have n: "next_of (init_step now s) i = slotAfter now iv ph"
    using d(1-3) by (simp add: init_step_def Let_def next_of_def)
  have "c \<le> cell iv ph now" using d(4) cell_mono [OF wf(1) M, of ph] by simp
  moreover have "c < cell iv ph (slotAfter now iv ph)"
    using calculation cell_slotAfter [OF wf, of now] by simp
  moreover have "judged (spc (init_step now s)) = None" by (simp add: init_step_def Let_def)
  ultimately show ?thesis using d(1-3) slotAfter_bounds(2) [OF wf, of now]
    by (simp add: paced_def n) (simp add: init_step_def Let_def)
qed

text \<open>No entry is stale to a reading that does not step back.\<close>

lemma paced_not_stale:
  assumes "paced i iv ph M c s" "wf_entry (entries s ! i)" "spc s \<noteq> SInit" "M \<le> now"
  shows "\<not> stale now (entries s ! i)"
proof -
  note d = pacedD [OF assms(1)]
  have "ent_next (entries s ! i) - now \<le> iv" using d(5) assms(3,4) by (simp add: next_of_def)
  then show ?thesis using d(2) assms(2)
    by (auto simp: stale_def wf_entry_def time_sub_def int64_defs split: if_splits)
qed

text \<open>The slot at the top is processed: the served entry enters the interval of the reading.\<close>

lemma paced_peek:
  assumes p: "\<And>j. j < length (entries s) \<Longrightarrow> \<exists>c. paced j (ent_interval (entries s ! j)) (ent_phase (entries s ! j)) M c s"
    and pi: "paced i iv ph M c s" and wf: "list_all wf_entry (entries s)" and inv: "plan_inv s"
    and pc: "spc s = SPeek" and step: "peek_step now s = (s', evs)" and M: "M \<le> now"
  shows "\<exists>c'. paced i iv ph now c' s' \<and>
    (slot_times i evs = [] \<and> c' = c \<or> slot_times i evs = [now] \<and> c < cell iv ph now \<and> c' = cell iv ph now)"
proof -
  let ?e = "entries s ! htop s"
  note d = pacedD [OF pi]
  have lap: "lapping (spc s)" using pc by simp
  have top: "htop s < length (entries s)" using top_valid(1) [OF inv lap] .
  have w: "wf_entry ?e" "wf_entry (entries s ! i)" using wf top d(1) by (simp_all add: list_all_length)
  then have iv: "0 < iv" using d(2) by (simp add: wf_entry_def)
  obtain c0 where "paced (htop s) (ent_interval ?e) (ent_phase ?e) M c0 s" using p [OF top] by blast
  then have ns: "\<not> stale now ?e" using paced_not_stale w(1) pc M by (metis spc.distinct(5))
  have keep: "paced i iv ph now c s'"
    if "list_all2 same_due (entries s) (entries s')" "spc s' = SWait" "htop s' = htop s"
    using that pc by (intro paced_same [OF pi iv M]) simp_all
  show ?thesis
  proof (cases "time_sub (ent_next ?e) now > 0")
    case True
    then have "s' = s\<lparr>spc := SWait\<rparr>" "evs = []" using step ns by (simp_all add: peek_step_def Let_def)
    then show ?thesis using keep by (simp add: list_all2_same htop_def)
  next
    case False
    then have due: "next_of s (htop s) \<le> now" by (simp add: next_of_def time_sub_def sat64_pos_iff)
    have s': "list_all2 same_due (entries s) (entries s')" "evs = [EvSlot (htop s) now]" "htop s' = htop s"
      "judged (spc s') = Some now" "spc s' \<noteq> SInit"
      using step ns False
      by (auto simp: peek_step_def Let_def list_all2_same htop_def intro!: list_all2_upd split: if_splits)
    have e: "length (entries s') = length (entries s)" "same_due (entries s ! i) (entries s' ! i)"
      using s'(1) d(1) by (simp_all add: list_all2_conv_all_nth)
    have n: "next_of s' i = next_of s i" using e(2) by (simp add: next_of_def same_due_def)
    have fresh: "c < cell iv ph (next_of s i)" using d(7) [OF lap] pc by simp
    let ?c = "if i = htop s then cell iv ph now else c"
    have "c < cell iv ph now" if "i = htop s"
      using fresh cell_mono [OF iv due, of ph] that by simp
    moreover have "c \<le> cell iv ph now" using d(4) cell_mono [OF iv M, of ph] by simp
    moreover have "next_of s i \<le> now + iv" using d(5) pc M by simp
    ultimately have "paced i iv ph now ?c s'"
      using d(1,2,3) e s' fresh by (auto simp: paced_def same_due_def n)
    then show ?thesis using \<open>i = htop s \<Longrightarrow> c < cell iv ph now\<close> s'(2) by (intro exI [of _ ?c]) auto
  qed
qed

text \<open>The end of the lap: the served entry moves to a later interval, by whole intervals.\<close>

lemma paced_advance:
  assumes p: "paced i iv ph M c s" and wf: "list_all wf_entry (entries s)" and inv: "plan_inv s"
    and pc: "spc s = SAdvance now" and M: "M \<le> M'"
  shows "paced i iv ph M' c (advance_step now s)"
proof -
  note d = pacedD [OF p]
  let ?s = "advance_step now s"
  have "wf_entry (entries s ! i)" using wf d(1) by (simp add: list_all_length)
  then have w: "0 < iv" "0 \<le> ph" "ph < iv" using d(2,3) by (auto simp: wf_entry_def)
  have st: "ent_interval (entries ?s ! i) = iv" "ent_phase (entries ?s ! i) = ph" "i < length (entries ?s)"
    "spc ?s = SDrain"
    using d(1-3) by (cases "i = htop s"; simp add: advance_step_def Let_def)+
  have n: "next_of ?s i = (if i = htop s then slotAfter now iv ph else next_of s i)"
    using plan_inv_advance(2) [OF wf inv pc] d(2,3) by (auto simp: advance_step_def Let_def next_of_def)
  have "now \<le> M" using d(6) [of now] pc by simp
  moreover have "c \<le> cell iv ph M'" using d(4) cell_mono [OF w(1) M, of ph] by simp
  moreover have "next_of s i \<le> M + iv" using d(5) pc by simp
  moreover have "i = htop s \<Longrightarrow> c < cell iv ph (slotAfter now iv ph)"
    using d(7) pc cell_slotAfter [OF w, of now] cell_mono [OF w(1) plan_invD(5) [OF inv, of now], of ph] by auto
  moreover have "i \<noteq> htop s \<Longrightarrow> c < cell iv ph (next_of s i)" using d(7) pc by simp
  ultimately show ?thesis
    using st n slotAfter_bounds(2) [OF w, of now] M by (auto simp: paced_def)
qed

section \<open>The pace along an interleaving\<close>

fun reading :: "action \<Rightarrow> time \<Rightarrow> time" where
  "reading (Sched (Clock t)) M = t"
| "reading a M = M"

text \<open>Every target has a pace.\<close>

definition all_paced :: "time \<Rightarrow> 'u sys \<Rightarrow> bool" where
  "all_paced M s \<longleftrightarrow> (\<forall>j < length (entries s).
     \<exists>c. paced j (ent_interval (entries s ! j)) (ent_phase (entries s ! j)) M c s)"

text \<open>What a transition does to the interval of the last slot served.\<close>

definition paces :: "nat \<Rightarrow> duration \<Rightarrow> duration \<Rightarrow> time \<Rightarrow> int \<Rightarrow> ev list \<Rightarrow> 'u sys \<Rightarrow> bool" where
  "paces i iv ph M c evs s \<longleftrightarrow> (\<exists>c'. paced i iv ph M c' s \<and>
     (slot_times i evs = [] \<and> c' = c \<or> slot_times i evs = [M] \<and> c < cell iv ph M \<and> c' = cell iv ph M))"

lemma paces_quiet: "paced i iv ph M c s \<Longrightarrow> slot_times i evs = [] \<Longrightarrow> paces i iv ph M c evs s"
  unfolding paces_def by blast

lemma paced_sched:
  assumes p: "paced i iv ph M c s" and all: "all_paced M s" and inv: "runner_inv ts s"
    and step: "sched_step inp s = Some (s', evs)" and M: "M \<le> reading (Sched inp) M"
  shows "paces i iv ph (reading (Sched inp) M) c evs s'"
proof -
  note v = runner_invD [OF inv]
  have wf: "list_all wf_entry (entries s)" using v(1) by (simp add: shape_def)
  have w: "wf_entry (entries s ! i)" using wf pacedD(1) [OF p] by (simp add: list_all_length)
  then have iv: "0 < iv" using pacedD(2) [OF p] by (auto simp: wf_entry_def)
  note same = paced_same [OF p iv M]
  have quiet: "slot_times i evs = []" if "spc s \<noteq> SPeek" "\<not> panicked s"
    using slot_event [OF step.sched [OF that(2) step]] that(1) by (intro slot_times_none) blast
  have np: "\<not> panicked s" using v(2) by (simp add: chan_inv_def)
  from step show ?thesis
  proof (cases rule: sched_step_cases)
    case (init now)
    then obtain t where "inp = Clock t" "s' = init_step t s"
      using step by (cases inp) (auto simp: sched_step.simps)
    then show ?thesis using paced_init [OF p w, of t] M init(3) by (intro paces_quiet) simp_all
  next
    case (peek now)
    then obtain t where "inp = Clock t" "peek_step t s = (s', evs)"
      using step by (cases inp) (auto simp: sched_step.simps)
    then show ?thesis
      using paced_peek [OF _ p wf v(3) peek(1), of t s' evs] all M by (simp add: paces_def all_paced_def)
  next
    case (advance now)
    then show ?thesis using paced_advance [OF p wf v(3) advance(1) M] by (intro paces_quiet) simp_all
  next
    case (report now rp rp' t)
    note f = report_step_frame [OF report(2)]
    have "paced i iv ph (reading (Sched inp) M) c s'" using report f
      by (intro same) (auto simp: list_all2_same htop_def split: option.splits)
    then show ?thesis using quiet np report(1) by (intro paces_quiet) simp_all
  next
    case drain
    have "paced i iv ph (reading (Sched inp) M) c s'" using drain
      by (intro same) (auto simp: drain_step_def finish_def list_all2_same htop_def upd_entry_def
        intro!: list_all2_upd split: list.splits)
    then show ?thesis using quiet np drain(1) by (intro paces_quiet) simp_all
  next
    case (wait ch)
    have "paced i iv ph (reading (Sched inp) M) c s'" using wait
      by (intro same) (auto simp: wait_step_def finish_def list_all2_same htop_def upd_entry_def
        intro!: list_all2_upd split: list.splits choice.splits)
    then show ?thesis using quiet np wait(1) by (intro paces_quiet) simp_all
  qed (auto simp: sched_defs list_all2_same htop_def intro!: paces_quiet same
      split: if_splits option.splits choice.splits)
qed

lemma paced_act:
  assumes p: "paced i iv ph M c s" and all: "all_paced M s" and inv: "runner_inv ts s"
    and step: "\<not> panicked s" "act k a s = Some (s', evs)" and M: "M \<le> reading a M"
  shows "paces i iv ph (reading a M) c evs s'"
proof (cases a)
  case (Sched inp)
  then show ?thesis using paced_sched [OF p all inv] step(2) M by simp
next
  case (Worker w inp)
  then have st: "worker_step k w inp s = Some (s', evs)" using step(2) by (simp split: if_splits)
  have "wf_entry (entries s ! i)" "ent_interval (entries s ! i) = iv"
    using runner_invD(1) [OF inv] pacedD(1,2) [OF p] by (simp_all add: shape_def list_all_length)
  then have iv: "0 < iv" by (auto simp: wf_entry_def)
  have "list_all2 same_due (entries s) (entries s')"
    using worker_frame(13) [OF st] by (rule list.rel_mono_strong) (simp add: same_plan_def same_due_def)
  then have "paced i iv ph (reading a M) c s'"
    using worker_frame(1,2) [OF st] by (intro paced_same [OF p iv M]) (simp_all add: htop_def)
  then show ?thesis using worker_no_sched_events(1) [OF st] by (intro paces_quiet slot_times_none) auto
next
  case (Cancel err)
  then show ?thesis using p step(2)
    by (intro paces_quiet) (auto simp: paced_def htop_def next_of_def split: if_splits)
next
  case Consume
  then show ?thesis using p step(2)
    by (intro paces_quiet) (auto simp: paced_def htop_def next_of_def split: list.splits)
qed

lemma entries_static:
  assumes "step k s evs s'"
  shows "list_all2 same_static (entries s) (entries s')"
  using assms
proof cases
  case (sched inp)
  then show ?thesis using sched_frame by blast
next
  case (worker w inp)
  from worker_frame(13) [OF worker(3)] show ?thesis
    by (rule list.rel_mono_strong) (simp add: same_plan_def same_static_def)
qed (simp_all add: list_all2_same)

lemma all_paced_act:
  assumes "all_paced M s" "runner_inv ts s" "\<not> panicked s" "act k a s = Some (s', evs)" "M \<le> reading a M"
  shows "all_paced (reading a M) s'"
  unfolding all_paced_def
proof (intro allI impI)
  fix j assume j: "j < length (entries s')"
  have st: "list_all2 same_static (entries s) (entries s')"
    using assms(3,4) by (intro entries_static act_step)
  then have l: "j < length (entries s)" and e: "same_static (entries s ! j) (entries s' ! j)"
    using j by (auto simp: list_all2_conv_all_nth)
  obtain c where "paced j (ent_interval (entries s ! j)) (ent_phase (entries s ! j)) M c s"
    using assms(1) l unfolding all_paced_def by blast
  from paced_act [OF this assms]
  show "\<exists>c. paced j (ent_interval (entries s' ! j)) (ent_phase (entries s' ! j)) (reading a M) c s'"
    using e unfolding paces_def same_static_def by auto
qed

lemma last_reading: "last (M # sched_readings (a # as)) = last (reading a M # sched_readings as)"
  by (cases "(a, M)" rule: reading.cases) simp_all

lemma sorted_reading:
  "sorted (M # sched_readings (a # as)) \<Longrightarrow> M \<le> reading a M \<and> sorted (reading a M # sched_readings as)"
  by (cases "(a, M)" rule: reading.cases) auto

lemma play_paced:
  assumes "play k as s = Some (s', evs)" "sorted (M # sched_readings as)" "runner_inv ts s" "all_paced M s"
    "paced i iv ph M c s"
  shows "sorted_wrt (<) (c # map (cell iv ph) (slot_times i evs)) \<and>
    paced i iv ph (last (M # sched_readings as)) (last (c # map (cell iv ph) (slot_times i evs))) s'"
  using assms
proof (induction as arbitrary: s M c evs)
  case Nil
  then show ?case by simp
next
  case (Cons a as)
  obtain t es es' where t: "\<not> panicked s" "act k a s = Some (t, es)" "play k as t = Some (s', es')" "evs = es @ es'"
    using Cons.prems(1) by (auto split: if_splits option.splits)
  have M: "M \<le> reading a M" "sorted (reading a M # sched_readings as)"
    using sorted_reading [OF Cons.prems(2)] by simp_all
  obtain c' where c': "paced i iv ph (reading a M) c' t"
    "slot_times i es = [] \<and> c' = c \<or>
     slot_times i es = [reading a M] \<and> c < cell iv ph (reading a M) \<and> c' = cell iv ph (reading a M)"
    using paced_act [OF Cons.prems(5,4,3) t(1,2) M(1)] unfolding paces_def by blast
  have "runner_inv ts t" using runner_inv_step [OF Cons.prems(3) act_step [OF t(1,2)]] .
  from Cons.IH [OF t(3) M(2) this all_paced_act [OF Cons.prems(4,3) t(1,2) M(1)] c'(1)]
  show ?case unfolding last_reading using c'(2) t(4) by auto
qed

lemma strict_length:
  "sorted_wrt (<) (c # xs) \<Longrightarrow> int (length xs) \<le> last (c # xs) - (c::int)"
proof (induction xs arbitrary: c)
  case (Cons x xs)
  have "int (length xs) \<le> last (x # xs) - x" "c < x" using Cons by simp_all
  then show ?case by simp
qed simp

lemma launch_all_paced:
  assumes "runner_inv ts s" "spc s = SInit"
  shows "all_paced M s"
  using assms by (auto simp: all_paced_def paced_def)

section \<open>Properties\<close>

text \<open>
  C6: cadence under a clock that does not step back. Whatever the workers, the consumer and the
  canceller do, and however long the scheduler is stalled between two readings: the slots of a target
  are served in strictly later and later intervals of its grid, so a stall is one slot and no flood of
  them; there are at most as many as intervals begun between the first reading and the last; the entry is
  due within one interval of the last reading; and no later reading finds it stale, so the re-anchor
  guard never fires.
\<close>

theorem runner_serves_once_per_interval:
  assumes "args_ok ts iv0 opts" "New k cfg ts iv0 conc opts = Some r" "Run r ctx = Inr s0"
    "play k as s0 = Some (s, evs)" "sched_readings as = first # rest" "sorted (first # rest)" "i < length ts"
  shows "sorted_wrt (<) (map (cell (ent_interval (entries s ! i)) (ent_phase (entries s ! i))) (slot_times i evs)) \<and>
    int (length (slot_times i evs)) \<le>
      cell (ent_interval (entries s ! i)) (ent_phase (entries s ! i)) (last (first # rest)) -
      cell (ent_interval (entries s ! i)) (ent_phase (entries s ! i)) first \<and>
    (spc s \<noteq> SInit \<longrightarrow> next_of s i \<le> last (first # rest) + ent_interval (entries s ! i) \<and>
      (\<forall>later \<ge> last (first # rest). \<not> stale later (entries s ! i)))"
proof -
  have inv: "runner_inv ts s0" using launch_inv [OF assms(1-3)] .
  have e: "exec k s0 evs s" using play_exec [OF assms(4)] .
  then have invs: "runner_inv ts s" using inv runner_inv_step by (rule exec_inv)
  have pc: "spc s0 = SInit" using assms(3) by (auto simp: Run_def split: if_splits option.splits)
  have len: "length (entries s0) = length ts" using shape_length [OF runner_invD(1) [OF inv]] .
  let ?e = "entries s0 ! i" and ?l = "last (first # rest)"
  let ?c = "cell (ent_interval ?e) (ent_phase ?e)"
  have "paced i (ent_interval ?e) (ent_phase ?e) first (?c first) s0"
    using assms(7) len pc by (simp add: paced_def)
  moreover have "sorted (first # sched_readings as)" using assms(5,6) by simp
  ultimately have srt: "sorted_wrt (<) (?c first # map ?c (slot_times i evs))"
    and p: "paced i (ent_interval ?e) (ent_phase ?e) ?l (last (?c first # map ?c (slot_times i evs))) s"
    using play_paced [OF assms(4) _ inv launch_all_paced [OF inv pc, of first]] assms(5) by fastforce+
  note d = pacedD [OF p]
  have "wf_entry (entries s ! i)"
    using runner_invD(1) [OF invs] d(1) by (simp add: shape_def list_all_length)
  then have "\<not> stale later (entries s ! i)" if "spc s \<noteq> SInit" "?l \<le> later" for later
    using paced_not_stale [OF p] that by blast
  moreover have "int (length (slot_times i evs)) \<le> ?c ?l - ?c first"
    using strict_length [OF srt] d(4) by simp
  ultimately show ?thesis using srt d(2,3,5) by simp
qed

definition stalled :: "action list" where
  "stalled = dispatch_one @ skip_lap 5000"

theorem runner_serves_once_per_interval_witness:
  "\<exists>s evs. demo [demo_target 0] 10 1 None stalled = Some (s, evs) \<and>
    slot_times 0 evs = [1007, 5000] \<and> cell 10 7 1007 < cell 10 7 5000 \<and> next_of s 0 \<le> 5010"
proof -
  have "map_option (\<lambda>(s, evs). (slot_times 0 evs, map ent_interval (entries s), map ent_phase (entries s),
        case spc s of SInit \<Rightarrow> True | _ \<Rightarrow> False))
      (demo [demo_target 0] 10 1 None stalled) = Some ([1007, 5000], [10], [7], False)" by code_simp
  then obtain s evs where d: "demo [demo_target 0] 10 1 None stalled = Some (s, evs)"
    and c: "slot_times 0 evs = [1007, 5000]" "map ent_interval (entries s) = [10]" "map ent_phase (entries s) = [7]"
      "\<not> (case spc s of SInit \<Rightarrow> True | _ \<Rightarrow> False)" by (auto elim: demo_result)
  have e: "ent_interval (entries s ! 0) = 10" "ent_phase (entries s ! 0) = 7" using c(2,3) by auto
  have pc: "spc s \<noteq> SInit" using c(4) by auto
  obtain r s0 where r: "New demo_sdk \<lparr>CfgSource = ''descry'', CfgType = []\<rparr> [demo_target 0] 10 1 [] = Some r"
    "Run r None = Inr s0" "play demo_sdk stalled s0 = Some (s, evs)"
    using d by (auto simp: demo_def split: option.splits sum.splits)
  have "args_ok [demo_target 0] 10 []" by (simp add: args_ok_def max64_def demo_target_def)
  moreover have "sched_readings stalled = 1000 # [1007, 5000]" by code_simp
  ultimately show ?thesis
    using runner_serves_once_per_interval [OF _ r, of 1000 "[1007, 5000]" 0] d c(1) e pc by auto
qed

text \<open>
  Two targets that are both overdue after the clock has jumped ahead; the clock steps back after the
  first has been served and before the second is.
\<close>

definition jump_and_back :: "action list" where
  "jump_and_back = Sched (Clock 1000) # lap 11007 @ lap 1008 @
     skip_lap 1017 @ skip_lap 1027 @ skip_lap 1037 @ skip_lap 1047"

fun slot_log :: "ev list \<Rightarrow> (nat \<times> time) list" where
  "slot_log [] = []"
| "slot_log (EvSlot i t # evs) = (i, t) # slot_log evs"
| "slot_log (e # evs) = slot_log evs"

text \<open>
  C40: the bound on a backward clock step does not hold for every step. The clock steps back by 9999
  nanoseconds, far more than the longest interval of ten; the heap top is overdue and so not stale, the guard
  does not fire, and the target served before the step stays due at the far reading: four intervals
  after the step only the other target has been served, and the first is still almost a thousand
  intervals away.
\<close>

theorem reanchor_bound_missed:
  "\<exists>s evs. demo [demo_target 0, demo_target 1] 10 2 None jump_and_back = Some (s, evs) \<and>
    map ent_interval (entries s) = [10, 10] \<and>
    slot_log evs = [(1, 11007), (0, 1008), (0, 1017), (0, 1027), (0, 1037), (0, 1047)] \<and>
    next_of s 0 = 1057 \<and> next_of s 1 = 11016"
proof -
  have "map_option (\<lambda>(s, evs). (map ent_interval (entries s), slot_log evs, next_of s 0, next_of s 1))
      (demo [demo_target 0, demo_target 1] 10 2 None jump_and_back) =
    Some ([10, 10], [(1, 11007), (0, 1008), (0, 1017), (0, 1027), (0, 1037), (0, 1047)], 1057, 11016)"
    by code_simp
  then show ?thesis by (auto elim: demo_result)
qed

end
