(* ===== verification/Histogram.thy ===== *)
theory Histogram
  imports Complex_Main Metrics
begin

text \<open>
  The latency histogram of the collector. Rounding to a double is monotone, for every integer that is
  converted and every quotient, so the buckets of \<open>descry_check_duration_seconds\<close> file a run by its
  milliseconds exactly, although the bounds and the observed seconds are both rounded.
\<close>

section \<open>Rounding is monotone\<close>

definition val :: "double \<Rightarrow> real" where
  "val d = real_of_int (fst d) / real_of_int (snd d)"

text \<open>To the nearest integer, ties to even.\<close>

definition nearest :: "real \<Rightarrow> int" where
  "nearest y = (if 1 / 2 < frac y \<or> frac y = 1 / 2 \<and> odd \<lfloor>y\<rfloor> then \<lfloor>y\<rfloor> + 1 else \<lfloor>y\<rfloor>)"

lemma nearest_mono:
  assumes "y \<le> z"
  shows "nearest y \<le> nearest z"
proof (cases "\<lfloor>y\<rfloor> = \<lfloor>z\<rfloor>")
  case True
  then have "frac y \<le> frac z" using assms by (simp add: frac_def)
  then show ?thesis using True by (auto simp: nearest_def)
next
  case False
  then have "\<lfloor>y\<rfloor> + 1 \<le> \<lfloor>z\<rfloor>" using floor_mono [OF assms] by simp
  then show ?thesis by (auto simp: nearest_def)
qed

lemma nearest_int [simp]: "nearest (of_int n) = n"
  by (simp add: nearest_def)

lemma nearest_between: "of_int a \<le> y \<Longrightarrow> y \<le> of_int b \<Longrightarrow> a \<le> nearest y \<and> nearest y \<le> b"
  using nearest_mono [of "of_int a" y] nearest_mono [of y "of_int b"] by simp

text \<open>The quotient of two integers, rounded to the nearest one.\<close>

lemma nearest_div:
  assumes "0 < (b::int)"
  shows "nearest (of_int a / of_int b) =
    (if b < 2 * (a mod b) \<or> 2 * (a mod b) = b \<and> a div b mod 2 = 1 then a div b + 1 else a div b)"
proof -
  have f: "\<lfloor>real_of_int a / of_int b\<rfloor> = a div b" by (rule floor_divide_of_int_eq)
  have "real_of_int a = of_int (a div b) * of_int b + of_int (a mod b)"
    by (metis div_mult_mod_eq of_int_add of_int_mult)
  moreover have "frac (real_of_int a / of_int b) = (real_of_int a - of_int (a div b) * of_int b) / of_int b"
    unfolding frac_def f using assms by (simp add: diff_divide_distrib)
  ultimately have r: "frac (real_of_int a / of_int b) = of_int (a mod b) / of_int b" by simp
  have "1 / 2 < of_int (a mod b) / real_of_int b \<longleftrightarrow> b < 2 * (a mod b)"
    "of_int (a mod b) / real_of_int b = 1 / 2 \<longleftrightarrow> 2 * (a mod b) = b"
    using assms by (simp_all add: field_simps) linarith+
  then show ?thesis unfolding nearest_def f r by (simp add: odd_iff_mod_2_eq_one)
qed

lemma bit_len_bounds:
  assumes "0 < n"
  shows "2 ^ (bit_len n - 1) \<le> n \<and> n < 2 ^ bit_len n \<and> 0 < bit_len n"
  using assms
proof (induction n rule: bit_len.induct)
  case (1 n)
  show ?case
  proof (cases "n = 1")
    case True
    then show ?thesis by (simp add: bit_len.simps)
  next
    case False
    then have "0 < n div 2" using 1(2) by simp
    note h = 1(1) [OF _ this]
    then obtain m where m: "bit_len (n div 2) = Suc m" using h 1(2) gr0_conv_Suc by (metis not_le)
    have "bit_len n = Suc (Suc m)" using 1(2) m by (simp add: bit_len.simps [of n])
    moreover have "2 ^ m \<le> n div 2" "n div 2 < 2 * 2 ^ m" using h m 1(2) by simp_all
    ultimately show ?thesis by simp arith
  qed
qed

text \<open>A positive quotient is scaled into the 53 bits and rounded there.\<close>

lemma quotient_bits:
  assumes "0 < p" "0 < q"
  shows "2 powi (int (bit_len p) - int (bit_len q) - 1) < real_of_int p / of_int q \<and>
    real_of_int p / of_int q < 2 powi (int (bit_len p) - int (bit_len q) + 1)"
proof -
  obtain m n where mn: "bit_len p = Suc m" "bit_len q = Suc n"
    using bit_len_bounds assms by (metis gr0_conv_Suc)
  have "2 ^ m \<le> p" "p < 2 ^ Suc m" "2 ^ n \<le> q" "q < 2 ^ Suc n"
    using bit_len_bounds [OF assms(1)] bit_len_bounds [OF assms(2)] mn by simp_all
  then have b: "2 ^ m \<le> real_of_int p" "real_of_int p < 2 * 2 ^ m" "2 ^ n \<le> real_of_int q" "real_of_int q < 2 * 2 ^ n"
    by (simp_all add: of_int_power flip: of_int_le_iff of_int_less_iff [where 'a = real])
  have e: "(2::real) powi (int m - int n) = 2 ^ m / 2 ^ n" by (simp add: power_int_diff)
  have "(2::real) powi (int m - int n - 1) = 2 ^ m / (2 * 2 ^ n)" by (simp add: power_int_diff)
  moreover have "(2::real) ^ m / (2 * 2 ^ n) < of_int p / of_int q" using b assms by (intro frac_less2) simp_all
  moreover have "(2::real) powi (int m - int n + 1) = 2 * 2 ^ m / 2 ^ n" by (simp add: power_int_add e)
  moreover have "of_int p / real_of_int q < 2 * 2 ^ m / 2 ^ n" using b assms by (intro frac_less) simp_all
  ultimately show ?thesis by (simp add: mn)
qed

definition scaled :: "real \<Rightarrow> int \<Rightarrow> bool" where
  "scaled x e \<longleftrightarrow> 2 ^ 52 \<le> x / 2 powi e \<and> x / 2 powi e < 2 ^ 53"

definition rounded :: "real \<Rightarrow> int \<Rightarrow> real" where
  "rounded x e = of_int (nearest (x / 2 powi e)) * 2 powi e"

lemma scaled_unique_le:
  assumes "scaled x e" "scaled y f" "x \<le> y"
  shows "e \<le> f"
proof -
  have "2 ^ 52 * 2 powi e \<le> x" "y < 2 ^ 53 * (2::real) powi f"
    using assms by (simp_all add: scaled_def field_simps)
  then have "2 ^ 52 * 2 powi e < 2 ^ 53 * (2::real) powi f" using assms(3) by simp
  then have "(2::real) powi e < 2 powi (f + 1)" by (simp add: power_int_add)
  then have "e < f + 1" by (metis not_less power_int_increasing one_le_numeral)
  then show ?thesis by simp
qed

lemma rounded_mono:
  assumes "scaled x e" "scaled y f" "x \<le> y"
  shows "rounded x e \<le> rounded y f"
proof (cases "e = f")
  case True
  have "x / 2 powi f \<le> y / 2 powi f" using assms(3) by (simp add: divide_right_mono)
  then have "nearest (x / 2 powi f) \<le> nearest (y / 2 powi f)" by (rule nearest_mono)
  then show ?thesis by (simp add: rounded_def True)
next
  case False
  then have "e + 1 \<le> f" using scaled_unique_le [OF assms] by simp
  then have p: "(2::real) powi (e + 1) \<le> 2 powi f" by (rule power_int_increasing) simp
  have "nearest (x / 2 powi e) \<le> 2 ^ 53" "2 ^ 52 \<le> nearest (y / 2 powi f)"
    using nearest_between [of "2 ^ 52" "x / 2 powi e" "2 ^ 53"] nearest_between [of "2 ^ 52" "y / 2 powi f" "2 ^ 53"]
      assms(1,2) by (auto simp: scaled_def)
  then have "real_of_int (nearest (x / 2 powi e)) \<le> of_int (2 ^ 53)" "real_of_int (2 ^ 52) \<le> of_int (nearest (y / 2 powi f))"
    by (simp_all only: of_int_le_iff)
  then have "rounded x e \<le> 2 ^ 53 * 2 powi e" "2 ^ 52 * 2 powi f \<le> rounded y f"
    by (simp_all add: rounded_def)
  moreover have "2 ^ 53 * 2 powi e \<le> 2 ^ 52 * (2::real) powi f" using p by (simp add: power_int_add)
  ultimately show ?thesis by linarith
qed

lemma round_pos_rounded:
  assumes pq: "0 < p" "0 < q"
  shows "\<exists>e. scaled (of_int p / of_int q) e \<and> val (round_pos p q) = rounded (of_int p / of_int q) e \<and>
    0 < snd (round_pos p q)"
proof -
  let ?x = "real_of_int p / of_int q"
  define e0 where "e0 = int (bit_len p) - int (bit_len q) - 53"
  define scale where "scale = (\<lambda>e. if 0 \<le> e then (p, q * 2 ^ nat e) else (p * 2 ^ nat (- e), q))"
  have sc: "0 < snd (scale e)" "real_of_int (fst (scale e)) / of_int (snd (scale e)) = ?x / 2 powi e" for e
    using pq by (simp_all add: scale_def power_int_def field_simps)
  define e where "e = (if 2 ^ 53 \<le> fst (scale e0) div snd (scale e0) then e0 + 1 else e0)"
  have fl: "\<lfloor>?x / 2 powi e0\<rfloor> = fst (scale e0) div snd (scale e0)"
    unfolding sc(2) [symmetric] by (rule floor_divide_of_int_eq)
  have "2 powi (e0 + 52) < ?x" "?x < 2 powi (e0 + 54)"
    using quotient_bits [OF pq] by (simp_all add: e0_def algebra_simps)
  moreover have "2 powi (k + n) < y \<Longrightarrow> 2 powi n < y / 2 powi k" "y < 2 powi (k + n) \<Longrightarrow> y / 2 powi k < 2 powi n"
    for y :: real and k n :: int by (simp_all add: power_int_add field_simps)
  ultimately have "2 powi 52 < ?x / 2 powi e0" "?x / 2 powi e0 < 2 powi 54" by blast+
  then have b: "2 ^ 52 < ?x / 2 powi e0" "?x / 2 powi e0 < 2 ^ 54" by simp_all
  have half: "?x / 2 powi (e0 + 1) = ?x / 2 powi e0 / 2" by (simp add: power_int_add)
  have halved: "2 ^ 53 \<le> y \<Longrightarrow> y < 2 ^ 54 \<Longrightarrow> 2 ^ 52 \<le> y / 2 \<and> y / 2 < 2 ^ 53" for y :: real by simp
  have s: "scaled ?x e"
  proof (cases "2 ^ 53 \<le> ?x / 2 powi e0")
    case True
    then have "2 ^ 53 \<le> \<lfloor>?x / 2 powi e0\<rfloor>" by (simp add: le_floor_iff)
    then have "e = e0 + 1" unfolding fl e_def by (rule if_P)
    then show ?thesis using True b halved by (simp only: scaled_def half)
  next
    case False
    then have "\<lfloor>?x / 2 powi e0\<rfloor> < 2 ^ 53" by (simp add: floor_less_iff)
    then have "e = e0" unfolding fl e_def not_le [symmetric] by (rule if_not_P)
    then show ?thesis using False b by (simp only: scaled_def not_le less_imp_le)
  qed
  define m where "m = nearest (?x / 2 powi e)"
  have "m = (let a = fst (scale e); b = snd (scale e) in
      if b < 2 * (a mod b) \<or> 2 * (a mod b) = b \<and> a div b mod 2 = 1 then a div b + 1 else a div b)"
    unfolding m_def sc(2) [symmetric] Let_def by (rule nearest_div) (rule sc(1))
  then have r: "round_pos p q = (if 0 \<le> e then (m * 2 ^ nat e, 1) else (m, 2 ^ nat (- e)))"
    unfolding round_pos_def e0_def [symmetric] scale_def [symmetric] Let_def e_def [symmetric]
    by (simp add: case_prod_unfold)
  have "val (round_pos p q) = of_int m * 2 powi e" by (simp add: r val_def power_int_def field_simps)
  then show ?thesis using s by (intro exI [of _ e]) (simp add: rounded_def m_def r)
qed

lemma round_pos_mono:
  assumes "0 < p" "0 < q" "0 < p'" "0 < q'" "real_of_int p / of_int q \<le> of_int p' / of_int q'"
  shows "val (round_pos p q) \<le> val (round_pos p' q')"
  using round_pos_rounded [OF assms(1,2)] round_pos_rounded [OF assms(3,4)] rounded_mono assms(5) by metis

lemma round_pos_pos:
  assumes "0 < p" "0 < q"
  shows "0 < val (round_pos p q)"
proof -
  obtain e where e: "scaled (of_int p / of_int q) e" "val (round_pos p q) = rounded (of_int p / of_int q) e"
    using round_pos_rounded [OF assms] by blast
  have "2 ^ 52 \<le> nearest (of_int p / of_int q / 2 powi e)"
    using e(1) nearest_between [of "2 ^ 52" "of_int p / of_int q / 2 powi e" "2 ^ 53"] by (simp add: scaled_def)
  then show ?thesis by (simp add: e(2) rounded_def)
qed

lemma round_double_cases:
  "val (round_double 0 q) = 0" "0 < p \<Longrightarrow> val (round_double p q) = val (round_pos p q)"
  "p < 0 \<Longrightarrow> val (round_double p q) = - val (round_pos (- p) q)"
  by (simp_all add: round_double_def val_def split: prod.splits)

lemma round_double_pos: "0 < q \<Longrightarrow> 0 < snd (round_double p q)"
  using round_pos_rounded [of p q] round_pos_rounded [of "- p" q]
  by (auto simp: round_double_def split: prod.splits)

lemma round_double_sign:
  assumes "0 < q"
  shows "val (round_double p q) \<le> 0 \<longleftrightarrow> p \<le> 0" "0 \<le> val (round_double p q) \<longleftrightarrow> 0 \<le> p"
  using round_double_cases(1) [of q] round_double_cases(2,3) [of p q] round_pos_pos [of p q] round_pos_pos [of "- p" q] assms
  by (cases p "0::int" rule: linorder_cases; simp)+

lemma round_double_mono:
  assumes "0 < q" "0 < q'" "real_of_int p / of_int q \<le> of_int p' / of_int q'"
  shows "val (round_double p q) \<le> val (round_double p' q')"
proof -
  consider "0 < p" | "p' < 0" | "p \<le> 0" "0 \<le> p'" by linarith
  then show ?thesis
  proof cases
    case 1
    then have "0 < real_of_int p / of_int q" using assms(1) by simp
    then have "0 < real_of_int p' / of_int q'" using assms(3) by linarith
    then have "0 < p'" using assms(2) by (simp add: zero_less_divide_iff)
    then show ?thesis using 1 assms round_pos_mono by (simp add: round_double_cases)
  next
    case 2
    then have "real_of_int p' / of_int q' < 0" using assms(2) by (simp add: divide_less_0_iff)
    then have "real_of_int p / of_int q < 0" using assms(3) by linarith
    then have "p < 0" using assms(1) by (simp add: divide_less_0_iff)
    then show ?thesis using 2 assms round_pos_mono [of "- p'" q' "- p" q] by (simp add: round_double_cases)
  next
    case 3
    then have "val (round_double p q) \<le> 0" "0 \<le> val (round_double p' q')"
      using round_double_sign assms(1,2) by simp_all
    then show ?thesis by linarith
  qed
qed

text \<open>The seconds the collector observes grow with the milliseconds, for every integer.\<close>

definition seconds :: "int \<Rightarrow> double" where
  "seconds ms = double_div (double_of_int ms) (1000, 1)"

lemma seconds_mono:
  assumes "m \<le> n"
  shows "val (seconds m) \<le> val (seconds n)"
proof -
  have "val (double_of_int m) \<le> val (double_of_int n)"
    unfolding double_of_int_def using assms by (intro round_double_mono) simp_all
  moreover have scale: "real_of_int (fst d) / of_int (snd d * 1000) = val d / 1000" for d
    by (simp add: val_def)
  ultimately have "real_of_int (fst (double_of_int m)) / of_int (snd (double_of_int m) * 1000) \<le>
      of_int (fst (double_of_int n)) / of_int (snd (double_of_int n) * 1000)"
    by (simp only: scale)
  then show ?thesis unfolding seconds_def double_div_def
    using round_double_pos [of 1] by (simp add: double_of_int_def round_double_mono)
qed

definition double_le :: "double \<Rightarrow> double \<Rightarrow> bool" where
  "double_le x y \<longleftrightarrow> fst x * snd y \<le> fst y * snd x"

lemma double_le_val:
  assumes "0 < snd x" "0 < snd y"
  shows "double_le x y \<longleftrightarrow> val x \<le> val y"
proof -
  have "val x \<le> val y \<longleftrightarrow> real_of_int (fst x) * of_int (snd y) \<le> of_int (fst y) * of_int (snd x)"
    using assms by (simp add: val_def divide_le_eq pos_le_divide_eq field_simps)
  also have "\<dots> \<longleftrightarrow> fst x * snd y \<le> fst y * snd x" by (simp flip: of_int_mult)
  finally show ?thesis by (simp add: double_le_def)
qed

section \<open>The buckets\<close>

text \<open>The bounds of \<open>durationBuckets\<close> in milliseconds.\<close>

definition bucket_ms :: "int list" where
  "bucket_ms = [5, 10, 25, 50, 100, 250, 500, 1000, 2500, 5000, 10000, 30000]"

definition double_less :: "double \<Rightarrow> double \<Rightarrow> bool" where
  "double_less x y \<longleftrightarrow> \<not> double_le y x"

text \<open>A bound is what the collector observes at exactly its milliseconds, and not a millisecond later.\<close>

lemma buckets_at_bounds:
  "durationBuckets = map (\<lambda>ms. round_double ms 1000) bucket_ms"
  "list_all (\<lambda>ms. double_le (seconds ms) (round_double ms 1000) \<and>
     double_less (round_double ms 1000) (seconds (ms + 1))) bucket_ms"
  "sorted_wrt double_less durationBuckets" "length durationBuckets = length bucket_ms"
  by code_simp+

lemma seconds_pos: "0 < snd (seconds ms)"
  using round_double_pos [of 1 ms] by (simp add: seconds_def double_div_def double_of_int_def round_double_pos)

lemma seconds_le_bucket:
  assumes "i < length bucket_ms"
  shows "double_le (seconds ms) (durationBuckets ! i) \<longleftrightarrow> ms \<le> bucket_ms ! i"
proof -
  let ?b = "round_double (bucket_ms ! i) 1000"
  have b: "durationBuckets ! i = ?b" "0 < snd ?b" using assms by (simp_all add: buckets_at_bounds(1) round_double_pos)
  have "double_le (seconds (bucket_ms ! i)) ?b" "\<not> double_le (seconds (bucket_ms ! i + 1)) ?b"
    using buckets_at_bounds(2) assms by (simp_all add: list_all_length double_less_def)
  then have le: "val (seconds (bucket_ms ! i)) \<le> val ?b" and gt: "val ?b < val (seconds (bucket_ms ! i + 1))"
    by (simp_all add: double_le_val seconds_pos b(2))
  show ?thesis
  proof (cases "ms \<le> bucket_ms ! i")
    case True
    then show ?thesis using seconds_mono [OF True] le by (simp add: b double_le_val seconds_pos)
  next
    case False
    then have "bucket_ms ! i + 1 \<le> ms" by simp
    then show ?thesis using seconds_mono [of "bucket_ms ! i + 1" ms] gt False by (simp add: b double_le_val seconds_pos)
  qed
qed

text \<open>The observations of the histogram.\<close>

fun observed :: "prom_call \<Rightarrow> double list" where
  "observed (HistObserve n v) = (if n = check_duration then [v] else [])"
| "observed x = []"

definition observations :: "'s collector \<Rightarrow> double list" where
  "observations c = concat (map observed (calls c))"

fun mevent_latency :: "'s mevent \<Rightarrow> double list" where
  "mevent_latency (MRun now url obs err) = (if err = None then [seconds (LatencyMs obs)] else [])"
| "mevent_latency x = []"

lemma observations_emit [simp]: "observations (emit xs c) = observations c @ concat (map observed xs)"
  by (simp add: observations_def emit_def)

lemma observations_other [simp]:
  "observations (c\<lparr>byURL := m\<rparr>) = observations c" "observations (c\<lparr>stats := st\<rparr>) = observations c"
  by (simp_all add: observations_def)

lemma target_series_observations: "observations (snd (target_series url c)) = observations c"
  by (auto simp: target_series_def resolve_series_def Let_def comp_def split: option.splits prod.splits)

lemma tlsGauge_observations: "observations (snd (tlsGauge url ts c)) = observations c"
  by (auto simp: tlsGauge_def Let_def split: option.splits)

lemma record_target_observations: "observations (record_target now url obs ts c) = observations c"
  by (simp add: record_target_def Let_def case_prod_unfold tlsGauge_observations split: option.split)

lemma record_run_observations:
  "observations (record_run now url obs err c) = observations c @ (if err = None then [seconds (LatencyMs obs)] else [])"
proof (cases "perTargetActive c")
  case True
  obtain ts c' where t: "target_series url c = (ts, c')" by (cases "target_series url c")
  then have "observations c' = observations c" using target_series_observations [of url c] by simp
  then show ?thesis using True t
    by (cases err) (simp_all add: record_run_def record_fleet_def record_error_def record_target_observations
        Let_def seconds_def)
next
  case False
  then show ?thesis
    by (cases err) (simp_all add: record_run_def record_fleet_def record_error_def Let_def seconds_def)
qed

lemma apply_mevent_observations: "observations (apply_mevent e c) = observations c @ mevent_latency e"
  by (cases e) (simp_all add: record_run_observations ObserveSkip_def SetTargetCount_def SetRunner_def split: option.split)

lemma apply_mevents_observations:
  "observations (fold apply_mevent es c) = observations c @ concat (map mevent_latency es)"
  by (induction es arbitrary: c) (simp_all add: apply_mevent_observations)

lemma NewCollector_observations: "NewCollector register opts = Inr c \<Longrightarrow> observations c = []"
  by (auto simp: NewCollector_def Let_def observations_def comp_def split: option.splits)

lemma latencies_filtered:
  "length (filter P (concat (map mevent_latency es))) =
     length (filter (run_where (\<lambda>url obs err. err = None \<and> P (seconds (LatencyMs obs)))) es)"
proof (induction es)
  case (Cons e es)
  then show ?case by (cases e) auto
qed simp

section \<open>Property\<close>

text \<open>
  C25: the latency histogram is exact. New creates it with bounds that strictly increase (anything else
  panics in the client), and after any sequence of recorded runs, skips, target counts and attachments it
  has observed every completed run once and no run that returned an error, and the observations at or below
  a bound are those of the completed runs of at most that many milliseconds: rounding the milliseconds and
  the bound to doubles moves no run into another bucket.
\<close>

theorem duration_histogram_exact:
  assumes "NewCollector register opts = Inr c" "i < length bucket_ms"
  shows "NewHistogram check_duration durationBuckets \<in> set (calls c) \<and>
    sorted_wrt double_less durationBuckets \<and> length durationBuckets = length bucket_ms \<and>
    length (observations (fold apply_mevent es c)) = length (filter (run_where (\<lambda>url obs err. err = None)) es) \<and>
    length (filter (\<lambda>v. double_le v (durationBuckets ! i)) (observations (fold apply_mevent es c))) =
      length (filter (run_where (\<lambda>url obs err. err = None \<and> LatencyMs obs \<le> bucket_ms ! i)) es)"
proof -
  have o: "observations (fold apply_mevent es c) = concat (map mevent_latency es)"
    using NewCollector_observations [OF assms(1)] by (simp add: apply_mevents_observations)
  have "NewHistogram check_duration durationBuckets \<in> set (calls c)"
    using assms(1) by (auto simp: NewCollector_def Let_def split: option.splits)
  moreover have "length (concat (map mevent_latency es)) = length (filter (run_where (\<lambda>url obs err. err = None)) es)"
    using latencies_filtered [of "\<lambda>v. True" es] by simp
  ultimately show ?thesis
    using latencies_filtered [of "\<lambda>v. double_le v (durationBuckets ! i)" es] buckets_at_bounds(3,4)
    by (simp add: o seconds_le_bucket [OF assms(2)])
qed

theorem duration_histogram_exact_witness:
  "\<exists>c. NewCollector (\<lambda>n. None) demo_opts = Inr c \<and>
    length (filter (\<lambda>v. double_le v (durationBuckets ! 1))
      (observations (fold apply_mevent [demo_run demo_up, demo_run (demo_up\<lparr>LatencyMs := 10\<rparr>), MSkip SkipQueued] c))) = 1"
proof -
  obtain c where c: "NewCollector (\<lambda>n. None) demo_opts = Inr c" using demo_NewCollector by blast
  then show ?thesis
    using duration_histogram_exact [OF c, of 1 "[demo_run demo_up, demo_run (demo_up\<lparr>LatencyMs := 10\<rparr>), MSkip SkipQueued]"]
    by (simp add: bucket_ms_def demo_run_def demo_up_def)
qed

end
