(* ===== verification/Spec2Isabelle.thy ===== *)
theory Spec2Isabelle
  imports EndToEnd Transport DrainRate ProgramExit ProgramMetrics RunnerLife Cadence Histogram Label
begin

text \<open>
  descry: a verification development of the uptime probe in src/ (Go).

  The program. descry loads a YAML config (config/config.go), builds targets and an event sink
  (cmd/descry/main.go), and gives them to a runner (runner/runner.go). The runner's scheduler
  serves each target once per interval, on a phase derived from its URL, and hands it to a pool of
  workers; a worker runs the check (checks/http/http.go, behind the SSRF guard of
  checks/http/ssrf.go), encodes the observation as a CloudEvent (event/event.go) and publishes it
  to the sink (sink/sink.go, sink/file.go). Every skip, failure and success becomes a Result, which
  the command drains to stderr. With --listen an admin server (cmd/descry/admin.go) serves
  readiness and the metrics of a collector (metrics/metrics.go) that decorates the check. Target
  URLs are shown only as redacted (check/check.go) or as a metrics label (metrics/label.go).

  Theories and the code they model.
    Prelude, GoStrings, GoTime, GoFloat, NetUrl, NetIp, UrlParts: what the program uses of Go and
      its standard library: int64 with wrap-around and saturation, byte strings, errors as trees
      for errors.Is, instants and durations, doubles as rounded fractions, url.Parse and
      URL.String, netip addresses. HOL values stand for Go values as each theory's text says.
    Check: check.Status, ErrorClass, Target, Observation and RedactURL.
    Label: TargetLabel, render, delimiters.
    Schedule: phaseOf, slotAfter and the advance at the end of a lap (runner.go).
    Heap: container/heap over schedHeap.
    Event: NewEncoder, Encode, ToCloudEvent, and the reference construction of legacy_test.go; the
      CloudEvents SDK is the record sdk of functions, with its documented laws as hypotheses.
    RunnerModel: New, Run, schedule, skip, drainDone, worker, runOne, reportResult and shutdown as
      a transition system: a record of the shared state and of where each goroutine is, one
      executable function per goroutine's step, and the relations step and exec over all of them.
    RunnerInv (frames and channels), RunnerPlan (heap and slots), RunnerToken (each entry in one
      place), RunnerSafe (the combined invariant), RunnerAcct (counting), RunnerTime (the grid and
      the drop warning), Cadence (how often a target is served), RunnerStop (termination and
      return), RunnerNew (New and Run), RunnerLife (what one target goes through).
    Ssrf: isBlockedIP, assertSafeURL, controlContext.
    HttpCheck: New, CheckRedirect, Run, classifyError, with net/http's redirect loop.
    Transport: newSafeTransport and the dialing it configures (serial), under the HTTP check.
    Sink: bufio.Writer, writeLine, publishLine, StdoutSink, FileSink (open, Publish, Close).
    Config: ValidateSink and Load, with time.ParseDuration.
    Metrics: the collector as the list of its calls on the Prometheus client; the cache of series.
      Histogram: rounding to a double is monotone, and the buckets of the latency histogram.
    Cli: exitCodeFor, drainResults, buildTargets, eventURL, sanitizedCheck, checkLabelCollisions.
    CliRun: run, from the flags to the exit code, with package flag and net.SplitHostPort.
    Pipeline: a probe of a config target through its decorators to the event's fields.
    DrainRate: the rate limit of drainResults, stated over the skips it is given.
    Delivery: the runner composed with a check and a sink that answer its calls; EndToEnd: that
      system on a loaded config, the decorated HTTP check and the file sink.
    Admin: limitListener, limitInFlight, readyState, newAdminMux, serveAdmin and shutdown.
    Program: run from the built targets on as the goroutines it starts (its own, the one that
      clears readiness, Serve's, the drain, the signal notification, the runner's), one executable
      function per goroutine's step and the relation pstep over all of them. ProgramEngine: the
      runner inside it is an execution of RunnerModel. ProgramSafe: readiness, the drain,
      progress and the closing of the sink. ProgramExit: the bound on the transitions to the exit.
      ProgramMetrics: what the collector reads while it runs.
    Simulation: traces of labelled steps, used by RunnerLife and Program.

  What the lemmas show. The runner never sends on or closes a closed channel, never runs a target
  concurrently with itself, accounts for every processed slot, keeps every target on its grid,
  serves it at most once per interval while the clock does not step back, never gets stuck, and shuts down after finitely many steps, quietly. Seen from one target it
  refines a life cycle of five states (life_step). The goroutines of run, in any interleaving,
  refine the sequential account of CliRun: readiness is on only while the runner may run and goes
  off at a cancellation, every Result sent is handled before the exit code is worked out, the sink
  file is closed last, and a scrape reads the true counts; after a cancellation something can always
  move, and once the scheduler has returned the exit is boundedly many transitions away. A sink never
  swallows an acknowledged record, whatever writes fail: its bytes refine an abstract log of lines
  (log_step). Put together, a run that is reported as a success has its own line in the file: the
  event of the observation that the check made in that run, up exactly on a good response.
  The encoder gives the events and errors of the construction by the SDK's setters, so that the Validate
  it leaves out would find nothing. A loaded config is well-formed, so that runner.New cannot panic, and run
  ends with the documented exit code, each of 0, 1 and 2 exactly when the table says so, and the documented
  order of effects. A probe reports a closed set of outcomes and requests
  only URLs that passed the guard, and no connection is made to a blocked address; the guard is an
  explicit table of ranges and its two layers agree. The drain's rate limit is characterised
  exactly. Labels and subjects carry no credentials, query or fragment; counters, buckets and diagnostics
  count every run, failure and skip exactly (up to the wrap-around of a 64-bit counter); admin connections and scrapes stay within their
  limits.

  Interfaces are locales, each interpreted on the model: event_sink (both sinks), put_once (the
  series cache), semaphore (both admin limits), normaliser (the label), budget and ledger (the
  runner's counts), slot_rule (Schedule), due_queue (Heap) and simulation (RunnerLife).

  Bounds. No fuel is used: every function of the code terminates here by a measure (the write loop
  of bufio by what is left to write, the redirect loop by the redirects left, the duration parser
  by the rest of the string). The runner's goroutines need not terminate and are steps; the
  shutdown theorem bounds them by a measure. Durations are int64 with wrap-around; a double is
  rounded to 53 bits, without overflow or subnormals, which no value here reaches. A select with
  several ready cases takes any of them, without fairness, so nothing bounds how many slots the
  scheduler still serves after a cancellation before it takes the context's case.

  Not modelled. Logging and the text of error lines; the User-Agent header; the help texts of
  metrics; the length of the back-off between two publishes (its timer may fire at any time); what net/http does with the settings of the admin server and with the connection pool
  of the transport (Admin and Transport hold what the code sets); the afterDone hook, which only
  tests set; the wall clock, the network, the file system and third-party code (CloudEvents
  SDK, YAML decoder, ULID, Prometheus client), which are arguments, with what is assumed of them as
  named hypotheses: context_setters, event_setter_laws, reference_laws and text_laws of the SDK, each kept by
  the SDK of the witnesses (demo_laws), is_ulid of a fresh id, and newline_free of the event's JSON.
\<close>

end
